(* ===== verification/Ez_Prelude.thy ===== *)
theory Ez_Prelude
  imports Main "HOL-Library.Word" "HOL-Library.Monad_Syntax"
begin

text \<open>
  Shared vocabulary of the c_util development: machine integers, addresses, the typed memory
  that the pointer components (lists, trees, tables) live in, and the generic lemmas on lists
  and memories that several components use.

  A C function that may have undefined behaviour (a dereference of NULL or of memory that is not
  live, an access past the end of an array) is a function into \<open>option\<close>: \<open>None\<close> is the undefined
  behaviour, \<open>Some\<close> the defined result. Theorems that a call returns \<open>Some\<close> are memory-safety
  statements.
\<close>

section \<open>Machine integers and addresses\<close>

type_synonym u8 = "8 word"
type_synonym u32 = "32 word"
type_synonym u64 = "64 word"
type_synonym addr = nat

abbreviation NULL :: addr where
  "NULL \<equiv> 0"

text \<open>A word below half the range reads the same with and without sign.\<close>

lemma sint_unat: "unat (h :: u32) < 2 ^ 31 \<Longrightarrow> sint h = int (unat h)"
proof -
  assume "unat h < 2 ^ 31"
  then have "uint h < 2 ^ 31" by (simp add: unat_eq_nat_uint nat_less_iff del: nat_uint_eq)
  moreover have "- (2 ^ 31) \<le> uint h" by (rule order_trans [OF _ uint_ge_0]) simp
  ultimately have "signed_take_bit 31 (uint h) = uint h" by (intro signed_take_bit_int_eq_self)
  then show "sint h = int (unat h)" by (simp add: sint_uint)
qed

section \<open>Typed memory\<close>

text \<open>
  All objects of one struct type form one memory, a map from addresses to records; an address
  outside the domain is not live. \<open>rd\<close> is the load \<open>p->field\<close>, \<open>wr\<close> the store \<open>p->field = v\<close>
  (as an update function on the record); both are undefined where \<open>p\<close> is not live.
\<close>

definition rd :: "('n \<Rightarrow> 'v) \<Rightarrow> (addr \<rightharpoonup> 'n) \<Rightarrow> addr \<Rightarrow> 'v option" where
  "rd fld m p = map_option fld (m p)"

definition wr :: "(addr \<rightharpoonup> 'n) \<Rightarrow> addr \<Rightarrow> ('n \<Rightarrow> 'n) \<Rightarrow> (addr \<rightharpoonup> 'n) option" where
  "wr m p f = map_option (\<lambda>n. m(p \<mapsto> f n)) (m p)"

named_theorems mem_simps \<open>evaluation of loads and stores on a live address\<close>

lemma rd_Some [mem_simps]: "m p = Some n \<Longrightarrow> rd fld m p = Some (fld n)"
  by (simp add: rd_def)

lemma wr_Some [mem_simps]: "m p = Some n \<Longrightarrow> wr m p f = Some (m(p \<mapsto> f n))"
  by (simp add: wr_def)

lemma rd_eq_Some_conv: "rd fld m p = Some v \<longleftrightarrow> (\<exists>n. m p = Some n \<and> fld n = v)"
  by (auto simp: rd_def)

lemma wr_eq_Some_conv: "wr m p f = Some m' \<longleftrightarrow> (\<exists>n. m p = Some n \<and> m' = m(p \<mapsto> f n))"
  by (auto simp: wr_def)

lemma rd_upd_same [simp]: "rd fld (m(p \<mapsto> n)) p = Some (fld n)"
  by (simp add: rd_def)

lemma rd_upd_other [simp]: "p \<noteq> q \<Longrightarrow> rd fld (m(q \<mapsto> n)) p = rd fld m p"
  by (simp add: rd_def)

text \<open>Two memories that agree on a set of addresses: the frame of an operation.\<close>

definition agree_on :: "addr set \<Rightarrow> (addr \<rightharpoonup> 'n) \<Rightarrow> (addr \<rightharpoonup> 'n) \<Rightarrow> bool" where
  "agree_on A m m' \<longleftrightarrow> (\<forall>p\<in>A. m p = m' p)"

lemma agree_onI [intro]: "(\<And>p. p \<in> A \<Longrightarrow> m p = m' p) \<Longrightarrow> agree_on A m m'"
  by (simp add: agree_on_def)

lemma agree_onD: "agree_on A m m' \<Longrightarrow> p \<in> A \<Longrightarrow> m' p = m p"
  by (simp add: agree_on_def)

lemma agree_on_refl [simp]: "agree_on A m m"
  by (simp add: agree_on_def)

lemma agree_on_trans: "agree_on A m m' \<Longrightarrow> agree_on A m' m'' \<Longrightarrow> agree_on A m m''"
  by (simp add: agree_on_def)

lemma agree_on_mono: "agree_on B m m' \<Longrightarrow> A \<subseteq> B \<Longrightarrow> agree_on A m m'"
  by (auto simp: agree_on_def)

lemma agree_on_upd [simp]: "p \<notin> A \<Longrightarrow> agree_on A m (m'(p \<mapsto> n)) \<longleftrightarrow> agree_on A m m'"
  by (auto simp: agree_on_def)

section \<open>Lists\<close>

lemma butlast_neq_last: "distinct l \<Longrightarrow> p \<in> set (butlast l) \<Longrightarrow> p \<noteq> last l"
  by (cases l rule: rev_cases) auto

lemma tl_neq_hd: "distinct l \<Longrightarrow> p \<in> set (tl l) \<Longrightarrow> p \<noteq> hd l"
  by (cases l) auto

lemma distinct_split_unique:
  "distinct (xs @ p # ys) \<Longrightarrow> xs @ p # ys = us @ p # vs \<Longrightarrow> us = xs \<and> vs = ys"
  by (metis append_Cons_eq_iff distinct_append disjoint_insert(1) in_set_conv_decomp
      not_distinct_conv_prefix distinct.simps(2) list.set(2))

end
