(* ===== verification/Ez_List.thy ===== *)
theory Ez_List
  imports Ez_Prelude
begin

text \<open>
  The intrusive circular doubly linked list of \<^verbatim>\<open>src/ez_list.c\<close> and the iteration macros of
  \<^verbatim>\<open>src/ez_list.h\<close>. A node is its address; the head of a list is a node of the ring that is not
  an element. \<open>dlist m h xs\<close> says that in memory \<open>m\<close> the ring of head \<open>h\<close> holds exactly the
  elements \<open>xs\<close>, in \<open>next\<close> order, with all back links right.
\<close>

section \<open>The data\<close>

record list_head =
  nxt :: addr
  prv :: addr

type_synonym lmem = "addr \<rightharpoonup> list_head"

datatype each_result = BREAK_EACH | CONTINUE_EACH

section \<open>The operations\<close>

definition init_list_head :: "lmem \<Rightarrow> addr \<Rightarrow> lmem option" where
  "init_list_head m list = do {
     m \<leftarrow> wr m list (\<lambda>n. n\<lparr>nxt := list\<rparr>);
     wr m list (\<lambda>n. n\<lparr>prv := list\<rparr>)
   }"

definition list_is_empty :: "lmem \<Rightarrow> addr \<Rightarrow> bool option" where
  "list_is_empty m head = do { n \<leftarrow> rd nxt m head; Some (n = head) }"

definition list_add_between :: "lmem \<Rightarrow> addr \<Rightarrow> addr \<Rightarrow> addr \<Rightarrow> lmem option" where
  "list_add_between m newNode prev next_n = do {
     m \<leftarrow> wr m next_n (\<lambda>n. n\<lparr>prv := newNode\<rparr>);
     m \<leftarrow> wr m newNode (\<lambda>n. n\<lparr>nxt := next_n\<rparr>);
     m \<leftarrow> wr m newNode (\<lambda>n. n\<lparr>prv := prev\<rparr>);
     wr m prev (\<lambda>n. n\<lparr>nxt := newNode\<rparr>)
   }"

definition list_add :: "lmem \<Rightarrow> addr \<Rightarrow> addr \<Rightarrow> lmem option" where
  "list_add m newNode head = do {
     hn \<leftarrow> rd nxt m head;
     list_add_between m newNode head hn
   }"

definition list_del_between :: "lmem \<Rightarrow> addr \<Rightarrow> addr \<Rightarrow> lmem option" where
  "list_del_between m prev next_n = do {
     m \<leftarrow> wr m next_n (\<lambda>n. n\<lparr>prv := prev\<rparr>);
     wr m prev (\<lambda>n. n\<lparr>nxt := next_n\<rparr>)
   }"

definition list_del :: "lmem \<Rightarrow> addr \<Rightarrow> lmem option" where
  "list_del m entry = do {
     p \<leftarrow> rd prv m entry;
     n \<leftarrow> rd nxt m entry;
     m \<leftarrow> list_del_between m p n;
     m \<leftarrow> wr m entry (\<lambda>e. e\<lparr>nxt := NULL\<rparr>);
     wr m entry (\<lambda>e. e\<lparr>prv := NULL\<rparr>)
   }"

text \<open>
  The iterations take a callback on the memory and a client state \<open>'s\<close>. Each of them reads the
  successor of a node before it runs the callback on that node. A ring that never comes back to
  the head makes them run for ever, which is the value \<open>None\<close>.
\<close>

partial_function (option) list_foreach_loop ::
    "(addr \<Rightarrow> lmem \<Rightarrow> 's \<Rightarrow> (lmem \<times> 's) option) \<Rightarrow> addr \<Rightarrow> addr \<Rightarrow> lmem \<Rightarrow> 's \<Rightarrow> (lmem \<times> 's) option"
where
  "list_foreach_loop func head i m s =
     (if i = head then Some (m, s)
      else do {
        i' \<leftarrow> rd nxt m i;
        (m', s') \<leftarrow> func i m s;
        list_foreach_loop func head i' m' s'
      })"

definition list_foreach ::
    "(addr \<Rightarrow> lmem \<Rightarrow> 's \<Rightarrow> (lmem \<times> 's) option) \<Rightarrow> addr \<Rightarrow> lmem \<Rightarrow> 's \<Rightarrow> (lmem \<times> 's) option"
where
  "list_foreach func head m s = do { i \<leftarrow> rd nxt m head; list_foreach_loop func head i m s }"

partial_function (option) list_foreach2_loop ::
    "(addr \<Rightarrow> lmem \<Rightarrow> 's \<Rightarrow> (lmem \<times> 's \<times> each_result) option) \<Rightarrow> addr \<Rightarrow> addr \<Rightarrow> lmem \<Rightarrow> 's
       \<Rightarrow> (lmem \<times> 's) option"
where
  "list_foreach2_loop func head i m s =
     (if i = head then Some (m, s)
      else do {
        i' \<leftarrow> rd nxt m i;
        (m', s', r) \<leftarrow> func i m s;
        (if r = BREAK_EACH then Some (m', s') else list_foreach2_loop func head i' m' s')
      })"

definition list_foreach2 ::
    "(addr \<Rightarrow> lmem \<Rightarrow> 's \<Rightarrow> (lmem \<times> 's \<times> each_result) option) \<Rightarrow> addr \<Rightarrow> lmem \<Rightarrow> 's
       \<Rightarrow> (lmem \<times> 's) option"
where
  "list_foreach2 func head m s = do { i \<leftarrow> rd nxt m head; list_foreach2_loop func head i m s }"

text \<open>
  \<^verbatim>\<open>LIST_FOR(head, pos)\<close> and \<^verbatim>\<open>LIST_FOR_R(head, pos)\<close>: the loop variables are \<open>pos\<close> and the saved
  successor \<open>n\<close>; \<open>n\<close> is loaded one node ahead, so the step expression reads the node after the
  next one. The body answers whether it left the loop with \<^verbatim>\<open>break\<close> or \<^verbatim>\<open>return\<close>.
\<close>

partial_function (option) list_for_loop ::
    "(list_head \<Rightarrow> addr) \<Rightarrow> (addr \<Rightarrow> lmem \<Rightarrow> 's \<Rightarrow> (lmem \<times> 's \<times> bool) option) \<Rightarrow> addr \<Rightarrow> addr \<Rightarrow> addr
       \<Rightarrow> lmem \<Rightarrow> 's \<Rightarrow> (lmem \<times> 's) option"
where
  "list_for_loop link body head pos n m s =
     (if pos = head then Some (m, s)
      else do {
        (m', s', left_loop) \<leftarrow> body pos m s;
        (if left_loop then Some (m', s')
         else do {
           n' \<leftarrow> rd link m' n;
           list_for_loop link body head n n' m' s'
         })
      })"

definition LIST_FOR ::
    "(addr \<Rightarrow> lmem \<Rightarrow> 's \<Rightarrow> (lmem \<times> 's \<times> bool) option) \<Rightarrow> addr \<Rightarrow> lmem \<Rightarrow> 's \<Rightarrow> (lmem \<times> 's) option"
where
  "LIST_FOR body head m s = do {
     pos \<leftarrow> rd nxt m head;
     n \<leftarrow> rd nxt m pos;
     list_for_loop nxt body head pos n m s
   }"

definition LIST_FOR_R ::
    "(addr \<Rightarrow> lmem \<Rightarrow> 's \<Rightarrow> (lmem \<times> 's \<times> bool) option) \<Rightarrow> addr \<Rightarrow> lmem \<Rightarrow> 's \<Rightarrow> (lmem \<times> 's) option"
where
  "LIST_FOR_R body head m s = do {
     pos \<leftarrow> rd prv m head;
     n \<leftarrow> rd prv m pos;
     list_for_loop prv body head pos n m s
   }"

section \<open>What a ring holds\<close>

definition link :: "lmem \<Rightarrow> addr \<Rightarrow> addr \<Rightarrow> bool" where
  "link m a b \<longleftrightarrow> rd nxt m a = Some b \<and> rd prv m b = Some a"

definition dlist :: "lmem \<Rightarrow> addr \<Rightarrow> addr list \<Rightarrow> bool" where
  "dlist m h xs \<longleftrightarrow>
     distinct (h # xs) \<and> NULL \<notin> set (h # xs) \<and> successively (link m) (h # xs @ [h])"

text \<open>
  The frame of a chain of links: it depends on the \<open>next\<close> field of all its nodes but the last and
  on the \<open>prev\<close> field of all but the first.
\<close>

lemma chain_cong:
  assumes "\<And>p. p \<in> set (butlast l) \<Longrightarrow> rd nxt m' p = rd nxt m p"
    and "\<And>p. p \<in> set (tl l) \<Longrightarrow> rd prv m' p = rd prv m p"
  shows "successively (link m') l = successively (link m) l"
  using assms by (induction l rule: induct_list012) (auto simp: link_def)

lemma dlist_chain: "dlist m h (xs @ ys) \<Longrightarrow>
    successively (link m) (h # xs) \<and> successively (link m) (ys @ [h])
    \<and> link m (last (h # xs)) (hd (ys @ [h]))"
  using successively_append_iff [of "link m" "h # xs" "ys @ [h]"] by (simp add: dlist_def)

lemma dlistI:
  assumes "distinct (h # xs @ ys)" "NULL \<notin> set (h # xs @ ys)"
    and "successively (link m) (h # xs)" "successively (link m) (ys @ [h])"
    and "link m (last (h # xs)) (hd (ys @ [h]))"
  shows "dlist m h (xs @ ys)"
  using assms successively_append_iff [of "link m" "h # xs" "ys @ [h]"] by (simp add: dlist_def)

lemma dlist_fst: "dlist m h (xs @ ys) \<Longrightarrow> rd nxt m (last (h # xs)) = Some (hd (ys @ [h]))"
  by (drule dlist_chain) (simp add: link_def)

lemma dlist_lst: "dlist m h (xs @ ys) \<Longrightarrow> rd prv m (hd (ys @ [h])) = Some (last (h # xs))"
  by (drule dlist_chain) (simp add: link_def)

lemma dlist_nxt: "dlist m h (xs @ x # ys) \<Longrightarrow> rd nxt m x = Some (hd (ys @ [h]))"
  using dlist_fst [of m h "xs @ [x]" ys] by simp

lemma dlist_prv: "dlist m h (xs @ x # ys) \<Longrightarrow> rd prv m x = Some (last (h # xs))"
  using dlist_lst [of m h xs "x # ys"] by simp

lemma dlist_live:
  assumes "dlist m h xs" "p \<in> set (h # xs)"
  shows "\<exists>n. m p = Some n"
proof (cases "p = h")
  case True
  with assms show ?thesis using dlist_fst [of m h "[]" xs] by (auto simp: rd_eq_Some_conv)
next
  case False
  with assms obtain us vs where "xs = us @ p # vs" by (auto dest: split_list)
  with assms show ?thesis using dlist_nxt by (fastforce simp: rd_eq_Some_conv)
qed

lemma dlist_distinct: "dlist m h xs \<Longrightarrow> distinct (h # xs) \<and> NULL \<notin> set (h # xs)"
  by (simp add: dlist_def)

lemma dlist_frame:
  assumes "dlist m h xs" and "agree_on (set (h # xs)) m m'"
  shows "dlist m' h xs"
proof -
  have "successively (link m') (h # xs @ [h]) = successively (link m) (h # xs @ [h])"
    using assms(2) by (intro chain_cong) (auto simp: rd_def butlast_append dest: agree_onD)
  with assms(1) show ?thesis by (simp add: dlist_def)
qed

section \<open>What the operations do\<close>

lemma init_list_head_spec:
  assumes "m h = Some n" "h \<noteq> NULL"
  shows "\<exists>m'. init_list_head m h = Some m' \<and> dlist m' h [] \<and> agree_on (- {h}) m m'"
  using assms by (auto simp: init_list_head_def dlist_def link_def mem_simps)

lemma list_is_empty_spec:
  assumes "dlist m h xs"
  shows "list_is_empty m h = Some (xs = [])"
  using dlist_fst [of m h "[]" xs] dlist_distinct [OF assms] assms
  by (cases xs) (auto simp: list_is_empty_def)

lemma list_add_between_effect:
  assumes "m new = Some n0" "m p = Some np" "m q = Some nq" "new \<noteq> p" "new \<noteq> q"
  shows "\<exists>m'. list_add_between m new p q = Some m'
    \<and> (\<forall>r. rd nxt m' r = (if r = p then Some new else if r = new then Some q else rd nxt m r))
    \<and> (\<forall>r. rd prv m' r = (if r = q then Some new else if r = new then Some p else rd prv m r))
    \<and> agree_on (- {new, p, q}) m m'"
  using assms by (cases "p = q") (auto simp: list_add_between_def mem_simps rd_def)

lemma list_del_between_effect:
  assumes "m p = Some np" "m q = Some nq"
  shows "\<exists>m'. list_del_between m p q = Some m'
    \<and> (\<forall>r. rd nxt m' r = (if r = p then Some q else rd nxt m r))
    \<and> (\<forall>r. rd prv m' r = (if r = q then Some p else rd prv m r))
    \<and> agree_on (- {p, q}) m m'"
  using assms by (cases "p = q") (auto simp: list_del_between_def mem_simps rd_def)

text \<open>
  The four boundary facts both surgeries need: the cut point of a ring is a pair of live neighbours,
  and the two halves do not depend on the fields the surgery writes.
\<close>

lemma ring_cut:
  assumes ring: "dlist m h (xs @ ys)"
  shows "\<exists>np. m (last (h # xs)) = Some np" "\<exists>nq. m (hd (ys @ [h])) = Some nq"
    and "last (h # xs) \<in> set (h # xs @ ys)" "hd (ys @ [h]) \<in> set (h # xs @ ys)"
proof -
  show p: "last (h # xs) \<in> set (h # xs @ ys)" by (cases xs rule: rev_cases) auto
  show q: "hd (ys @ [h]) \<in> set (h # xs @ ys)" by (cases ys) auto
  show "\<exists>np. m (last (h # xs)) = Some np" "\<exists>nq. m (hd (ys @ [h])) = Some nq"
    using dlist_live [OF ring] p q by auto
qed

lemma chain_halves_cong:
  assumes d: "distinct (h # xs @ ys)"
    and nx: "\<And>r. r \<in> set (h # xs @ ys) \<Longrightarrow> r \<noteq> last (h # xs) \<Longrightarrow> rd nxt m' r = rd nxt m r"
    and pv: "\<And>r. r \<in> set (h # xs @ ys) \<Longrightarrow> r \<noteq> hd (ys @ [h]) \<Longrightarrow> rd prv m' r = rd prv m r"
  shows "successively (link m') (h # xs) = successively (link m) (h # xs)"
    and "successively (link m') (ys @ [h]) = successively (link m) (ys @ [h])"
proof -
  have d1: "distinct (h # xs)" and d2: "distinct (ys @ [h])" using d by auto
  have q: "r \<noteq> hd (ys @ [h])" if "r \<in> set xs" for r using that d by (cases ys) auto
  have p: "r \<noteq> last (h # xs)" if "r \<in> set ys" for r
    using that d by (cases xs rule: rev_cases) auto
  show "successively (link m') (h # xs) = successively (link m) (h # xs)"
    using butlast_neq_last [OF d1] q
    by (intro chain_cong nx pv) (auto dest: in_set_butlastD split: if_splits)
  show "successively (link m') (ys @ [h]) = successively (link m) (ys @ [h])"
    using tl_neq_hd [OF d2] p
    by (intro chain_cong nx pv) (auto dest: list.set_sel(2) [rotated] in_set_butlastD simp: tl_append split: list.splits)
qed

lemma list_add_spec:
  assumes ring: "dlist m h (xs @ ys)"
    and new: "m new = Some n0" "new \<notin> set (h # xs @ ys)" "new \<noteq> NULL"
  shows "\<exists>m'. list_add m new (last (h # xs)) = Some m' \<and> dlist m' h (xs @ new # ys)
    \<and> agree_on (- insert new (set (h # xs @ ys))) m m'"
proof -
  let ?p = "last (h # xs)" and ?q = "hd (ys @ [h])"
  have d: "distinct (h # xs @ ys)" "NULL \<notin> set (h # xs @ ys)"
    using dlist_distinct [OF ring] by auto
  note cut = ring_cut [OF ring]
  obtain np nq where live: "m ?p = Some np" "m ?q = Some nq" using cut(1,2) by blast
  have ne: "new \<noteq> ?p" "new \<noteq> ?q" using new(2) cut(3,4) by metis+
  obtain m' where m': "list_add_between m new ?p ?q = Some m'"
    and nx: "\<forall>r. rd nxt m' r = (if r = ?p then Some new else if r = new then Some ?q else rd nxt m r)"
    and pv: "\<forall>r. rd prv m' r = (if r = ?q then Some new else if r = new then Some ?p else rd prv m r)"
    and ag: "agree_on (- {new, ?p, ?q}) m m'"
    using list_add_between_effect [of m, OF new(1) live ne] by blast
  have halves: "successively (link m') (h # xs)" "successively (link m') (ys @ [h])"
    using dlist_chain [OF ring] chain_halves_cong [OF d(1), of m' m] new(2)
    by (metis nx pv)+
  have links: "link m' ?p new" "link m' new ?q" using nx pv ne by (auto simp: link_def)
  have "dlist m' h (xs @ new # ys)"
    using d new halves links by (intro dlistI) (auto simp: successively_Cons)
  moreover have "list_add m new ?p = Some m'"
    using m' dlist_fst [OF ring] by (simp add: list_add_def)
  moreover have "agree_on (- insert new (set (h # xs @ ys))) m m'"
    using cut(3,4) by (intro agree_on_mono [OF ag]) auto
  ultimately show ?thesis by blast
qed

lemma list_head_cleared [simp]: "(n :: list_head)\<lparr>nxt := a, prv := b\<rparr> = \<lparr>nxt = a, prv = b\<rparr>"
  by (rule list_head.equality) simp_all

lemma list_del_spec:
  assumes ring: "dlist m h (xs @ e # ys)"
  shows "\<exists>m'. list_del m e = Some m' \<and> dlist m' h (xs @ ys)
    \<and> m' e = Some \<lparr>nxt = NULL, prv = NULL\<rparr> \<and> agree_on (- set (h # xs @ e # ys)) m m'"
proof -
  let ?p = "last (h # xs)" and ?q = "hd (ys @ [h])"
  have d: "distinct (h # xs @ ys)" "NULL \<notin> set (h # xs @ ys)" "e \<notin> set (h # xs @ ys)"
    using dlist_distinct [OF ring] by auto
  have cut: "?p \<in> set (h # xs @ ys)" "?q \<in> set (h # xs @ ys)"
    by (cases xs rule: rev_cases, auto, cases ys, auto)
  obtain np nq ne where live: "m ?p = Some np" "m ?q = Some nq" "m e = Some ne"
    using dlist_live [OF ring] cut by fastforce
  have neq: "e \<noteq> ?p" "e \<noteq> ?q" using d(3) cut by metis+
  obtain m1 where m1: "list_del_between m ?p ?q = Some m1"
    and nx: "\<forall>r. rd nxt m1 r = (if r = ?p then Some ?q else rd nxt m r)"
    and pv: "\<forall>r. rd prv m1 r = (if r = ?q then Some ?p else rd prv m r)"
    and ag: "agree_on (- {?p, ?q}) m m1"
    using list_del_between_effect [of m, OF live(1,2)] by blast
  let ?m = "m1(e \<mapsto> \<lparr>nxt = NULL, prv = NULL\<rparr>)"
  have m1e: "m1 e = Some ne" using ag neq live by (simp add: agree_on_def)
  have "successively (link m) (h # xs)" "successively (link m) (ys @ [h])"
    using dlist_chain [of m h xs "e # ys"] ring by (auto simp: successively_Cons)
  then have halves: "successively (link ?m) (h # xs)" "successively (link ?m) (ys @ [h])"
    using chain_halves_cong [OF d(1), of ?m m] d(3) by (metis nx pv rd_upd_other)+
  have "dlist ?m h (xs @ ys)"
    using d halves nx pv neq by (intro dlistI) (auto simp: link_def)
  moreover have "list_del m e = Some ?m"
    using dlist_nxt [OF ring] dlist_prv [OF ring] m1 m1e by (simp add: list_del_def mem_simps)
  moreover have "agree_on (- set (h # xs @ e # ys)) m ?m"
    using cut by (auto intro!: agree_on_mono [OF ag])
  ultimately show ?thesis by auto
qed

section \<open>Iteration\<close>

text \<open>
  One rule for each loop, in the style of a loop invariant: \<open>I ys m s\<close> holds when the elements
  \<open>ys\<close> are still to be visited. The callback may write the memory as long as the invariant knows
  the \<open>next\<close> links of what is left.
\<close>

lemma list_foreach_rule:
  assumes start: "rd nxt m h = Some (hd (xs @ [h]))" "I xs m s"
    and head: "h \<notin> set xs"
    and nxt: "\<And>x ys m s. I (x # ys) m s \<Longrightarrow> rd nxt m x = Some (hd (ys @ [h]))"
    and step: "\<And>x ys m s. I (x # ys) m s \<Longrightarrow> \<exists>m' s'. func x m s = Some (m', s') \<and> I ys m' s'"
  shows "\<exists>m' s'. list_foreach func h m s = Some (m', s') \<and> I [] m' s'"
proof -
  have "\<exists>m' s'. list_foreach_loop func h (hd (ys @ [h])) m s = Some (m', s') \<and> I [] m' s'"
    if "I ys m s" "h \<notin> set ys" for ys m s
    using that
  proof (induction ys arbitrary: m s)
    case Nil
    then show ?case by (simp add: list_foreach_loop.simps)
  next
    case (Cons y ys)
    obtain m' s' where f: "func y m s = Some (m', s')" "I ys m' s'" using step [OF Cons.prems(1)] by auto
    with Cons nxt [OF Cons.prems(1)] show ?case by (subst list_foreach_loop.simps) simp
  qed
  with start head show ?thesis by (simp add: list_foreach_def)
qed

lemma list_for_rule:
  assumes start: "rd lnk m h = Some (hd (xs @ [h]))" "I xs m s"
    and head: "h \<notin> set xs"
    and nxt: "\<And>x ys m s. I (x # ys) m s \<Longrightarrow> rd lnk m x = Some (hd (ys @ [h]))"
    and wrap: "\<And>m s. I [] m s \<Longrightarrow> \<exists>n. rd lnk m h = Some n"
    and step: "\<And>x ys m s. I (x # ys) m s \<Longrightarrow>
        \<exists>m' s' b. body x m s = Some (m', s', b) \<and> (if b then Q m' s' else I ys m' s')"
    and fin: "\<And>m s. I [] m s \<Longrightarrow> Q m s"
  shows "\<exists>m' s'. do { pos \<leftarrow> rd lnk m h; n \<leftarrow> rd lnk m pos; list_for_loop lnk body h pos n m s }
      = Some (m', s') \<and> Q m' s'"
proof -
  have nx: "\<exists>n. rd lnk m (hd (ys @ [h])) = Some n \<and> (ys \<noteq> [] \<longrightarrow> n = hd (tl ys @ [h]))"
    if "I ys m s" for ys m s
    using that nxt wrap by (cases ys) auto
  have loop: "\<exists>m' s'. list_for_loop lnk body h (hd (ys @ [h])) n m s = Some (m', s') \<and> Q m' s'"
    if "I ys m s" "h \<notin> set ys" "ys \<noteq> [] \<Longrightarrow> n = hd (tl ys @ [h])" for ys n m s
    using that
  proof (induction ys arbitrary: m s n)
    case Nil
    then show ?case by (simp add: list_for_loop.simps fin)
  next
    case (Cons y ys)
    obtain m' s' b where f: "body y m s = Some (m', s', b)" "if b then Q m' s' else I ys m' s'"
      using step [OF Cons.prems(1)] by auto
    show ?case
    proof (cases b)
      case True
      with f Cons.prems show ?thesis by (subst list_for_loop.simps) simp
    next
      case False
      then have I: "I ys m' s'" using f by simp
      obtain n' where n': "rd lnk m' (hd (ys @ [h])) = Some n'" "ys \<noteq> [] \<longrightarrow> n' = hd (tl ys @ [h])"
        using nx [OF I] by auto
      from Cons.IH [OF I, of n'] n' False f Cons.prems show ?thesis
        by (subst list_for_loop.simps) auto
    qed
  qed
  obtain n where "rd lnk m (hd (xs @ [h])) = Some n" "xs \<noteq> [] \<longrightarrow> n = hd (tl xs @ [h])"
    using nx [OF start(2)] by auto
  with start(1) loop [OF start(2) head, of n] show ?thesis by simp
qed

text \<open>A search: the body leaves the loop at the first element that satisfies \<open>P\<close> and does nothing on the others.\<close>

lemma LIST_FOR_search:
  assumes ring: "dlist m h xs"
    and skip: "\<And>x. x \<in> set xs \<Longrightarrow> \<not> P x \<Longrightarrow> body x m s = Some (m, s, False)"
    and hit: "\<And>x. x \<in> set xs \<Longrightarrow> P x \<Longrightarrow> body x m s = map_option (\<lambda>(m, s). (m, s, True)) (found x)"
  shows "LIST_FOR body h m s = (case List.find P xs of None \<Rightarrow> Some (m, s) | Some x \<Rightarrow> found x)"
proof -
  have loop: "list_for_loop nxt body h (hd (ys @ [h])) n m s =
      (case List.find P ys of None \<Rightarrow> Some (m, s) | Some x \<Rightarrow> found x)"
    if "xs = us @ ys" "rd nxt m (hd (ys @ [h])) = Some n" for us ys n
    using that
  proof (induction ys arbitrary: us n)
    case Nil
    then show ?case by (simp add: list_for_loop.simps)
  next
    case (Cons y ys)
    have y: "y \<in> set xs" "y \<noteq> h" using Cons.prems dlist_distinct [OF ring] by auto
    show ?case
    proof (cases "P y")
      case True
      with y hit show ?thesis
        by (subst list_for_loop.simps) (cases "found y", auto)
    next
      case False
      have n: "n = hd (ys @ [h])" using dlist_nxt [of m h us y ys] ring Cons.prems by simp
      have "hd (ys @ [h]) \<in> set (h # xs)" using Cons.prems by (cases ys) auto
      then obtain e where "m n = Some e" using dlist_live [OF ring] n by metis
      then have "rd nxt m n = Some (nxt e)" by (rule rd_Some)
      with Cons.IH [of "us @ [y]" "nxt e"] Cons.prems False y skip n show ?thesis
        by (subst list_for_loop.simps) simp
    qed
  qed
  have "hd (xs @ [h]) \<in> set (h # xs)" by (cases xs) auto
  then obtain e where "m (hd (xs @ [h])) = Some e" using dlist_live [OF ring] by metis
  then have n: "rd nxt m (hd (xs @ [h])) = Some (nxt e)" by (rule rd_Some)
  then show ?thesis using loop [of "[]" xs "nxt e"] dlist_fst [of m h "[]" xs] ring by (simp add: LIST_FOR_def)
qed

section \<open>The contract of a ring\<close>

text \<open>
  What the clients of \<^verbatim>\<open>ez_list\<close> (the hash table, the timer queue, the test suite) rely on: a
  structure that \<open>holds\<close> a sequence of nodes behind a head, an insertion after any position, a
  removal, and independence of disjoint structures.
\<close>

locale node_sequence =
  fixes holds :: "'m \<Rightarrow> addr \<Rightarrow> addr list \<Rightarrow> bool"
    and allocated :: "'m \<Rightarrow> addr \<Rightarrow> bool"
    and ins :: "'m \<Rightarrow> addr \<Rightarrow> addr \<Rightarrow> 'm option"
    and del :: "'m \<Rightarrow> addr \<Rightarrow> 'm option"
    and same :: "addr set \<Rightarrow> 'm \<Rightarrow> 'm \<Rightarrow> bool"
  assumes holds_distinct: "holds m h xs \<Longrightarrow> distinct (h # xs)"
    and same_holds: "holds m h xs \<Longrightarrow> same (set (h # xs)) m m' \<Longrightarrow> holds m' h xs"
    and same_mono: "same B m m' \<Longrightarrow> A \<subseteq> B \<Longrightarrow> same A m m'"
    and same_trans: "same A m m' \<Longrightarrow> same A m' m'' \<Longrightarrow> same A m m''"
    and ins_law: "holds m h (xs @ ys) \<Longrightarrow> allocated m n \<Longrightarrow> n \<notin> set (h # xs @ ys) \<Longrightarrow>
      \<exists>m'. ins m n (last (h # xs)) = Some m' \<and> holds m' h (xs @ n # ys)
        \<and> same (- insert n (set (h # xs @ ys))) m m'"
    and del_law: "holds m h (xs @ n # ys) \<Longrightarrow>
      \<exists>m'. del m n = Some m' \<and> holds m' h (xs @ ys) \<and> same (- set (h # xs @ n # ys)) m m'"
begin

lemma ins_front:
  "holds m h xs \<Longrightarrow> allocated m n \<Longrightarrow> n \<notin> set (h # xs) \<Longrightarrow>
    \<exists>m'. ins m n h = Some m' \<and> holds m' h (n # xs) \<and> same (- insert n (set (h # xs))) m m'"
  using ins_law [of m h "[]" xs n] by simp

lemma ins_keeps_other:
  assumes "holds m h (xs @ ys)" "allocated m n" "n \<notin> set (h # xs @ ys)"
    and other: "holds m k zs" "set (k # zs) \<inter> insert n (set (h # xs @ ys)) = {}"
  shows "\<exists>m'. ins m n (last (h # xs)) = Some m' \<and> holds m' h (xs @ n # ys) \<and> holds m' k zs"
proof -
  obtain m' where "ins m n (last (h # xs)) = Some m'" "holds m' h (xs @ n # ys)"
    and s: "same (- insert n (set (h # xs @ ys))) m m'"
    using ins_law [OF assms(1-3)] by blast
  moreover have "holds m' k zs"
    using other(2) by (intro same_holds [OF other(1)] same_mono [OF s]) blast
  ultimately show ?thesis by blast
qed

lemma del_keeps_other:
  assumes "holds m h (xs @ n # ys)"
    and other: "holds m k zs" "set (k # zs) \<inter> set (h # xs @ n # ys) = {}"
  shows "\<exists>m'. del m n = Some m' \<and> holds m' h (xs @ ys) \<and> holds m' k zs"
proof -
  obtain m' where "del m n = Some m'" "holds m' h (xs @ ys)"
    and s: "same (- set (h # xs @ n # ys)) m m'"
    using del_law [OF assms(1)] by blast
  moreover have "holds m' k zs"
    using other(2) by (intro same_holds [OF other(1)] same_mono [OF s]) blast
  ultimately show ?thesis by blast
qed

lemma ins_del_restores:
  assumes "holds m h (xs @ ys)" "allocated m n" "n \<notin> set (h # xs @ ys)"
  shows "\<exists>m' m''. ins m n (last (h # xs)) = Some m' \<and> del m' n = Some m'' \<and> holds m'' h (xs @ ys)
    \<and> same (- insert n (set (h # xs @ ys))) m m''"
proof -
  obtain m' where i: "ins m n (last (h # xs)) = Some m'" "holds m' h (xs @ n # ys)"
    "same (- insert n (set (h # xs @ ys))) m m'"
    using ins_law [OF assms] by blast
  obtain m'' where d: "del m' n = Some m''" "holds m'' h (xs @ ys)"
    "same (- set (h # xs @ n # ys)) m' m''"
    using del_law [OF i(2)] by blast
  have "same (- insert n (set (h # xs @ ys))) m' m''"
    by (rule same_mono [OF d(3)]) auto
  with i d show ?thesis by (blast intro: same_trans)
qed

end

interpretation ring: node_sequence dlist "\<lambda>m n. m n \<noteq> None \<and> n \<noteq> NULL" list_add list_del agree_on
proof unfold_locales
  show "distinct (h # xs)" if "dlist m h xs" for m h xs
    using dlist_distinct [OF that] by simp
  show "dlist m' h xs" if "dlist m h xs" "agree_on (set (h # xs)) m m'" for m h xs m'
    using that by (rule dlist_frame)
  show "agree_on A m m'" if "agree_on B m m'" "A \<subseteq> B" for A B and m m' :: lmem
    using that by (rule agree_on_mono)
  show "agree_on A m m''" if "agree_on A m m'" "agree_on A m' m''" for A and m m' m'' :: lmem
    using that by (rule agree_on_trans)
  show "\<exists>m'. list_add m n (last (h # xs)) = Some m' \<and> dlist m' h (xs @ n # ys)
      \<and> agree_on (- insert n (set (h # xs @ ys))) m m'"
    if "dlist m h (xs @ ys)" "m n \<noteq> None \<and> n \<noteq> NULL" "n \<notin> set (h # xs @ ys)" for m h xs ys n
    using that list_add_spec [of m h xs ys n] by blast
  show "\<exists>m'. list_del m n = Some m' \<and> dlist m' h (xs @ ys) \<and> agree_on (- set (h # xs @ n # ys)) m m'"
    if "dlist m h (xs @ n # ys)" for m h xs n ys
    using list_del_spec [OF that] by blast
qed

section \<open>Traversal order\<close>

lemma list_foreach_fold:
  assumes ring: "dlist m h xs"
  shows "list_foreach (\<lambda>x m s. Some (m, f x s)) h m s = Some (m, fold f xs s)"
proof -
  define I where "I ys m' s' \<longleftrightarrow> m' = m \<and> (\<exists>zs. xs = zs @ ys \<and> s' = fold f zs s)" for ys m' s'
  have "\<exists>m' s'. list_foreach (\<lambda>x m s. Some (m, f x s)) h m s = Some (m', s') \<and> I [] m' s'"
  proof (rule list_foreach_rule)
    show "rd nxt m h = Some (hd (xs @ [h]))" using dlist_fst [of m h "[]" xs] ring by simp
    show "I xs m s" by (simp add: I_def)
    show "h \<notin> set xs" using dlist_distinct [OF ring] by simp
    show "rd nxt m' x = Some (hd (ys @ [h]))" if "I (x # ys) m' s'" for x ys m' s'
      using that ring by (auto simp: I_def intro: dlist_nxt)
    show "\<exists>m'' s''. Some (m', f x s') = Some (m'', s'') \<and> I ys m'' s''" if "I (x # ys) m' s'"
      for x ys m' s'
      using that by (force simp: I_def intro: exI [of _ "_ @ [x]"])
  qed
  then show ?thesis by (auto simp: I_def)
qed

lemma dlist_rev_link:
  "dlist m h (xs @ x # ys) \<Longrightarrow> rd prv m x = Some (hd (rev xs @ [h]))"
  using dlist_prv [of m h xs x ys] by (cases xs rule: rev_cases) auto

lemma LIST_FOR_R_fold:
  assumes ring: "dlist m h xs"
  shows "LIST_FOR_R (\<lambda>x m s. Some (m, f x s, False)) h m s = Some (m, fold f (rev xs) s)"
proof -
  define I where "I ys m' s' \<longleftrightarrow> m' = m \<and> (\<exists>zs. rev xs = zs @ ys \<and> s' = fold f zs s)" for ys m' s'
  have h: "rd prv m h = Some (hd (rev xs @ [h]))"
    using dlist_lst [of m h xs "[]"] ring by (cases xs rule: rev_cases) auto
  have "\<exists>m' s'. LIST_FOR_R (\<lambda>x m s. Some (m, f x s, False)) h m s = Some (m', s') \<and> I [] m' s'"
    unfolding LIST_FOR_R_def
  proof (rule list_for_rule [where xs = "rev xs" and I = I and Q = "I []"])
    show "rd prv m h = Some (hd (rev xs @ [h]))" by (rule h)
    show "I (rev xs) m s" by (simp add: I_def)
    show "h \<notin> set (rev xs)" using dlist_distinct [OF ring] by simp
    show "rd prv m' x = Some (hd (ys @ [h]))" if I: "I (x # ys) m' s'" for x ys m' s'
    proof -
      from I obtain zs where "rev xs = zs @ x # ys" "m' = m" by (auto simp: I_def)
      then have "xs = rev ys @ x # rev zs" by (metis rev_append rev_rev_ident rev.simps(2) append.assoc append_Cons append_Nil)
      with ring dlist_rev_link [of m h "rev ys" x "rev zs"] \<open>m' = m\<close> show ?thesis by simp
    qed
    show "\<exists>n. rd prv m' h = Some n" if "I [] m' s'" for m' s' using that h by (simp add: I_def)
    show "\<exists>m'' s'' b. Some (m', f x s', False) = Some (m'', s'', b) \<and> (if b then I [] m'' s'' else I ys m'' s'')"
      if "I (x # ys) m' s'" for x ys m' s'
      using that by (force simp: I_def intro: exI [of _ "_ @ [x]"])
    show "I [] m' s'" if "I [] m' s'" for m' s' using that .
  qed
  then show ?thesis by (auto simp: I_def)
qed

lemma list_foreach_delete_all:
  assumes ring: "dlist m h xs"
  shows "\<exists>m'. list_foreach (\<lambda>x m s. do { m \<leftarrow> list_del m x; Some (m, s @ [x]) }) h m [] = Some (m', xs)
    \<and> dlist m' h [] \<and> agree_on (- set (h # xs)) m m'"
proof -
  define I where "I ys m' s' \<longleftrightarrow> dlist m' h ys \<and> xs = s' @ ys \<and> agree_on (- set (h # xs)) m m'"
    for ys m' s'
  let ?f = "\<lambda>x m s. do { m \<leftarrow> list_del m x; Some (m, s @ [x]) }"
  have "\<exists>m' s'. list_foreach ?f h m [] = Some (m', s') \<and> I [] m' s'"
  proof (rule list_foreach_rule)
    show "rd nxt m h = Some (hd (xs @ [h]))" using dlist_fst [of m h "[]" xs] ring by simp
    show "I xs m []" using ring by (simp add: I_def)
    show "h \<notin> set xs" using dlist_distinct [OF ring] by simp
    show "rd nxt m' x = Some (hd (ys @ [h]))" if "I (x # ys) m' s'" for x ys m' s'
      using that dlist_nxt [of m' h "[]" x ys] by (simp add: I_def)
    show "\<exists>m'' s''. ?f x m' s' = Some (m'', s'') \<and> I ys m'' s''" if I: "I (x # ys) m' s'"
      for x ys m' s'
    proof -
      obtain m'' where "list_del m' x = Some m''" "dlist m'' h ys"
        and ag: "agree_on (- set (h # x # ys)) m' m''"
        using list_del_spec [of m' h "[]" x ys] I by (auto simp: I_def)
      moreover have "agree_on (- set (h # xs)) m' m''"
        using I by (intro agree_on_mono [OF ag]) (auto simp: I_def)
      ultimately show ?thesis using I by (auto simp: I_def intro: agree_on_trans)
    qed
  qed
  then show ?thesis by (auto simp: I_def)
qed

section \<open>Properties\<close>

definition demo_mem :: lmem where
  "demo_mem = [1 \<mapsto> \<lparr>nxt = 2, prv = 3\<rparr>, 2 \<mapsto> \<lparr>nxt = 3, prv = 1\<rparr>, 3 \<mapsto> \<lparr>nxt = 1, prv = 2\<rparr>,
     4 \<mapsto> \<lparr>nxt = 0, prv = 0\<rparr>]"

lemma demo_ring: "dlist demo_mem 1 [2, 3]"
  by (simp add: dlist_def link_def rd_def demo_mem_def)

text \<open>
  C22: Adding a live node after any position of a ring never touches memory that is not live, puts
  the node exactly there, and changes no node outside the ring; taking it out again gives back the
  ring as it was.
\<close>

theorem list_add_del_restores:
  assumes "dlist m h (xs @ ys)" and "m n = Some e" and "n \<noteq> NULL" and "n \<notin> set (h # xs @ ys)"
  shows "\<exists>m' m''. list_add m n (last (h # xs)) = Some m' \<and> dlist m' h (xs @ n # ys)
    \<and> list_del m' n = Some m'' \<and> dlist m'' h (xs @ ys)
    \<and> agree_on (- insert n (set (h # xs @ ys))) m m''"
proof -
  obtain m' where m': "list_add m n (last (h # xs)) = Some m'" "dlist m' h (xs @ n # ys)"
    using ring.ins_law [OF assms(1), of n] assms by blast
  with ring.ins_del_restores [OF assms(1), of n] assms show ?thesis by auto
qed

theorem list_add_del_restores_witness:
  "\<exists>m' m''. list_add demo_mem 4 2 = Some m' \<and> dlist m' 1 [2, 4, 3]
    \<and> list_del m' 4 = Some m'' \<and> dlist m'' 1 [2, 3] \<and> agree_on (- {1, 2, 3, 4}) demo_mem m''"
  using list_add_del_restores [of demo_mem 1 "[2]" "[3]" 4 "\<lparr>nxt = 0, prv = 0\<rparr>"] demo_ring
  by (simp add: insert_commute) (simp add: demo_mem_def)

text \<open>
  \<^verbatim>\<open>list_foreach\<close> whose callback takes the visited node out of the ring is safe: it terminates,
  visits every element once in ring order, and leaves an empty ring.
\<close>

theorem list_foreach_drain:
  assumes "dlist m h xs"
  shows "\<exists>m'. list_foreach (\<lambda>x m s. do { m \<leftarrow> list_del m x; Some (m, s @ [x]) }) h m [] = Some (m', xs)
    \<and> dlist m' h [] \<and> list_is_empty m' h = Some True"
  using list_foreach_delete_all [OF assms] list_is_empty_spec by fastforce

theorem list_foreach_drain_witness:
  "\<exists>m'. list_foreach (\<lambda>x m s. do { m \<leftarrow> list_del m x; Some (m, s @ [x]) }) 1 demo_mem [] = Some (m', [2, 3])
    \<and> dlist m' 1 [] \<and> list_is_empty m' 1 = Some True"
  by (rule list_foreach_drain [OF demo_ring])

end
