(* ===== verification/Ez_Rbt_Tree.thy ===== *)
theory Ez_Rbt_Tree
  imports Ez_Prelude "HOL-Library.Multiset"
begin

text \<open>
  The abstract side of \<^verbatim>\<open>src/ez_rbtree.c\<close>: red-black trees of node addresses, a zipper that stands for
  "the tree with the loop variable pointing at this subtree", the rebalancing loops as functions
  on zippers, and the proofs that they keep the in-order sequence and re-establish the red-black
  rules listed in the comment at the head of \<^verbatim>\<open>rbtree_insert\<close>. Theory \<open>Ez_Rbtree\<close> shows that the
  pointer code computes these functions.
\<close>

section \<open>Trees, frames, zippers\<close>

datatype rtree = Lf | Nd rtree addr bool rtree

text \<open>A frame is the step from a subtree up to its parent: the parent, its colour, the sibling.\<close>

datatype frame = FL addr bool rtree | FR rtree addr bool

fun nodes :: "rtree \<Rightarrow> addr list" where
  "nodes Lf = []"
| "nodes (Nd l p c r) = nodes l @ p # nodes r"

fun preorder :: "rtree \<Rightarrow> addr list" where
  "preorder Lf = []"
| "preorder (Nd l p c r) = p # preorder l @ preorder r"

fun is_red :: "rtree \<Rightarrow> bool" where
  "is_red Lf = False"
| "is_red (Nd l p c r) = c"

fun paint :: "bool \<Rightarrow> rtree \<Rightarrow> rtree" where
  "paint c Lf = Lf"
| "paint c (Nd l p c' r) = Nd l p c r"

fun fnode :: "frame \<Rightarrow> addr" where
  "fnode (FL p c r) = p"
| "fnode (FR l p c) = p"

fun fred :: "frame \<Rightarrow> bool" where
  "fred (FL p c r) = c"
| "fred (FR l p c) = c"

fun sib :: "frame \<Rightarrow> rtree" where
  "sib (FL p c r) = r"
| "sib (FR l p c) = l"

fun plug1 :: "frame \<Rightarrow> rtree \<Rightarrow> rtree" where
  "plug1 (FL p c r) t = Nd t p c r"
| "plug1 (FR l p c) t = Nd l p c t"

fun plug :: "frame list \<Rightarrow> rtree \<Rightarrow> rtree" where
  "plug [] t = t"
| "plug (f # fs) t = plug fs (plug1 f t)"

lemma plug_append: "plug (fs @ gs) t = plug gs (plug fs t)"
  by (induction fs arbitrary: t) auto

fun before :: "frame list \<Rightarrow> addr list" where
  "before [] = []"
| "before (FL p c r # fs) = before fs"
| "before (FR l p c # fs) = before fs @ nodes l @ [p]"

fun after :: "frame list \<Rightarrow> addr list" where
  "after [] = []"
| "after (FL p c r # fs) = p # nodes r @ after fs"
| "after (FR l p c # fs) = after fs"

lemma nodes_plug: "nodes (plug fs t) = before fs @ nodes t @ after fs"
proof (induction fs arbitrary: t)
  case (Cons f fs)
  then show ?case by (cases f) auto
qed simp

lemma nodes_paint [simp]: "nodes (paint c t) = nodes t"
  by (cases t) auto

section \<open>Mirror images\<close>

text \<open>The right-hand branches of the C code are the left-hand ones with left and right swapped.\<close>

fun mirror :: "rtree \<Rightarrow> rtree" where
  "mirror Lf = Lf"
| "mirror (Nd l p c r) = Nd (mirror r) p c (mirror l)"

fun fmirror :: "frame \<Rightarrow> frame" where
  "fmirror (FL p c r) = FR (mirror r) p c"
| "fmirror (FR l p c) = FL p c (mirror l)"

lemma mirror_mirror [simp]: "mirror (mirror t) = t"
  by (induction t) auto

lemma fmirror_fmirror [simp]: "fmirror (fmirror f) = f"
  by (cases f) auto

lemma fmirror_comp [simp]: "fmirror \<circ> fmirror = id"
  by (rule ext) simp

lemma mirror_eq_Lf [simp]: "mirror t = Lf \<longleftrightarrow> t = Lf"
  by (cases t) auto

lemma nodes_mirror [simp]: "nodes (mirror t) = rev (nodes t)"
  by (induction t) auto

lemma is_red_mirror [simp]: "is_red (mirror t) = is_red t"
  by (cases t) auto

lemma mirror_paint: "mirror (paint c t) = paint c (mirror t)"
  by (cases t) auto

lemma fred_fmirror [simp]: "fred (fmirror f) = fred f"
  by (cases f) auto

lemma fnode_fmirror [simp]: "fnode (fmirror f) = fnode f"
  by (cases f) auto

lemma mirror_plug: "mirror (plug fs t) = plug (map fmirror fs) (mirror t)"
proof (induction fs arbitrary: t)
  case (Cons f fs)
  then show ?case by (cases f) auto
qed simp

section \<open>The red-black rules\<close>

fun bh :: "rtree \<Rightarrow> nat" where
  "bh Lf = 0"
| "bh (Nd l p c r) = bh l + (if c then 0 else 1)"

fun invc :: "rtree \<Rightarrow> bool" where
  "invc Lf = True"
| "invc (Nd l p c r) = ((c \<longrightarrow> \<not> is_red l \<and> \<not> is_red r) \<and> invc l \<and> invc r)"

fun invh :: "rtree \<Rightarrow> bool" where
  "invh Lf = True"
| "invh (Nd l p c r) = (bh l = bh r \<and> invh l \<and> invh r)"

definition rb_tree :: "rtree \<Rightarrow> bool" where
  "rb_tree t \<longleftrightarrow> invc t \<and> invh t \<and> \<not> is_red t"

fun ctx_ok :: "frame list \<Rightarrow> nat \<Rightarrow> bool" where
  "ctx_ok [] h = True"
| "ctx_ok (f # fs) h =
     (invc (sib f) \<and> invh (sib f) \<and> bh (sib f) = h
      \<and> (fred f \<longrightarrow> \<not> is_red (sib f) \<and> fs \<noteq> [] \<and> \<not> fred (hd fs))
      \<and> ctx_ok fs (h + (if fred f then 0 else 1)))"

lemma rb_plug_iff:
  "rb_tree (plug fs t) \<longleftrightarrow>
     ctx_ok fs (bh t) \<and> invc t \<and> invh t \<and> (is_red t \<longrightarrow> fs \<noteq> [] \<and> \<not> fred (hd fs))"
proof (induction fs arbitrary: t)
  case Nil
  show ?case by (auto simp: rb_tree_def)
next
  case (Cons f fs)
  show ?case
  proof (cases f)
    case (FL p c r)
    then show ?thesis by (cases c) (auto simp: Cons.IH)
  next
    case (FR l p c)
    then show ?thesis by (cases c) (auto simp: Cons.IH)
  qed
qed

lemma bh_mirror [simp]: "invh t \<Longrightarrow> bh (mirror t) = bh t"
  by (induction t) auto

lemma invc_mirror [simp]: "invc (mirror t) = invc t"
  by (induction t) auto

lemma invh_mirror [simp]: "invh (mirror t) = invh t"
proof -
  have "invh (mirror t)" if "invh t" for t using that by (induction t) auto
  from this [of t] this [of "mirror t"] show ?thesis by auto
qed

lemma rb_mirror [simp]: "rb_tree (mirror t) = rb_tree t"
  by (simp add: rb_tree_def)

lemma ctx_ok_mirror [simp]: "ctx_ok (map fmirror fs) h = ctx_ok fs h"
proof (induction fs arbitrary: h)
  case (Cons f fs)
  then show ?case by (cases f; cases fs) auto
qed simp

lemma bh_paint_red [simp]: "is_red t \<Longrightarrow> bh (paint False t) = Suc (bh t)"
  by (cases t) auto

lemma paint_black [simp]: "\<not> is_red t \<Longrightarrow> paint False t = t"
  by (cases t) auto

lemma invh_paint [simp]: "invh (paint c t) = invh t"
  by (cases t) auto

lemma is_red_paint_False [simp]: "\<not> is_red (paint False t)"
  by (cases t) auto

lemma invc_paint_False [intro]: "invc t \<Longrightarrow> invc (paint False t)"
  by (cases t) auto

lemma paint_eq_Lf [simp]: "paint c t = Lf \<longleftrightarrow> t = Lf"
  by (cases t) auto

section \<open>Insertion\<close>

text \<open>
  One turn of the loop of \<^verbatim>\<open>rbtree_insert\<close> for a red parent \<open>f\<close> that hangs to the left of the grandparent
  \<open>gp\<close> with uncle \<open>u\<close>: a red uncle moves the conflict two levels up, a black one is repaired by one or
  two rotations. The result is the new zipper.
\<close>

fun ins_step_l :: "frame \<Rightarrow> addr \<Rightarrow> rtree \<Rightarrow> frame list \<Rightarrow> rtree \<Rightarrow> frame list \<times> rtree" where
  "ins_step_l f gp u fs t =
     (if is_red u then (fs, Nd (paint False (plug1 f t)) gp True (paint False u))
      else (case f of
          FL p c s \<Rightarrow> (FL p False (Nd s gp True u) # fs, t)
        | FR s p c \<Rightarrow>
            (case t of
               Nd a x tc b \<Rightarrow> (FL x False (Nd b gp True u) # fs, Nd s p c a)
             | Lf \<Rightarrow> ([], plug (FR s p c # FL gp False u # fs) t))))"

fun ins_step :: "frame \<Rightarrow> frame \<Rightarrow> frame list \<Rightarrow> rtree \<Rightarrow> frame list \<times> rtree" where
  "ins_step f (FL gp gc u) fs t = ins_step_l f gp u fs t"
| "ins_step f (FR u gp gc) fs t =
     (let (fs', t') = ins_step_l (fmirror f) gp (mirror u) (map fmirror fs) (mirror t)
      in (map fmirror fs', mirror t'))"

lemma ins_step_l_length: "ins_step_l f gp u fs t = (fs', t') \<Longrightarrow> length fs' < length fs + 2"
  by (auto split: if_splits frame.splits rtree.splits)

lemma ins_step_length: "ins_step f g fs t = (fs', t') \<Longrightarrow> length fs' < length fs + 2"
  by (cases g) (auto simp del: ins_step_l.simps split: prod.splits dest!: ins_step_l_length)

function ins_fix :: "frame list \<Rightarrow> rtree \<Rightarrow> rtree" where
  "ins_fix [] t = t"
| "ins_fix [f] t = plug [f] t"
| "ins_fix (f # g # fs) t =
     (if fred f then (case ins_step f g fs t of (fs', t') \<Rightarrow> ins_fix fs' t')
      else plug (f # g # fs) t)"
  by pat_completeness auto
termination
proof (relation "measure (\<lambda>(fs, t). length fs)")
  show "((fs', t'), f # g # fs, t) \<in> measure (\<lambda>(fs, t). length fs)"
    if "fred f" "(fs', t') = ins_step f g fs t" for f g fs t fs' t'
    using ins_step_length [OF that(2) [symmetric]] by simp
qed simp

fun ins_path :: "(addr \<Rightarrow> bool) \<Rightarrow> rtree \<Rightarrow> frame list \<Rightarrow> frame list" where
  "ins_path lt Lf fs = fs"
| "ins_path lt (Nd l p c r) fs =
     (if lt p then ins_path lt l (FL p c r # fs) else ins_path lt r (FR l p c # fs))"

definition tree_insert :: "(addr \<Rightarrow> bool) \<Rightarrow> addr \<Rightarrow> rtree \<Rightarrow> rtree" where
  "tree_insert lt x t = paint False (ins_fix (ins_path lt t []) (Nd Lf x True Lf))"

text \<open>The in-order sequence is never changed by a turn of the loop.\<close>

lemma nodes_ins_step_l:
  "ins_step_l f gp u fs t = (fs', t') \<Longrightarrow> nodes (plug fs' t') = nodes (plug (f # FL gp gc u # fs) t)"
  by (auto simp: nodes_plug split: if_splits frame.splits rtree.splits)

lemma nodes_ins_step:
  assumes "ins_step f g fs t = (fs', t')"
  shows "nodes (plug fs' t') = nodes (plug (f # g # fs) t)"
proof (cases g)
  case (FL gp gc u)
  with assms nodes_ins_step_l show ?thesis by (simp del: ins_step_l.simps)
next
  case (FR u gp gc)
  obtain gs s where step: "ins_step_l (fmirror f) gp (mirror u) (map fmirror fs) (mirror t) = (gs, s)"
    by (meson surj_pair)
  with FR assms have eq: "fs' = map fmirror gs" "t' = mirror s" by (auto simp del: ins_step_l.simps)
  have "nodes (plug fs' t') = rev (nodes (plug gs s))"
    by (simp add: eq mirror_plug flip: nodes_mirror)
  also have "\<dots> = rev (nodes (plug (fmirror f # FL gp gc (mirror u) # map fmirror fs) (mirror t)))"
    by (simp only: nodes_ins_step_l [OF step, of gc])
  also have "\<dots> = nodes (plug (f # g # fs) t)"
    by (simp add: FR mirror_plug flip: nodes_mirror del: plug.simps)
  finally show ?thesis .
qed

lemma nodes_ins_fix: "nodes (ins_fix fs t) = nodes (plug fs t)"
  by (induction fs t rule: ins_fix.induct) (auto simp: nodes_ins_step split: prod.splits)

text \<open>
  Where a new node ends up: after all nodes it is not smaller than. The hypothesis says that the
  nodes that are "greater" form an upper part of the in-order sequence.
\<close>

lemma nodes_ins_path:
  assumes "sorted_wrt (\<lambda>a b. lt a \<longrightarrow> lt b) (nodes t)"
  shows "nodes (plug (ins_path lt t fs) (Nd Lf x c Lf)) =
    before fs @ takeWhile (\<lambda>p. \<not> lt p) (nodes t) @ x # dropWhile (\<lambda>p. \<not> lt p) (nodes t) @ after fs"
  using assms
proof (induction t arbitrary: fs)
  case Lf
  show ?case by (simp add: nodes_plug)
next
  case (Nd l p c' r)
  have srt: "sorted_wrt (\<lambda>a b. lt a \<longrightarrow> lt b) (nodes l)" "sorted_wrt (\<lambda>a b. lt a \<longrightarrow> lt b) (nodes r)"
    and left: "\<And>q. q \<in> set (nodes l) \<Longrightarrow> lt q \<Longrightarrow> lt p"
    using Nd.prems unfolding nodes.simps sorted_wrt_append sorted_wrt.simps list.set(2)
    by blast+
  show ?case
  proof (cases "lt p")
    case True
    from Nd.IH(1) [OF srt(1), of "FL p c' r # fs"] True show ?thesis
      by (simp add: takeWhile_tail dropWhile_append3)
  next
    case False
    then have "\<And>q. q \<in> set (nodes l) \<Longrightarrow> \<not> lt q" using left by blast
    with Nd.IH(2) [OF srt(2), of "FR l p c' # fs"] False show ?thesis
      by (simp add: takeWhile_append2 dropWhile_append2)
  qed
qed

lemma nodes_tree_insert:
  assumes "sorted_wrt (\<lambda>a b. lt a \<longrightarrow> lt b) (nodes t)"
  shows "nodes (tree_insert lt x t) =
    takeWhile (\<lambda>p. \<not> lt p) (nodes t) @ x # dropWhile (\<lambda>p. \<not> lt p) (nodes t)"
  using nodes_ins_path [OF assms, of "[]" x True] by (simp add: tree_insert_def nodes_ins_fix)

lemma mset_ins_path: "mset (nodes (plug (ins_path lt t fs) s)) = mset (nodes (plug fs t)) + mset (nodes s)"
  by (induction t arbitrary: fs) (auto simp: nodes_plug)

lemma set_nodes_tree_insert: "set (nodes (tree_insert lt x t)) = insert x (set (nodes t))"
proof -
  have "mset (nodes (tree_insert lt x t)) = add_mset x (mset (nodes t))"
    using mset_ins_path [of lt t "[]" "Nd Lf x True Lf"] by (simp add: tree_insert_def nodes_ins_fix)
  then show ?thesis by (metis set_mset_add_mset_insert set_mset_mset)
qed

text \<open>The zippers the loop runs on: everything is a red-black tree, but for a red parent of a red focus.\<close>

definition ins_ok :: "frame list \<Rightarrow> rtree \<Rightarrow> bool" where
  "ins_ok fs t \<longleftrightarrow> is_red t \<and> invc t \<and> invh t \<and> ctx_ok fs (bh t)"

lemma ins_ok_mirror: "ins_ok (map fmirror fs) (mirror t) = ins_ok fs t"
  by (auto simp: ins_ok_def)

lemma ins_ok_step_l:
  assumes "ins_ok (f # FL gp gc u # fs) t" "fred f" "ins_step_l f gp u fs t = (fs', t')"
  shows "ins_ok fs' t'"
  using assms by (cases f; cases t; cases u) (auto simp: ins_ok_def split: if_splits)

lemma ins_ok_step:
  assumes "ins_ok (f # g # fs) t" "fred f" "ins_step f g fs t = (fs', t')"
  shows "ins_ok fs' t'"
proof (cases g)
  case (FL gp gc u)
  with assms ins_ok_step_l show ?thesis by (simp del: ins_step_l.simps)
next
  case (FR u gp gc)
  obtain gs s where step: "ins_step_l (fmirror f) gp (mirror u) (map fmirror fs) (mirror t) = (gs, s)"
    by (meson surj_pair)
  with FR assms have eq: "fs' = map fmirror gs" "t' = mirror s" by (auto simp del: ins_step_l.simps)
  have "ins_ok (fmirror f # FL gp gc (mirror u) # map fmirror fs) (mirror t)"
    using assms(1) FR ins_ok_mirror [of "f # g # fs" t] by simp
  then have "ins_ok gs s" using ins_ok_step_l [OF _ _ step] assms(2) by simp
  then show ?thesis by (simp add: eq ins_ok_mirror del: list.map_comp)
qed

lemma rb_ins_fix: "ins_ok fs t \<Longrightarrow> rb_tree (paint False (ins_fix fs t))"
proof (induction fs t rule: ins_fix.induct)
  case (1 t)
  then show ?case by (auto simp: ins_ok_def rb_tree_def)
next
  case (2 f t)
  then have "rb_tree (plug [f] t)" by (subst rb_plug_iff) (auto simp: ins_ok_def)
  then show ?case by (simp add: rb_tree_def)
next
  case (3 f g fs t)
  show ?case
  proof (cases "fred f")
    case True
    obtain fs' t' where "ins_step f g fs t = (fs', t')" by (meson surj_pair)
    with True 3 ins_ok_step show ?thesis by (simp del: ins_step.simps)
  next
    case False
    with 3 have "rb_tree (plug (f # g # fs) t)" by (subst rb_plug_iff) (auto simp: ins_ok_def)
    with False show ?thesis by (simp add: rb_tree_def)
  qed
qed

lemma ctx_ok_ins_path: "ctx_ok fs (bh t) \<Longrightarrow> invc t \<Longrightarrow> invh t \<Longrightarrow> (is_red t \<Longrightarrow> fs \<noteq> [] \<and> \<not> fred (hd fs))
    \<Longrightarrow> ctx_ok (ins_path lt t fs) 0"
  by (induction t arbitrary: fs) (auto split: if_splits)

theorem rb_tree_insert: "rb_tree t \<Longrightarrow> rb_tree (tree_insert lt x t)"
  unfolding tree_insert_def
  by (rule rb_ins_fix) (auto simp: ins_ok_def rb_tree_def intro: ctx_ok_ins_path)

section \<open>Deletion\<close>

text \<open>
  One turn of the fixup loop of \<^verbatim>\<open>rbtree_delete\<close>, for a subtree \<open>t\<close> one black node short to the left of
  \<open>p\<close> (colour \<open>c\<close>) with sibling \<open>w\<close>. \<open>Inl\<close> is the zipper of the next turn, \<open>Inr\<close> the whole tree when the
  turn ends with \<^verbatim>\<open>temp = *root\<close>. \<open>del_black_l\<close> is the part after a red sibling was rotated away.
\<close>

fun del_black_l ::
    "addr \<Rightarrow> bool \<Rightarrow> rtree \<Rightarrow> frame list \<Rightarrow> rtree \<Rightarrow> (frame list \<times> rtree) + rtree" where
  "del_black_l p c Lf fs t = Inr (plug fs (Nd t p c Lf))"
| "del_black_l p c (Nd xl x xc xr) fs t =
     (if \<not> is_red xl \<and> \<not> is_red xr then Inl (fs, Nd t p c (Nd xl x True xr))
      else if is_red xr then Inr (plug fs (Nd (Nd t p False xl) x c (paint False xr)))
      else (case xl of
          Nd a y yc b \<Rightarrow> Inr (plug fs (Nd (Nd t p False a) y c (Nd b x False xr)))
        | Lf \<Rightarrow> Inr (plug fs (Nd t p c (Nd xl x xc xr)))))"

fun del_step_l ::
    "addr \<Rightarrow> bool \<Rightarrow> rtree \<Rightarrow> frame list \<Rightarrow> rtree \<Rightarrow> (frame list \<times> rtree) + rtree" where
  "del_step_l p c (Nd a x True b) fs t = del_black_l p True a (FL x False b # fs) t"
| "del_step_l p c w fs t = del_black_l p c w fs t"

fun del_step :: "frame \<Rightarrow> frame list \<Rightarrow> rtree \<Rightarrow> (frame list \<times> rtree) + rtree" where
  "del_step (FL p c w) fs t = del_step_l p c w fs t"
| "del_step (FR w p c) fs t =
     (case del_step_l p c (mirror w) (map fmirror fs) (mirror t) of
        Inl (fs', t') \<Rightarrow> Inl (map fmirror fs', mirror t')
      | Inr T \<Rightarrow> Inr (mirror T))"

lemma del_black_l_length:
  "del_black_l p c w fs t = Inl (fs', t') \<Longrightarrow> length fs' = length fs \<and> is_red t' = c"
  by (cases w) (auto split: if_splits rtree.splits)

lemma del_step_l_black: "\<not> is_red w \<Longrightarrow> del_step_l p c w fs t = del_black_l p c w fs t"
  by (cases w) auto

lemma is_red_Nd: "is_red w \<longleftrightarrow> (\<exists>a x b. w = Nd a x True b)"
  by (cases w) auto

lemma del_step_l_length:
  "del_step_l p c w fs t = Inl (fs', t') \<Longrightarrow>
     length fs' = length fs \<or> length fs' = Suc (length fs) \<and> is_red t'"
  by (cases "is_red w") (auto simp: del_step_l_black is_red_Nd dest!: del_black_l_length)

lemma del_step_length:
  "del_step f fs t = Inl (fs', t') \<Longrightarrow>
     length fs' = length fs \<or> length fs' = Suc (length fs) \<and> is_red t'"
  by (cases f) (auto dest!: del_step_l_length split: sum.splits)

function del_fix :: "frame list \<Rightarrow> rtree \<Rightarrow> rtree" where
  "del_fix [] t = paint False t"
| "del_fix (f # fs) t =
     (if is_red t then plug (f # fs) (paint False t)
      else (case del_step f fs t of
          Inl (fs', t') \<Rightarrow> del_fix fs' t'
        | Inr T \<Rightarrow> paint False T))"
  by pat_completeness auto
termination
proof (relation "measures [\<lambda>(fs, t). length fs, \<lambda>(fs, t). if is_red t then 0 else 1]")
  show "((fs', t'), f # fs, t) \<in> measures [\<lambda>(fs, t). length fs, \<lambda>(fs, t). if is_red t then 0 else 1]"
    if "\<not> is_red t" "del_step f fs t = Inl z" "(fs', t') = z" for f fs t z fs' t'
    using that del_step_length [of f fs t fs' t'] by auto
qed simp

fun min_path :: "rtree \<Rightarrow> frame list \<Rightarrow> frame list \<times> rtree" where
  "min_path Lf fs = (fs, Lf)"
| "min_path (Nd Lf p c r) fs = (fs, Nd Lf p c r)"
| "min_path (Nd l p c r) fs = min_path l (FL p c r # fs)"

text \<open>
  Deleting the node of a zipper: a node with at most one child is replaced by it, any other node
  by its in-order successor \<open>y\<close>, which takes over its place and its colour.
\<close>

fun tree_delete :: "frame list \<Rightarrow> rtree \<Rightarrow> rtree" where
  "tree_delete fs Lf = plug fs Lf"
| "tree_delete fs (Nd Lf x c r) =
     (if fs = [] then paint False r else if c then plug fs r else del_fix fs r)"
| "tree_delete fs (Nd l x c Lf) =
     (if fs = [] then paint False l else if c then plug fs l else del_fix fs l)"
| "tree_delete fs (Nd l x c r) =
     (case min_path r [] of
        (gs, Nd yl y yc yr) \<Rightarrow>
          (if yc then plug (gs @ FR l y c # fs) yr else del_fix (gs @ FR l y c # fs) yr)
      | (gs, Lf) \<Rightarrow> plug fs (Nd l x c r))"

text \<open>The in-order sequence.\<close>

fun zip_nodes :: "(frame list \<times> rtree) + rtree \<Rightarrow> addr list" where
  "zip_nodes (Inl (fs, t)) = nodes (plug fs t)"
| "zip_nodes (Inr T) = nodes T"

lemma zip_nodes_del_black_l: "zip_nodes (del_black_l p c w fs t) = nodes (plug (FL p c w # fs) t)"
  by (cases w) (auto simp: nodes_plug split: rtree.splits)

lemma zip_nodes_del_step_l: "zip_nodes (del_step_l p c w fs t) = nodes (plug (FL p c w # fs) t)"
  by (cases "is_red w") (auto simp: zip_nodes_del_black_l nodes_plug del_step_l_black is_red_Nd)

lemma zip_nodes_mirror:
  "zip_nodes (case z of Inl (fs, t) \<Rightarrow> Inl (map fmirror fs, mirror t) | Inr T \<Rightarrow> Inr (mirror T))
     = rev (zip_nodes z)"
  by (cases z) (auto simp: mirror_plug simp flip: nodes_mirror split: prod.splits)

lemma zip_nodes_del_step: "zip_nodes (del_step f fs t) = nodes (plug (f # fs) t)"
proof (cases f)
  case (FL p c w)
  then show ?thesis by (simp add: zip_nodes_del_step_l)
next
  case (FR w p c)
  have "zip_nodes (del_step f fs t) =
      rev (nodes (plug (fmirror f # map fmirror fs) (mirror t)))"
    by (simp add: FR zip_nodes_mirror zip_nodes_del_step_l)
  then show ?thesis by (simp add: mirror_plug flip: nodes_mirror del: plug.simps)
qed

lemma nodes_del_fix: "nodes (del_fix fs t) = nodes (plug fs t)"
proof (induction fs t rule: del_fix.induct)
  case (2 f fs t)
  have *: "nodes (plug (f # fs) (paint False t)) = nodes (plug (f # fs) t)"
    by (simp add: nodes_plug del: plug.simps)
  from 2 * zip_nodes_del_step [of f fs t] show ?case
    by (auto split: sum.splits prod.splits simp del: plug.simps del_step.simps)
qed simp

lemma nodes_min_path: "min_path t fs = (gs, s) \<Longrightarrow> nodes (plug gs s) = nodes (plug fs t)"
  by (induction t fs rule: min_path.induct) auto

lemma min_path_left:
  "min_path t fs = (gs, Nd yl y yc yr) \<Longrightarrow> before fs = [] \<Longrightarrow> yl = Lf \<and> before gs = []"
  by (induction t fs rule: min_path.induct) auto

lemma min_path_exists: "t \<noteq> Lf \<Longrightarrow> \<exists>gs y yc yr. min_path t fs = (gs, Nd Lf y yc yr)"
  by (induction t fs rule: min_path.induct) auto

lemma before_append: "before (fs @ gs) = before gs @ before fs"
  by (induction fs rule: before.induct) auto

lemma after_append: "after (fs @ gs) = after fs @ after gs"
  by (induction fs rule: after.induct) auto

theorem nodes_tree_delete:
  "nodes (tree_delete fs (Nd l x c r)) = before fs @ nodes l @ nodes r @ after fs"
proof (cases "l = Lf \<or> r = Lf")
  case True
  then show ?thesis by (cases l; cases r) (auto simp: nodes_plug nodes_del_fix)
next
  case False
  obtain gs y yc yr where path: "min_path r [] = (gs, Nd Lf y yc yr)"
    using min_path_exists False by blast
  have "before gs = []" "nodes r = y # nodes yr @ after gs"
    using min_path_left [OF path] nodes_min_path [OF path] by (auto simp: nodes_plug)
  then show ?thesis using False path
    by (cases l; cases r) (auto simp: nodes_plug nodes_del_fix before_append after_append)
qed

text \<open>
  The red-black rules: the loop runs on zippers whose focus is one black node short and would be a
  legal subtree once painted black.
\<close>

definition del_ok :: "frame list \<Rightarrow> rtree \<Rightarrow> bool" where
  "del_ok fs t \<longleftrightarrow> invc (paint False t) \<and> invh t \<and> ctx_ok fs (Suc (bh t))"

lemma del_ok_mirror: "del_ok (map fmirror fs) (mirror t) = del_ok fs t"
  by (auto simp: del_ok_def simp flip: mirror_paint)

fun zip_ok :: "(frame list \<times> rtree) + rtree \<Rightarrow> bool" where
  "zip_ok (Inl (fs, t)) = del_ok fs t"
| "zip_ok (Inr T) = rb_tree T"

lemma zip_ok_mirror:
  "zip_ok (case z of Inl (fs, t) \<Rightarrow> Inl (map fmirror fs, mirror t) | Inr T \<Rightarrow> Inr (mirror T))
     = zip_ok z"
  by (cases z) (auto simp: del_ok_mirror split: prod.splits)

lemma zip_ok_del_black_l:
  assumes "del_ok (FL p c w # fs) t" "\<not> is_red t" "\<not> is_red w"
  shows "zip_ok (del_black_l p c w fs t)"
  using assms
  by (cases w) (auto simp: del_ok_def rb_plug_iff invc_paint_False split: rtree.splits if_splits)

lemma zip_ok_del_step_l:
  assumes "del_ok (FL p c w # fs) t" "\<not> is_red t"
  shows "zip_ok (del_step_l p c w fs t)"
proof (cases "is_red w")
  case True
  then obtain a x b where w: "w = Nd a x True b" by (auto simp: is_red_Nd)
  with assms have "del_ok (FL p True a # FL x False b # fs) t" "\<not> is_red a"
    by (auto simp: del_ok_def)
  with assms w show ?thesis by (simp add: zip_ok_del_black_l)
qed (use assms in \<open>simp add: zip_ok_del_black_l del_step_l_black\<close>)

lemma zip_ok_del_step:
  assumes "del_ok (f # fs) t" "\<not> is_red t"
  shows "zip_ok (del_step f fs t)"
proof (cases f)
  case (FL p c w)
  with assms show ?thesis by (simp add: zip_ok_del_step_l)
next
  case (FR w p c)
  have "del_ok (FL p c (mirror w) # map fmirror fs) (mirror t)"
    using assms(1) del_ok_mirror [of "f # fs" t] FR by simp
  then show ?thesis using assms(2) FR by (simp add: zip_ok_mirror zip_ok_del_step_l)
qed

lemma rb_del_fix: "del_ok fs t \<Longrightarrow> rb_tree (del_fix fs t)"
proof (induction fs t rule: del_fix.induct)
  case (1 t)
  then show ?case by (simp add: del_ok_def rb_tree_def)
next
  case (2 f fs t)
  show ?case
  proof (cases "is_red t")
    case True
    with 2(2) show ?thesis by (simp add: del_ok_def rb_plug_iff del: plug.simps)
  next
    case False
    show ?thesis
    proof (cases "del_step f fs t")
      case (Inl z)
      with 2 False zip_ok_del_step [OF 2(2) False] show ?thesis
        by (cases z) (auto simp del: del_step.simps)
    next
      case (Inr T)
      with False zip_ok_del_step [OF 2(2) False] show ?thesis
        by (auto simp: rb_tree_def simp del: del_step.simps)
    qed
  qed
qed

lemma rb_min_path:
  "min_path t fs = (gs, s) \<Longrightarrow> rb_tree (plug (fs @ hs) t) = rb_tree (plug (gs @ hs) s)"
  by (induction t fs rule: min_path.induct) auto

lemma rb_child: "rb_tree (plug fs (Nd l x c r)) \<Longrightarrow> rb_tree (paint False l) \<and> rb_tree (paint False r)"
  unfolding rb_plug_iff by (auto simp: rb_tree_def)

lemma rb_splice:
  assumes "rb_tree (plug fs (Nd l x c r))" "l = Lf \<and> t = r \<or> r = Lf \<and> t = l"
  shows "c \<Longrightarrow> rb_tree (plug fs t)" and "\<not> c \<Longrightarrow> del_ok fs t"
  using assms by (auto simp: rb_plug_iff del_ok_def)

lemma ctx_ok_swap: "ctx_ok (gs @ FR l x c # fs) h = ctx_ok (gs @ FR l y c # fs) h"
  by (induction gs arbitrary: h) (auto simp: hd_append)

lemma rb_swap: "rb_tree (plug (gs @ FR l x c # fs) t) = rb_tree (plug (gs @ FR l y c # fs) t)"
  using ctx_ok_swap [of gs l x c fs _ y] by (auto simp: rb_plug_iff hd_append)

theorem rb_tree_delete:
  assumes "rb_tree (plug fs (Nd l x c r))"
  shows "rb_tree (tree_delete fs (Nd l x c r))"
proof (cases "l = Lf \<or> r = Lf")
  case True
  with assms rb_splice [OF assms] rb_child [OF assms] show ?thesis
    by (cases l; cases r) (auto simp: rb_del_fix)
next
  case False
  obtain gs y yc yr where path: "min_path r [] = (gs, Nd Lf y yc yr)"
    using min_path_exists False by blast
  have "rb_tree (plug (gs @ FR l y c # fs) (Nd Lf y yc yr))"
    using assms rb_min_path [OF path, of "FR l x c # fs"] rb_swap [of gs l x c fs _ y] by simp
  from rb_splice [OF this] have "yc \<Longrightarrow> rb_tree (plug (gs @ FR l y c # fs) yr)"
    and "\<not> yc \<Longrightarrow> del_ok (gs @ FR l y c # fs) yr" by blast+
  then show ?thesis using False path rb_del_fix by (cases l; cases r) auto
qed

section \<open>Search, height\<close>

fun tree_find :: "(addr \<Rightarrow> int) \<Rightarrow> rtree \<Rightarrow> addr option" where
  "tree_find cmp Lf = None"
| "tree_find cmp (Nd l p c r) =
     (if cmp p = 0 then Some p else if cmp p < 0 then tree_find cmp r else tree_find cmp l)"

lemma tree_find_Some: "tree_find cmp t = Some p \<Longrightarrow> p \<in> set (nodes t) \<and> cmp p = 0"
  by (induction t) (auto split: if_splits)

text \<open>The comparison with the searched key only grows along the in-order sequence.\<close>

definition search_order :: "(addr \<Rightarrow> int) \<Rightarrow> addr list \<Rightarrow> bool" where
  "search_order cmp xs \<longleftrightarrow> sorted_wrt (\<lambda>a b. sgn (cmp a) \<le> sgn (cmp b)) xs"

lemma tree_find_None:
  assumes "search_order cmp (nodes t)" "tree_find cmp t = None" "p \<in> set (nodes t)"
  shows "cmp p \<noteq> 0"
  using assms
proof (induction t)
  case (Nd l q c r)
  have l: "search_order cmp (nodes l)" "\<And>a. a \<in> set (nodes l) \<Longrightarrow> sgn (cmp a) \<le> sgn (cmp q)"
    and r: "search_order cmp (nodes r)" "\<And>a. a \<in> set (nodes r) \<Longrightarrow> sgn (cmp q) \<le> sgn (cmp a)"
    using Nd.prems(1) by (auto simp: search_order_def sorted_wrt_append)
  show ?case
  proof (cases "p \<in> set (nodes l)")
    case True
    with Nd l r show ?thesis by (cases "cmp q < 0") (fastforce simp: sgn_if split: if_splits)+
  next
    case False
    with Nd l r show ?thesis by (cases "cmp q < 0") (fastforce simp: sgn_if split: if_splits)+
  qed
qed simp

fun height :: "rtree \<Rightarrow> nat" where
  "height Lf = 0"
| "height (Nd l p c r) = Suc (max (height l) (height r))"

lemma height_bh: "invc t \<Longrightarrow> invh t \<Longrightarrow> height t \<le> 2 * bh t + (if is_red t then 1 else 0)"
  by (induction t) (auto split: if_splits)

lemma bh_size: "invc t \<Longrightarrow> invh t \<Longrightarrow> 2 ^ bh t \<le> length (nodes t) + 1"
proof (induction t)
  case (Nd l p c r)
  then show ?case by (cases c) (auto simp: max_def)
qed simp

lemma rb_height:
  assumes "rb_tree t"
  shows "2 ^ (height t div 2) \<le> length (nodes t) + 1"
proof -
  have "height t div 2 \<le> bh t" using height_bh assms by (fastforce simp: rb_tree_def)
  then have "(2::nat) ^ (height t div 2) \<le> 2 ^ bh t" by (rule power_increasing) simp
  also have "\<dots> \<le> length (nodes t) + 1" using bh_size assms by (simp add: rb_tree_def)
  finally show ?thesis .
qed

end
