(* ===== verification/Ez_Rbtree.thy ===== *)
theory Ez_Rbtree
  imports Ez_Rbt_Tree
begin

text \<open>
  The pointer code of \<^verbatim>\<open>src/ez_rbtree.c\<close>: nodes with left, right and parent pointers, a sentinel node
  for the leaves, the two rotations, insertion, deletion, search, minimum and traversal, each
  statement a load or a store. \<open>rep\<close> relates a memory to an abstract tree of \<open>Ez_Rbt_Tree\<close>; the
  refinement lemmas show that every operation is defined (no wild pointer is followed), terminates,
  and computes the function on trees.
\<close>

section \<open>The data\<close>

record rbnode =
  left :: addr
  right :: addr
  parent :: addr
  color :: u8

type_synonym rbmem = "addr \<rightharpoonup> rbnode"

record rbtree =
  root :: addr
  sentinel :: addr
  node_cmp_proc :: "addr \<Rightarrow> addr \<Rightarrow> int"

definition rbt_red :: "rbmem \<Rightarrow> addr \<Rightarrow> rbmem option" where
  "rbt_red m node = wr m node (\<lambda>n. n\<lparr>color := 1\<rparr>)"

definition rbt_black :: "rbmem \<Rightarrow> addr \<Rightarrow> rbmem option" where
  "rbt_black m node = wr m node (\<lambda>n. n\<lparr>color := 0\<rparr>)"

definition rbt_is_red :: "rbmem \<Rightarrow> addr \<Rightarrow> bool option" where
  "rbt_is_red m node = rd (\<lambda>n. color n \<noteq> 0) m node"

definition rbt_is_black :: "rbmem \<Rightarrow> addr \<Rightarrow> bool option" where
  "rbt_is_black m node = map_option Not (rbt_is_red m node)"

definition rbt_copy_color :: "rbmem \<Rightarrow> addr \<Rightarrow> addr \<Rightarrow> rbmem option" where
  "rbt_copy_color m n1 n2 = do { c \<leftarrow> rd color m n2; wr m n1 (\<lambda>n. n\<lparr>color := c\<rparr>) }"

text \<open>\<^verbatim>\<open>node->parent->parent\<close> and its kin.\<close>

definition rd2 :: "('n \<Rightarrow> addr) \<Rightarrow> ('n \<Rightarrow> 'v) \<Rightarrow> (addr \<rightharpoonup> 'n) \<Rightarrow> addr \<Rightarrow> 'v option" where
  "rd2 f g m p = do { q \<leftarrow> rd f m p; rd g m q }"

section \<open>Initialisation, search, minimum, traversal\<close>

definition rbtree_init :: "rbmem \<Rightarrow> addr \<Rightarrow> (addr \<Rightarrow> addr \<Rightarrow> int) \<Rightarrow> (rbmem \<times> rbtree) option" where
  "rbtree_init m sentinel_node cmp = do {
     m \<leftarrow> rbt_black m sentinel_node;
     m \<leftarrow> wr m sentinel_node (\<lambda>n. n\<lparr>parent := NULL\<rparr>);
     m \<leftarrow> wr m sentinel_node (\<lambda>n. n\<lparr>left := NULL\<rparr>);
     m \<leftarrow> wr m sentinel_node (\<lambda>n. n\<lparr>right := NULL\<rparr>);
     Some (m, \<lparr>root = sentinel_node, sentinel = sentinel_node, node_cmp_proc = cmp\<rparr>)
   }"

partial_function (option) rbtree_min :: "rbmem \<Rightarrow> addr \<Rightarrow> addr \<Rightarrow> addr option" where
  "rbtree_min m node s =
     (if node = NULL then Some node
      else do {
        l \<leftarrow> rd left m node;
        (if l \<noteq> s then rbtree_min m l s else Some node)
      })"

definition rbtree_min_node :: "rbmem \<Rightarrow> rbtree \<Rightarrow> addr option" where
  "rbtree_min_node m tree = rbtree_min m (root tree) (sentinel tree)"

partial_function (option) rbtree_find_loop :: "rbmem \<Rightarrow> addr \<Rightarrow> (addr \<Rightarrow> int) \<Rightarrow> addr \<Rightarrow> addr option" where
  "rbtree_find_loop m s find_proc node =
     (let r = find_proc node in
      if r = 0 then Some node
      else do {
        node \<leftarrow> (if r < 0 then rd right m node else rd left m node);
        (if node \<noteq> s then rbtree_find_loop m s find_proc node else Some NULL)
      })"

definition rbtree_find_node :: "rbmem \<Rightarrow> rbtree \<Rightarrow> (addr \<Rightarrow> int) \<Rightarrow> addr option" where
  "rbtree_find_node m tree find_proc =
     (if root tree = sentinel tree then Some NULL
      else rbtree_find_loop m (sentinel tree) find_proc (root tree))"

text \<open>
  \<^verbatim>\<open>rbtree_foreach\<close> with a callback that does not write tree nodes: the callback is a function on the
  client's state.
\<close>

partial_function (option) for_each_order ::
    "rbmem \<Rightarrow> addr \<Rightarrow> (addr \<Rightarrow> 's \<Rightarrow> 's) \<Rightarrow> addr \<Rightarrow> 's \<Rightarrow> 's option" where
  "for_each_order m s proc node st =
     (if node \<noteq> NULL \<and> node \<noteq> s then do {
        l \<leftarrow> rd left m node;
        st1 \<leftarrow> (if l \<noteq> NULL then for_each_order m s proc l (proc node st) else Some (proc node st));
        r \<leftarrow> rd right m node;
        (if r \<noteq> NULL then for_each_order m s proc r st1 else Some st1)
      } else Some st)"

definition rbtree_foreach :: "rbmem \<Rightarrow> rbtree \<Rightarrow> (addr \<Rightarrow> 's \<Rightarrow> 's) \<Rightarrow> 's \<Rightarrow> 's option" where
  "rbtree_foreach m tree proc st =
     (if root tree = sentinel tree then Some st
      else do {
        l \<leftarrow> rd left m (root tree);
        st1 \<leftarrow> (if l \<noteq> NULL then for_each_order m (sentinel tree) proc l (proc (root tree) st)
                else Some (proc (root tree) st));
        r \<leftarrow> rd right m (root tree);
        (if r \<noteq> NULL then for_each_order m (sentinel tree) proc r st1 else Some st1)
      })"

section \<open>Rotations\<close>

text \<open>The rotations take \<^verbatim>\<open>*root\<close> and return its new value.\<close>

definition rbtree_left_rotate :: "rbmem \<Rightarrow> addr \<Rightarrow> addr \<Rightarrow> addr \<Rightarrow> (rbmem \<times> addr) option" where
  "rbtree_left_rotate m rt s node = do {
     temp \<leftarrow> rd right m node;
     tl \<leftarrow> rd left m temp;
     m \<leftarrow> wr m node (\<lambda>n. n\<lparr>right := tl\<rparr>);
     tl \<leftarrow> rd left m temp;
     m \<leftarrow> (if tl \<noteq> s then wr m tl (\<lambda>n. n\<lparr>parent := node\<rparr>) else Some m);
     np \<leftarrow> rd parent m node;
     m \<leftarrow> wr m temp (\<lambda>n. n\<lparr>parent := np\<rparr>);
     (m, rt) \<leftarrow>
       (if node = rt then Some (m, temp)
        else do {
          np \<leftarrow> rd parent m node;
          npl \<leftarrow> rd left m np;
          m \<leftarrow> (if node = npl then wr m np (\<lambda>n. n\<lparr>left := temp\<rparr>)
               else wr m np (\<lambda>n. n\<lparr>right := temp\<rparr>));
          Some (m, rt)
        });
     m \<leftarrow> wr m temp (\<lambda>n. n\<lparr>left := node\<rparr>);
     m \<leftarrow> wr m node (\<lambda>n. n\<lparr>parent := temp\<rparr>);
     Some (m, rt)
   }"

definition rbtree_right_rotate :: "rbmem \<Rightarrow> addr \<Rightarrow> addr \<Rightarrow> addr \<Rightarrow> (rbmem \<times> addr) option" where
  "rbtree_right_rotate m rt s node = do {
     temp \<leftarrow> rd left m node;
     tr \<leftarrow> rd right m temp;
     m \<leftarrow> wr m node (\<lambda>n. n\<lparr>left := tr\<rparr>);
     tr \<leftarrow> rd right m temp;
     m \<leftarrow> (if tr \<noteq> s then wr m tr (\<lambda>n. n\<lparr>parent := node\<rparr>) else Some m);
     np \<leftarrow> rd parent m node;
     m \<leftarrow> wr m temp (\<lambda>n. n\<lparr>parent := np\<rparr>);
     (m, rt) \<leftarrow>
       (if node = rt then Some (m, temp)
        else do {
          np \<leftarrow> rd parent m node;
          npr \<leftarrow> rd right m np;
          m \<leftarrow> (if node = npr then wr m np (\<lambda>n. n\<lparr>right := temp\<rparr>)
               else wr m np (\<lambda>n. n\<lparr>left := temp\<rparr>));
          Some (m, rt)
        });
     m \<leftarrow> wr m temp (\<lambda>n. n\<lparr>right := node\<rparr>);
     m \<leftarrow> wr m node (\<lambda>n. n\<lparr>parent := temp\<rparr>);
     Some (m, rt)
   }"

section \<open>Insertion\<close>

partial_function (option) insert_value_loop ::
    "rbmem \<Rightarrow> (addr \<Rightarrow> addr \<Rightarrow> int) \<Rightarrow> addr \<Rightarrow> addr \<Rightarrow> addr \<Rightarrow> (addr \<times> bool) option" where
  "insert_value_loop m cmp begn node s =
     (let go_left = cmp node begn < 0 in
      do {
        p \<leftarrow> (if go_left then rd left m begn else rd right m begn);
        (if p = s then Some (begn, go_left) else insert_value_loop m cmp p node s)
      })"

definition default_rbtree_insert_value ::
    "rbmem \<Rightarrow> rbtree \<Rightarrow> addr \<Rightarrow> addr \<Rightarrow> addr \<Rightarrow> rbmem option" where
  "default_rbtree_insert_value m tree begn node s = do {
     (begn, go_left) \<leftarrow> insert_value_loop m (node_cmp_proc tree) begn node s;
     m \<leftarrow> (if go_left then wr m begn (\<lambda>n. n\<lparr>left := node\<rparr>) else wr m begn (\<lambda>n. n\<lparr>right := node\<rparr>));
     m \<leftarrow> wr m node (\<lambda>n. n\<lparr>parent := begn\<rparr>);
     m \<leftarrow> wr m node (\<lambda>n. n\<lparr>left := s\<rparr>);
     m \<leftarrow> wr m node (\<lambda>n. n\<lparr>right := s\<rparr>);
     rbt_red m node
   }"

text \<open>The body of the rebalancing loop: \<^verbatim>\<open>if (node->parent == node->parent->parent->left)\<close> and its \<^verbatim>\<open>else\<close>.\<close>

definition insert_fix_left :: "addr \<Rightarrow> rbmem \<Rightarrow> addr \<Rightarrow> addr \<Rightarrow> (rbmem \<times> addr \<times> addr) option" where
  "insert_fix_left s m rt node = do {
     g \<leftarrow> rd2 parent parent m node;
     temp \<leftarrow> rd right m g;
     uncle_red \<leftarrow> rbt_is_red m temp;
     (if uncle_red then do {
        p \<leftarrow> rd parent m node;
        m \<leftarrow> rbt_black m p;
        m \<leftarrow> rbt_black m temp;
        g \<leftarrow> rd2 parent parent m node;
        m \<leftarrow> rbt_red m g;
        node \<leftarrow> rd2 parent parent m node;
        Some (m, rt, node)
      } else do {
        pr \<leftarrow> rd2 parent right m node;
        (m, rt, node) \<leftarrow>
          (if node = pr then do {
             node \<leftarrow> rd parent m node;
             (m, rt) \<leftarrow> rbtree_left_rotate m rt s node;
             Some (m, rt, node)
           } else Some (m, rt, node));
        p \<leftarrow> rd parent m node;
        m \<leftarrow> rbt_black m p;
        g \<leftarrow> rd2 parent parent m node;
        m \<leftarrow> rbt_red m g;
        g \<leftarrow> rd2 parent parent m node;
        (m, rt) \<leftarrow> rbtree_right_rotate m rt s g;
        Some (m, rt, node)
      })
   }"

definition insert_fix_right :: "addr \<Rightarrow> rbmem \<Rightarrow> addr \<Rightarrow> addr \<Rightarrow> (rbmem \<times> addr \<times> addr) option" where
  "insert_fix_right s m rt node = do {
     g \<leftarrow> rd2 parent parent m node;
     temp \<leftarrow> rd left m g;
     uncle_red \<leftarrow> rbt_is_red m temp;
     (if uncle_red then do {
        p \<leftarrow> rd parent m node;
        m \<leftarrow> rbt_black m p;
        m \<leftarrow> rbt_black m temp;
        g \<leftarrow> rd2 parent parent m node;
        m \<leftarrow> rbt_red m g;
        node \<leftarrow> rd2 parent parent m node;
        Some (m, rt, node)
      } else do {
        pl \<leftarrow> rd2 parent left m node;
        (m, rt, node) \<leftarrow>
          (if node = pl then do {
             node \<leftarrow> rd parent m node;
             (m, rt) \<leftarrow> rbtree_right_rotate m rt s node;
             Some (m, rt, node)
           } else Some (m, rt, node));
        p \<leftarrow> rd parent m node;
        m \<leftarrow> rbt_black m p;
        g \<leftarrow> rd2 parent parent m node;
        m \<leftarrow> rbt_red m g;
        g \<leftarrow> rd2 parent parent m node;
        (m, rt) \<leftarrow> rbtree_left_rotate m rt s g;
        Some (m, rt, node)
      })
   }"

partial_function (option) insert_fixup :: "addr \<Rightarrow> rbmem \<Rightarrow> addr \<Rightarrow> addr \<Rightarrow> (rbmem \<times> addr) option" where
  "insert_fixup s m rt node =
     (if node = rt then Some (m, rt)
      else do {
        p \<leftarrow> rd parent m node;
        parent_red \<leftarrow> rbt_is_red m p;
        (if \<not> parent_red then Some (m, rt)
         else do {
           p \<leftarrow> rd parent m node;
           gl \<leftarrow> do { g \<leftarrow> rd2 parent parent m node; rd left m g };
           (m, rt, node) \<leftarrow>
             (if p = gl then insert_fix_left s m rt node else insert_fix_right s m rt node);
           insert_fixup s m rt node
         })
      })"

definition rbtree_insert :: "rbmem \<Rightarrow> rbtree \<Rightarrow> addr \<Rightarrow> (rbmem \<times> rbtree) option" where
  "rbtree_insert m tree node =
     (let s = sentinel tree in
      if root tree = s then do {
        m \<leftarrow> wr m node (\<lambda>n. n\<lparr>parent := NULL\<rparr>);
        m \<leftarrow> wr m node (\<lambda>n. n\<lparr>left := s\<rparr>);
        m \<leftarrow> wr m node (\<lambda>n. n\<lparr>right := s\<rparr>);
        m \<leftarrow> rbt_black m node;
        Some (m, tree\<lparr>root := node\<rparr>)
      } else do {
        m \<leftarrow> default_rbtree_insert_value m tree (root tree) node s;
        (m, rt) \<leftarrow> insert_fixup s m (root tree) node;
        m \<leftarrow> rbt_black m rt;
        Some (m, tree\<lparr>root := rt\<rparr>)
      })"

section \<open>Deletion\<close>

text \<open>The choice of \<^verbatim>\<open>subst\<close>, the node that leaves its place, and \<^verbatim>\<open>temp\<close>, the child that takes it.\<close>

definition delete_choose :: "rbmem \<Rightarrow> addr \<Rightarrow> addr \<Rightarrow> (addr \<times> addr) option" where
  "delete_choose m s node = do {
     nl \<leftarrow> rd left m node;
     (if nl = s then do {
        temp \<leftarrow> rd right m node;
        Some (temp, node)
      } else do {
        nr \<leftarrow> rd right m node;
        (if nr = s then do {
           temp \<leftarrow> rd left m node;
           Some (temp, node)
         } else do {
           nr \<leftarrow> rd right m node;
           subst \<leftarrow> rbtree_min m nr s;
           sl \<leftarrow> rd left m subst;
           temp \<leftarrow> (if sl \<noteq> s then rd left m subst else rd right m subst);
           Some (temp, subst)
         })
      })
   }"

text \<open>\<^verbatim>\<open>subst\<close> moves into the place of \<^verbatim>\<open>node\<close>, with its links and its colour.\<close>

definition delete_takeover :: "rbmem \<Rightarrow> addr \<Rightarrow> addr \<Rightarrow> addr \<Rightarrow> addr \<Rightarrow> (rbmem \<times> addr) option" where
  "delete_takeover m rt s node subst = do {
     nl \<leftarrow> rd left m node;
     m \<leftarrow> wr m subst (\<lambda>n. n\<lparr>left := nl\<rparr>);
     nr \<leftarrow> rd right m node;
     m \<leftarrow> wr m subst (\<lambda>n. n\<lparr>right := nr\<rparr>);
     np \<leftarrow> rd parent m node;
     m \<leftarrow> wr m subst (\<lambda>n. n\<lparr>parent := np\<rparr>);
     m \<leftarrow> rbt_copy_color m subst node;
     (m, rt) \<leftarrow>
       (if node = rt then Some (m, subst)
        else do {
          np \<leftarrow> rd parent m node;
          npl \<leftarrow> rd left m np;
          m \<leftarrow> (if node = npl then wr m np (\<lambda>n. n\<lparr>left := subst\<rparr>)
               else wr m np (\<lambda>n. n\<lparr>right := subst\<rparr>));
          Some (m, rt)
        });
     sl \<leftarrow> rd left m subst;
     m \<leftarrow> (if sl \<noteq> s then wr m sl (\<lambda>n. n\<lparr>parent := subst\<rparr>) else Some m);
     sr \<leftarrow> rd right m subst;
     m \<leftarrow> (if sr \<noteq> s then wr m sr (\<lambda>n. n\<lparr>parent := subst\<rparr>) else Some m);
     Some (m, rt)
   }"

definition delete_replace :: "rbmem \<Rightarrow> addr \<Rightarrow> addr \<Rightarrow> addr \<Rightarrow> addr \<Rightarrow> addr \<Rightarrow> (rbmem \<times> addr) option" where
  "delete_replace m rt s node subst temp = do {
     sp \<leftarrow> rd parent m subst;
     m \<leftarrow> (if sp = node then wr m temp (\<lambda>n. n\<lparr>parent := subst\<rparr>)
          else do { sp \<leftarrow> rd parent m subst; wr m temp (\<lambda>n. n\<lparr>parent := sp\<rparr>) });
     delete_takeover m rt s node subst
   }"

definition delete_unlink :: "rbmem \<Rightarrow> addr \<Rightarrow> addr \<Rightarrow> addr \<Rightarrow> addr \<Rightarrow> addr \<Rightarrow> (rbmem \<times> addr) option" where
  "delete_unlink m rt s node subst temp = do {
     sp \<leftarrow> rd parent m subst;
     spl \<leftarrow> rd left m sp;
     m \<leftarrow> (if subst = spl then wr m sp (\<lambda>n. n\<lparr>left := temp\<rparr>) else wr m sp (\<lambda>n. n\<lparr>right := temp\<rparr>));
     (if subst = node then do {
        sp \<leftarrow> rd parent m subst;
        m \<leftarrow> wr m temp (\<lambda>n. n\<lparr>parent := sp\<rparr>);
        Some (m, rt)
      } else delete_replace m rt s node subst temp)
   }"

definition clear_links :: "rbmem \<Rightarrow> addr \<Rightarrow> rbmem option" where
  "clear_links m node = do {
     m \<leftarrow> wr m node (\<lambda>n. n\<lparr>left := NULL\<rparr>);
     m \<leftarrow> wr m node (\<lambda>n. n\<lparr>right := NULL\<rparr>);
     wr m node (\<lambda>n. n\<lparr>parent := NULL\<rparr>)
   }"

text \<open>The body of the fixup loop: \<^verbatim>\<open>if (temp == temp->parent->left)\<close> and its \<^verbatim>\<open>else\<close>.\<close>

definition children_black :: "rbmem \<Rightarrow> addr \<Rightarrow> bool option" where
  "children_black m w = do {
     l \<leftarrow> rd left m w;
     l_black \<leftarrow> rbt_is_black m l;
     (if l_black then do { r \<leftarrow> rd right m w; rbt_is_black m r } else Some False)
   }"

definition delete_red_left ::
    "addr \<Rightarrow> rbmem \<Rightarrow> addr \<Rightarrow> addr \<Rightarrow> addr \<Rightarrow> (rbmem \<times> addr \<times> addr) option" where
  "delete_red_left s m rt temp w = do {
     w_red \<leftarrow> rbt_is_red m w;
     (if w_red then do {
        m \<leftarrow> rbt_black m w;
        p \<leftarrow> rd parent m temp;
        m \<leftarrow> rbt_red m p;
        p \<leftarrow> rd parent m temp;
        (m, rt) \<leftarrow> rbtree_left_rotate m rt s p;
        w \<leftarrow> rd2 parent right m temp;
        Some (m, rt, w)
      } else Some (m, rt, w))
   }"

definition delete_black_left ::
    "addr \<Rightarrow> rbmem \<Rightarrow> addr \<Rightarrow> addr \<Rightarrow> addr \<Rightarrow> (rbmem \<times> addr \<times> addr) option" where
  "delete_black_left s m rt temp w = do {
     both_black \<leftarrow> children_black m w;
     (if both_black then do {
        m \<leftarrow> rbt_red m w;
        temp \<leftarrow> rd parent m temp;
        Some (m, rt, temp)
      } else do {
        far \<leftarrow> rd right m w;
        far_black \<leftarrow> rbt_is_black m far;
        (m, rt, w) \<leftarrow>
          (if far_black then do {
             near \<leftarrow> rd left m w;
             m \<leftarrow> rbt_black m near;
             m \<leftarrow> rbt_red m w;
             (m, rt) \<leftarrow> rbtree_right_rotate m rt s w;
             w \<leftarrow> rd2 parent right m temp;
             Some (m, rt, w)
           } else Some (m, rt, w));
        p \<leftarrow> rd parent m temp;
        m \<leftarrow> rbt_copy_color m w p;
        p \<leftarrow> rd parent m temp;
        m \<leftarrow> rbt_black m p;
        far \<leftarrow> rd right m w;
        m \<leftarrow> rbt_black m far;
        p \<leftarrow> rd parent m temp;
        (m, rt) \<leftarrow> rbtree_left_rotate m rt s p;
        Some (m, rt, rt)
      })
   }"

definition delete_fix_left :: "addr \<Rightarrow> rbmem \<Rightarrow> addr \<Rightarrow> addr \<Rightarrow> (rbmem \<times> addr \<times> addr) option" where
  "delete_fix_left s m rt temp = do {
     w \<leftarrow> rd2 parent right m temp;
     (m, rt, w) \<leftarrow> delete_red_left s m rt temp w;
     delete_black_left s m rt temp w
   }"

definition delete_red_right ::
    "addr \<Rightarrow> rbmem \<Rightarrow> addr \<Rightarrow> addr \<Rightarrow> addr \<Rightarrow> (rbmem \<times> addr \<times> addr) option" where
  "delete_red_right s m rt temp w = do {
     w_red \<leftarrow> rbt_is_red m w;
     (if w_red then do {
        m \<leftarrow> rbt_black m w;
        p \<leftarrow> rd parent m temp;
        m \<leftarrow> rbt_red m p;
        p \<leftarrow> rd parent m temp;
        (m, rt) \<leftarrow> rbtree_right_rotate m rt s p;
        w \<leftarrow> rd2 parent left m temp;
        Some (m, rt, w)
      } else Some (m, rt, w))
   }"

definition delete_black_right ::
    "addr \<Rightarrow> rbmem \<Rightarrow> addr \<Rightarrow> addr \<Rightarrow> addr \<Rightarrow> (rbmem \<times> addr \<times> addr) option" where
  "delete_black_right s m rt temp w = do {
     both_black \<leftarrow> children_black m w;
     (if both_black then do {
        m \<leftarrow> rbt_red m w;
        temp \<leftarrow> rd parent m temp;
        Some (m, rt, temp)
      } else do {
        far \<leftarrow> rd left m w;
        far_black \<leftarrow> rbt_is_black m far;
        (m, rt, w) \<leftarrow>
          (if far_black then do {
             near \<leftarrow> rd right m w;
             m \<leftarrow> rbt_black m near;
             m \<leftarrow> rbt_red m w;
             (m, rt) \<leftarrow> rbtree_left_rotate m rt s w;
             w \<leftarrow> rd2 parent left m temp;
             Some (m, rt, w)
           } else Some (m, rt, w));
        p \<leftarrow> rd parent m temp;
        m \<leftarrow> rbt_copy_color m w p;
        p \<leftarrow> rd parent m temp;
        m \<leftarrow> rbt_black m p;
        far \<leftarrow> rd left m w;
        m \<leftarrow> rbt_black m far;
        p \<leftarrow> rd parent m temp;
        (m, rt) \<leftarrow> rbtree_right_rotate m rt s p;
        Some (m, rt, rt)
      })
   }"

definition delete_fix_right :: "addr \<Rightarrow> rbmem \<Rightarrow> addr \<Rightarrow> addr \<Rightarrow> (rbmem \<times> addr \<times> addr) option" where
  "delete_fix_right s m rt temp = do {
     w \<leftarrow> rd2 parent left m temp;
     (m, rt, w) \<leftarrow> delete_red_right s m rt temp w;
     delete_black_right s m rt temp w
   }"

partial_function (option) delete_fixup :: "addr \<Rightarrow> rbmem \<Rightarrow> addr \<Rightarrow> addr \<Rightarrow> (rbmem \<times> addr) option" where
  "delete_fixup s m rt temp =
     (if temp = rt then do { m \<leftarrow> rbt_black m temp; Some (m, rt) }
      else do {
        black \<leftarrow> rbt_is_black m temp;
        (if \<not> black then do { m \<leftarrow> rbt_black m temp; Some (m, rt) }
         else do {
           pl \<leftarrow> rd2 parent left m temp;
           (m, rt, temp) \<leftarrow>
             (if temp = pl then delete_fix_left s m rt temp else delete_fix_right s m rt temp);
           delete_fixup s m rt temp
         })
      })"

definition rbtree_delete :: "rbmem \<Rightarrow> rbtree \<Rightarrow> addr \<Rightarrow> (rbmem \<times> rbtree) option" where
  "rbtree_delete m tree node =
     (let s = sentinel tree in do {
        (temp, subst) \<leftarrow> delete_choose m s node;
        (if subst = root tree then do {
           m \<leftarrow> rbt_black m temp;
           m \<leftarrow> clear_links m node;
           Some (m, tree\<lparr>root := temp\<rparr>)
         } else do {
           red \<leftarrow> rbt_is_red m subst;
           (m, rt) \<leftarrow> delete_unlink m (root tree) s node subst temp;
           m \<leftarrow> clear_links m node;
           (if red then Some (m, tree\<lparr>root := rt\<rparr>)
            else do {
              (m, rt) \<leftarrow> delete_fixup s m rt temp;
              Some (m, tree\<lparr>root := rt\<rparr>)
            })
         })
      })"

end
