(* ===== verification/Ez_Rbtree_Rep.thy ===== *)
theory Ez_Rbtree_Rep
  imports Ez_Rbtree
begin

text \<open>
  What it means that the memory of \<open>Ez_Rbtree\<close> holds an abstract tree, how the single loads, colour
  writes and rotations act on a tree seen through a zipper, and the mirror image of a memory, by
  which every right-hand branch of the code is a left-hand branch.
\<close>

section \<open>Trees in memory\<close>

fun ptr :: "addr \<Rightarrow> rtree \<Rightarrow> addr" where
  "ptr s Lf = s"
| "ptr s (Nd l p c r) = p"

definition col :: "bool \<Rightarrow> u8" where
  "col c = (if c then 1 else 0)"

fun up :: "addr \<Rightarrow> frame list \<Rightarrow> addr" where
  "up par [] = par"
| "up par (f # fs) = fnode f"

fun tree_at :: "rbmem \<Rightarrow> addr \<Rightarrow> addr \<Rightarrow> rtree \<Rightarrow> bool" where
  "tree_at m s par Lf = True"
| "tree_at m s par (Nd l p c r) \<longleftrightarrow>
     m p = Some \<lparr>left = ptr s l, right = ptr s r, parent = par, color = col c\<rparr>
     \<and> tree_at m s p l \<and> tree_at m s p r"

fun ctx_at :: "rbmem \<Rightarrow> addr \<Rightarrow> addr \<Rightarrow> frame list \<Rightarrow> addr \<Rightarrow> bool" where
  "ctx_at m s par [] x = True"
| "ctx_at m s par (FL p c r # fs) x \<longleftrightarrow>
     m p = Some \<lparr>left = x, right = ptr s r, parent = up par fs, color = col c\<rparr>
     \<and> tree_at m s p r \<and> ctx_at m s par fs p"
| "ctx_at m s par (FR l p c # fs) x \<longleftrightarrow>
     m p = Some \<lparr>left = ptr s l, right = x, parent = up par fs, color = col c\<rparr>
     \<and> tree_at m s p l \<and> ctx_at m s par fs p"

lemma tree_at_plug:
  "tree_at m s par (plug fs t) \<longleftrightarrow> tree_at m s (up par fs) t \<and> ctx_at m s par fs (ptr s t)"
proof (induction fs arbitrary: t)
  case (Cons f fs)
  then show ?case by (cases f) auto
qed simp

fun cnodes :: "frame list \<Rightarrow> addr set" where
  "cnodes [] = {}"
| "cnodes (FL p c r # fs) = insert p (set (nodes r) \<union> cnodes fs)"
| "cnodes (FR l p c # fs) = insert p (set (nodes l) \<union> cnodes fs)"

fun cdist :: "frame list \<Rightarrow> bool" where
  "cdist [] = True"
| "cdist (FL p c r # fs) \<longleftrightarrow>
     distinct (nodes r) \<and> p \<notin> set (nodes r) \<and> insert p (set (nodes r)) \<inter> cnodes fs = {} \<and> cdist fs"
| "cdist (FR l p c # fs) \<longleftrightarrow>
     distinct (nodes l) \<and> p \<notin> set (nodes l) \<and> insert p (set (nodes l)) \<inter> cnodes fs = {} \<and> cdist fs"

lemma set_nodes_plug: "set (nodes (plug fs t)) = set (nodes t) \<union> cnodes fs"
proof (induction fs arbitrary: t)
  case (Cons f fs)
  then show ?case by (cases f) auto
qed simp

lemma distinct_nodes_plug:
  "distinct (nodes (plug fs t)) \<longleftrightarrow> distinct (nodes t) \<and> cdist fs \<and> set (nodes t) \<inter> cnodes fs = {}"
proof (induction fs arbitrary: t)
  case (Cons f fs)
  then show ?case by (cases f) auto
qed simp

lemma tree_at_upd [simp]:
  "p \<notin> set (nodes t) \<Longrightarrow> tree_at (m(p \<mapsto> n)) s par t = tree_at m s par t"
  by (induction t arbitrary: par) auto

lemma ctx_at_upd [simp]:
  "p \<notin> cnodes fs \<Longrightarrow> ctx_at (m(p \<mapsto> n)) s par fs x = ctx_at m s par fs x"
  by (induction fs x rule: ctx_at.induct) auto

lemma tree_at_cong:
  "agree_on (set (nodes t)) m m' \<Longrightarrow> tree_at m' s par t = tree_at m s par t"
  by (induction t arbitrary: par) (auto simp: agree_on_def)

lemma ptr_in [simp]: "t \<noteq> Lf \<Longrightarrow> ptr s t \<in> set (nodes t)"
  by (cases t) auto

lemma ptr_paint [simp]: "ptr s (paint c t) = ptr s t"
  by (cases t) auto

lemma ptr_mirror [simp]: "ptr s (mirror t) = ptr s t"
  by (cases t) auto

lemma ptr_plug: "ptr s (plug fs t) = (if fs = [] then ptr s t else fnode (last fs))"
proof (induction fs arbitrary: t)
  case (Cons f fs)
  then show ?case by (cases f) auto
qed simp

lemma fnode_last_in [simp]: "fs \<noteq> [] \<Longrightarrow> fnode (last fs) \<in> cnodes fs"
  by (induction fs rule: cnodes.induct) auto

text \<open>
  \<open>rep s sp m0 m rt t\<close>: in memory \<open>m\<close>, the tree at root \<open>rt\<close> with sentinel \<open>s\<close> is \<open>t\<close>; the sentinel is a
  black node without children whose parent field is \<open>sp\<close>; and \<open>m\<close> differs from \<open>m0\<close> in nodes of the
  tree and the sentinel only. The parent field of the root is whatever it is: \<^verbatim>\<open>rbtree_delete\<close> leaves
  there the address of a node that is gone.
\<close>

definition rep :: "addr \<Rightarrow> addr \<Rightarrow> rbmem \<Rightarrow> rbmem \<Rightarrow> addr \<Rightarrow> rtree \<Rightarrow> bool" where
  "rep s sp m0 m rt t \<longleftrightarrow>
     rt = ptr s t \<and> distinct (nodes t) \<and> s \<notin> set (nodes t) \<and> NULL \<notin> insert s (set (nodes t))
     \<and> (\<exists>par. tree_at m s par t)
     \<and> m s = Some \<lparr>left = NULL, right = NULL, parent = sp, color = 0\<rparr>
     \<and> agree_on (- insert s (set (nodes t))) m0 m"

lemmas rep_focus = rep_def tree_at_plug distinct_nodes_plug set_nodes_plug

section \<open>Single operations\<close>

lemma rep_rt: "rep s sp m0 m rt t \<Longrightarrow> rt = ptr s t"
  by (simp add: rep_def)

lemma rep_node:
  assumes "rep s sp m0 m rt (plug fs (Nd l p c r))"
  shows "rd left m p = Some (ptr s l)" "rd right m p = Some (ptr s r)" "rbt_is_red m p = Some c"
    and "rbt_is_black m p = Some (\<not> c)" "rd color m p = Some (col c)"
  using assms by (auto simp: rep_focus rd_def rbt_is_red_def rbt_is_black_def col_def)

lemma rep_parent:
  assumes "rep s sp m0 m rt (plug (f # fs) t)"
  shows "t \<noteq> Lf \<Longrightarrow> rd parent m (ptr s t) = Some (fnode f)"
  using assms by (cases f; cases t) (auto simp: rep_focus rd_def)

lemma rep_is_red:
  assumes "rep s sp m0 m rt (plug fs t)"
  shows "rbt_is_red m (ptr s t) = Some (is_red t)" "rbt_is_black m (ptr s t) = Some (\<not> is_red t)"
  using assms by (cases t; auto simp: rep_focus rd_def rbt_is_red_def rbt_is_black_def col_def)+

lemma rep_root_neq:
  assumes "rep s sp m0 m rt (plug fs t)" "fs \<noteq> []"
  shows "ptr s t \<noteq> rt"
proof
  assume eq: "ptr s t = rt"
  have "rt \<in> cnodes fs" using assms by (auto simp: rep_def ptr_plug)
  moreover have "ptr s t \<notin> cnodes fs" using assms(1)
    by (cases t) (auto simp: rep_focus)
  ultimately show False using eq by simp
qed

lemma rep_sib_neq:
  assumes "rep s sp m0 m rt (plug (f # fs) t)" "t \<noteq> Lf \<or> sib f \<noteq> Lf"
  shows "ptr s t \<noteq> ptr s (sib f)"
  using assms by (cases f; cases t; cases "sib f") (auto simp: rep_focus)

lemma rep_set_color:
  assumes "rep s sp m0 m rt (plug fs (Nd l p c r))"
  shows "\<exists>m'. wr m p (\<lambda>n. n\<lparr>color := col c'\<rparr>) = Some m' \<and> rep s sp m0 m' rt (plug fs (Nd l p c' r))"
proof -
  from assms obtain par where "m p = Some \<lparr>left = ptr s l, right = ptr s r, parent = up par fs, color = col c\<rparr>"
    and "tree_at m s par (plug fs (Nd l p c r))"
    by (auto simp: rep_focus)
  then show ?thesis using assms
    by (auto simp: rep_focus mem_simps ptr_plug intro!: exI [of _ par])
qed

lemma rep_red:
  "rep s sp m0 m rt (plug fs (Nd l p c r)) \<Longrightarrow>
     \<exists>m'. rbt_red m p = Some m' \<and> rep s sp m0 m' rt (plug fs (Nd l p True r))"
  using rep_set_color [of s sp m0 m rt fs l p c r True] by (simp add: rbt_red_def col_def)

lemma rep_black:
  assumes "rep s sp m0 m rt (plug fs t)"
  shows "\<exists>m'. rbt_black m (ptr s t) = Some m' \<and> rep s sp m0 m' rt (plug fs (paint False t))"
proof (cases t)
  case Lf
  with assms show ?thesis by (auto simp: rep_focus rbt_black_def mem_simps fun_upd_idem)
next
  case (Nd l p c r)
  with assms rep_set_color [of s sp m0 m rt fs l p c r False] show ?thesis
    by (simp add: rbt_black_def col_def)
qed

lemma rep_left_rotate:
  assumes "rep s sp m0 m rt (plug fs (Nd a p c (Nd b q d e)))"
  shows "\<exists>m' rt'. rbtree_left_rotate m rt s p = Some (m', rt')
    \<and> rep s sp m0 m' rt' (plug fs (Nd (Nd a p c b) q d e))"
proof -
  from assms obtain par where par: "tree_at m s par (plug fs (Nd a p c (Nd b q d e)))"
    by (auto simp: rep_def)
  have rt: "rt = (if fs = [] then p else fnode (last fs))" using assms by (auto simp: rep_def ptr_plug)
  show ?thesis
  proof (cases fs)
    case Nil
    then show ?thesis using assms par rt
      by (cases b) (auto simp: rep_focus rbtree_left_rotate_def mem_simps intro!: exI [of _ par])
  next
    case (Cons f fs')
    have ne: "rt \<noteq> p" using rep_root_neq [OF assms] Cons by auto
    show ?thesis
    proof (cases f)
      case (FL g gc u)
      then show ?thesis using assms par rt ne Cons
        by (cases b) (auto simp: rep_focus rbtree_left_rotate_def mem_simps ptr_plug intro!: exI [of _ par])
    next
      case (FR u g gc)
      then show ?thesis using assms par rt ne Cons
        by (cases b; cases u) (auto simp: rep_focus rbtree_left_rotate_def mem_simps ptr_plug intro!: exI [of _ par])
    qed
  qed
qed

section \<open>The mirror image of a memory\<close>

definition flip_node :: "rbnode \<Rightarrow> rbnode" where
  "flip_node n = n\<lparr>left := right n, right := left n\<rparr>"

definition flip :: "rbmem \<Rightarrow> rbmem" where
  "flip m = (\<lambda>p. map_option flip_node (m p))"

lemma flip_node_flip_node [simp]: "flip_node (flip_node n) = n"
  by (simp add: flip_node_def)

lemma flip_flip [simp]: "flip (flip m) = m"
  by (simp add: flip_def option.map_comp comp_def option.map_ident)

lemma flip_eq_iff [simp]: "flip m = flip m' \<longleftrightarrow> m = m'"
  by (metis flip_flip)

lemma flip_upd: "flip (m(p \<mapsto> n)) = (flip m)(p \<mapsto> flip_node n)"
  by (auto simp: flip_def)

lemma flip_at: "flip m p = Some \<lparr>left = a, right = b, parent = q, color = c\<rparr> \<longleftrightarrow>
    m p = Some \<lparr>left = b, right = a, parent = q, color = c\<rparr>"
proof -
  have "flip_node n = \<lparr>left = a, right = b, parent = q, color = c\<rparr> \<longleftrightarrow>
      n = \<lparr>left = b, right = a, parent = q, color = c\<rparr>" for n
    by (cases n) (auto simp: flip_node_def)
  then show ?thesis by (cases "m p") (auto simp: flip_def)
qed

lemma tree_at_flip: "tree_at (flip m) s par (mirror t) = tree_at m s par t"
  by (induction t arbitrary: par) (auto simp: flip_at)

lemma rep_flip: "rep s sp (flip m0) (flip m) rt (mirror t) = rep s sp m0 m rt t"
proof -
  have "agree_on A (flip m0) (flip m) = agree_on A m0 m" for A
    by (auto simp: agree_on_def flip_def) (metis flip_node_flip_node option.inj_map_strong)
  then show ?thesis by (auto simp: rep_def tree_at_flip flip_at)
qed

text \<open>Loads, stores and every derived operation commute with the mirror image.\<close>

named_theorems flip_simps \<open>operations on the mirror image of a memory\<close>

lemma rd_flip [flip_simps]:
  "rd left (flip m) p = rd right m p" "rd right (flip m) p = rd left m p"
  "rd parent (flip m) p = rd parent m p" "rd color (flip m) p = rd color m p"
  by (cases "m p"; simp add: rd_def flip_def flip_node_def)+

lemma wr_flip [flip_simps]:
  "wr (flip m) p (\<lambda>n. n\<lparr>left := v\<rparr>) = map_option flip (wr m p (\<lambda>n. n\<lparr>right := v\<rparr>))"
  "wr (flip m) p (\<lambda>n. n\<lparr>right := v\<rparr>) = map_option flip (wr m p (\<lambda>n. n\<lparr>left := v\<rparr>))"
  "wr (flip m) p (\<lambda>n. n\<lparr>parent := v\<rparr>) = map_option flip (wr m p (\<lambda>n. n\<lparr>parent := v\<rparr>))"
  "wr (flip m) p (\<lambda>n. n\<lparr>color := c\<rparr>) = map_option flip (wr m p (\<lambda>n. n\<lparr>color := c\<rparr>))"
  by (cases "m p"; simp add: wr_def flip_def flip_node_def fun_eq_iff)+

lemma bind_map_option [flip_simps]:
  "Option.bind (map_option g x) f = Option.bind x (\<lambda>y. f (g y))"
  by (cases x) auto

lemma map_option_bind_distrib [flip_simps]:
  "map_option g (Option.bind x f) = Option.bind x (\<lambda>y. map_option g (f y))"
  by (cases x) auto

lemma map_option_if [flip_simps]:
  "map_option g (if b then x else y) = (if b then map_option g x else map_option g y)"
  by simp

lemma bind_if [flip_simps]:
  "Option.bind (if b then x else y) f = (if b then Option.bind x f else Option.bind y f)"
  by simp

lemma map_option_case_prod [flip_simps]:
  "map_option g (case z of (a, b) \<Rightarrow> h a b) = (case z of (a, b) \<Rightarrow> map_option g (h a b))"
  by (cases z) simp

lemma color_ops_flip [flip_simps]:
  "rbt_red (flip m) p = map_option flip (rbt_red m p)"
  "rbt_black (flip m) p = map_option flip (rbt_black m p)"
  "rbt_is_red (flip m) p = rbt_is_red m p" "rbt_is_black (flip m) p = rbt_is_black m p"
  "rbt_copy_color (flip m) p q = map_option flip (rbt_copy_color m p q)"
  by (simp_all add: rbt_red_def rbt_black_def rbt_is_red_def rbt_is_black_def rbt_copy_color_def flip_simps)
    (cases "m p"; simp add: rd_def flip_def flip_node_def)+

lemma rd2_flip [flip_simps]:
  "rd2 parent left (flip m) p = rd2 parent right m p"
  "rd2 parent right (flip m) p = rd2 parent left m p"
  "rd2 parent parent (flip m) p = rd2 parent parent m p"
  by (simp_all add: rd2_def flip_simps)

lemma left_rotate_flip [flip_simps]:
  "rbtree_left_rotate (flip m) rt s p = map_option (map_prod flip id) (rbtree_right_rotate m rt s p)"
  unfolding rbtree_left_rotate_def rbtree_right_rotate_def
  by (simp add: flip_simps cong: if_cong)

lemma right_rotate_flip [flip_simps]:
  "rbtree_right_rotate (flip m) rt s p = map_option (map_prod flip id) (rbtree_left_rotate m rt s p)"
  using left_rotate_flip [of "flip m" rt s p]
  by (simp add: option.map_comp map_prod.comp comp_def map_prod_def case_prod_beta option.map_ident)

lemma rep_right_rotate:
  assumes "rep s sp m0 m rt (plug fs (Nd (Nd a q d b) p c e))"
  shows "\<exists>m' rt'. rbtree_right_rotate m rt s p = Some (m', rt')
    \<and> rep s sp m0 m' rt' (plug fs (Nd a q d (Nd b p c e)))"
proof -
  have "rep s sp (flip m0) (flip m) rt (plug (map fmirror fs) (Nd (mirror e) p c (Nd (mirror b) q d (mirror a))))"
    using assms rep_flip [of s sp m0 m rt "plug fs (Nd (Nd a q d b) p c e)"] by (simp add: mirror_plug)
  from rep_left_rotate [OF this] obtain m' rt'
    where "rbtree_left_rotate (flip m) rt s p = Some (m', rt')"
      and r: "rep s sp (flip m0) m' rt' (plug (map fmirror fs) (Nd (Nd (mirror e) p c (mirror b)) q d (mirror a)))"
    by blast
  then have "rbtree_right_rotate m rt s p = Some (flip m', rt')"
    by (auto simp: left_rotate_flip)
  moreover have "rep s sp m0 (flip m') rt' (plug fs (Nd a q d (Nd b p c e)))"
    using r rep_flip [of s sp m0 "flip m'" rt' "plug fs (Nd a q d (Nd b p c e))"] by (simp add: mirror_plug)
  ultimately show ?thesis by blast
qed

end
