(* ===== verification/Ez_Rbtree_Refine.thy ===== *)
theory Ez_Rbtree_Refine
  imports Ez_Rbtree_Rep
begin

text \<open>
  The operations of \<open>Ez_Rbtree\<close> compute the functions of \<open>Ez_Rbt_Tree\<close>: simulation lemmas for search,
  minimum, traversal, the insertion loop and the deletion loop, each with termination and absence
  of wild accesses, then the interface that the users of the tree rely on.
\<close>

section \<open>Search, minimum, traversal\<close>

lemma find_loop_spec:
  assumes "rep s sp m0 m rt (plug fs t)" "t \<noteq> Lf"
  shows "rbtree_find_loop m s cmp (ptr s t) = Some (case tree_find cmp t of None \<Rightarrow> NULL | Some p \<Rightarrow> p)"
  using assms
proof (induction t arbitrary: fs)
  case (Nd l p c r)
  have l: "rep s sp m0 m rt (plug (FL p c r # fs) l)" and r: "rep s sp m0 m rt (plug (FR l p c # fs) r)"
    using Nd.prems(1) by simp_all
  note child = rep_node [OF Nd.prems(1)]
  have s: "ptr s l \<noteq> s \<longleftrightarrow> l \<noteq> Lf" "ptr s r \<noteq> s \<longleftrightarrow> r \<noteq> Lf"
    using Nd.prems(1) by (cases l; cases r; auto simp: rep_focus)+
  show ?case
    by (subst rbtree_find_loop.simps)
      (use child s Nd.IH(1) [OF l] Nd.IH(2) [OF r] in \<open>auto simp: Let_def\<close>)
qed simp

lemma rbtree_find_node_spec:
  assumes "rep (sentinel tr) sp m0 m (root tr) t"
  shows "rbtree_find_node m tr cmp = Some (case tree_find cmp t of None \<Rightarrow> NULL | Some p \<Rightarrow> p)"
proof (cases "t = Lf")
  case True
  with assms show ?thesis by (simp add: rbtree_find_node_def rep_def)
next
  case False
  then have "root tr \<noteq> sentinel tr" using assms by (cases t) (auto simp: rep_def)
  with False find_loop_spec [of "sentinel tr" sp m0 m "root tr" "[]" t cmp] assms rep_rt [OF assms]
  show ?thesis by (simp add: rbtree_find_node_def)
qed

lemma rbtree_min_spec:
  assumes "rep s sp m0 m rt (plug fs t)" "min_path t fs = (gs, Nd Lf y c' r')"
  shows "rbtree_min m (ptr s t) s = Some y"
  using assms
proof (induction t arbitrary: fs)
  case (Nd l p c r)
  have p: "p \<noteq> NULL" using Nd.prems(1) by (auto simp: rep_focus)
  show ?case
  proof (cases "l = Lf")
    case True
    with Nd.prems p rep_node(1) [OF Nd.prems(1)] show ?thesis by (simp add: rbtree_min.simps)
  next
    case False
    have l: "rep s sp m0 m rt (plug (FL p c r # fs) l)" using Nd.prems(1) by simp
    have path: "min_path l (FL p c r # fs) = (gs, Nd Lf y c' r')" using Nd.prems(2) False
      by (cases l) auto
    have "ptr s l \<noteq> s" using False Nd.prems(1) by (cases l) (auto simp: rep_focus)
    with p Nd.IH(1) [OF l path] rep_node(1) [OF Nd.prems(1)] show ?thesis
      by (subst rbtree_min.simps) simp
  qed
qed simp

lemma rbtree_min_node_spec:
  assumes "rep (sentinel tr) sp m0 m (root tr) t"
  shows "rbtree_min_node m tr = Some (if t = Lf then NULL else hd (nodes t))"
proof (cases "t = Lf")
  case True
  with assms have "m (sentinel tr) = Some \<lparr>left = NULL, right = NULL, parent = sp, color = 0\<rparr>"
    "sentinel tr \<noteq> NULL" "root tr = sentinel tr" by (auto simp: rep_def)
  then show ?thesis using True
    by (simp add: rbtree_min_node_def rbtree_min.simps [of m "sentinel tr"]
        rbtree_min.simps [of m NULL] mem_simps)
next
  case False
  then obtain gs y c r where path: "min_path t [] = (gs, Nd Lf y c r)"
    using min_path_exists by blast
  have "before gs = []" using min_path_left [OF path] by simp
  then have "nodes t = y # nodes r @ after gs" using nodes_min_path [OF path] by (simp add: nodes_plug)
  with False rbtree_min_spec [OF _ path, of "sentinel tr" sp m0 m "root tr"] assms rep_rt [OF assms]
  show ?thesis by (simp add: rbtree_min_node_def)
qed

lemma for_each_order_spec:
  assumes "rep s sp m0 m rt (plug fs t)"
  shows "for_each_order m s proc (ptr s t) st = Some (fold proc (preorder t) st)"
  using assms
proof (induction t arbitrary: fs st)
  case Lf
  show ?case by (simp add: for_each_order.simps)
next
  case (Nd l p c r)
  have l: "rep s sp m0 m rt (plug (FL p c r # fs) l)" and r: "rep s sp m0 m rt (plug (FR l p c # fs) r)"
    using Nd.prems by simp_all
  have ne: "p \<noteq> NULL" "p \<noteq> s" "ptr s l \<noteq> NULL" "ptr s r \<noteq> NULL"
    using Nd.prems by (auto simp: rep_focus) (cases l; auto; cases r; auto)+
  with rep_node(1,2) [OF Nd.prems] Nd.IH(1) [OF l] Nd.IH(2) [OF r] show ?case
    by (subst for_each_order.simps) simp
qed

lemma rbtree_foreach_spec:
  assumes "rep (sentinel tr) sp m0 m (root tr) t"
  shows "rbtree_foreach m tr proc st = Some (fold proc (preorder t) st)"
proof (cases "t = Lf")
  case True
  with assms show ?thesis by (simp add: rbtree_foreach_def rep_def)
next
  case False
  then have ne: "root tr \<noteq> sentinel tr" "root tr \<noteq> NULL" using assms by (cases t; auto simp: rep_def)+
  then have "rbtree_foreach m tr proc st = for_each_order m (sentinel tr) proc (root tr) st"
    by (subst for_each_order.simps) (simp add: rbtree_foreach_def)
  with for_each_order_spec [of "sentinel tr" sp m0 m "root tr" "[]" t] assms rep_rt [OF assms]
  show ?thesis by simp
qed

section \<open>The insertion loop\<close>

fun fpaint :: "bool \<Rightarrow> frame \<Rightarrow> frame" where
  "fpaint c (FL p c' r) = FL p c r"
| "fpaint c (FR l p c') = FR l p c"

lemma paint_plug1: "paint c (plug1 f t) = plug1 (fpaint c f) t"
  by (cases f) auto

lemma ptr_plug1 [simp]: "ptr s (plug1 f t) = fnode f"
  by (cases f) auto

lemma fnode_fpaint [simp]: "fnode (fpaint c f) = fnode f"
  by (cases f) auto

lemma plug1_neq_Lf [simp]: "plug1 f t \<noteq> Lf"
  by (cases f) auto

lemma rep_grand:
  assumes "rep s sp m0 m rt (plug (f # g # fs) t)" "t \<noteq> Lf"
  shows "rd parent m (ptr s t) = Some (fnode f)" "rd2 parent parent m (ptr s t) = Some (fnode g)"
proof -
  show p: "rd parent m (ptr s t) = Some (fnode f)" using rep_parent [OF assms(1)] assms(2) by simp
  have "rep s sp m0 m rt (plug (g # fs) (plug1 f t))" using assms(1) by simp
  from rep_parent [OF this] p show "rd2 parent parent m (ptr s t) = Some (fnode g)"
    by (simp add: rd2_def)
qed

lemma rep_recolor:
  assumes "rep s sp m0 m rt (plug (f # fs) t)"
  shows "\<exists>m'. rbt_black m (fnode f) = Some m' \<and> rep s sp m0 m' rt (plug (fpaint False f # fs) t)"
    and "\<exists>m'. rbt_red m (fnode f) = Some m' \<and> rep s sp m0 m' rt (plug (fpaint True f # fs) t)"
  using rep_black [of s sp m0 m rt fs "plug1 f t"] assms
    rep_red [of s sp m0 m rt fs _ "fnode f"] by (simp_all add: paint_plug1) (cases f; simp)

lemma insert_rotate_spec:
  assumes "rep s sp m0 m rt (plug (FL p c r # FL g gc u # fs) t)" "t \<noteq> Lf"
  shows "\<exists>m' rt'. do {
      p \<leftarrow> rd parent m (ptr s t);
      m \<leftarrow> rbt_black m p;
      g \<leftarrow> rd2 parent parent m (ptr s t);
      m \<leftarrow> rbt_red m g;
      g \<leftarrow> rd2 parent parent m (ptr s t);
      (m, rt) \<leftarrow> rbtree_right_rotate m rt s g;
      Some (m, rt, ptr s t)
    } = Some (m', rt', ptr s t) \<and> rep s sp m0 m' rt' (plug (FL p False (Nd r g True u) # fs) t)"
proof -
  obtain m1 where m1: "rbt_black m p = Some m1"
    and r1: "rep s sp m0 m1 rt (plug (FL p False r # FL g gc u # fs) t)"
    using rep_recolor(1) [OF assms(1)] by auto
  from r1 have "rep s sp m0 m1 rt (plug (FL g gc u # fs) (Nd t p False r))" by simp
  from rep_recolor(2) [OF this] obtain m2 where m2: "rbt_red m1 g = Some m2"
    and r2: "rep s sp m0 m2 rt (plug (FL p False r # FL g True u # fs) t)" by auto
  from r2 have "rep s sp m0 m2 rt (plug fs (Nd (Nd t p False r) g True u))" by simp
  from rep_right_rotate [OF this] obtain m' rt' where "rbtree_right_rotate m2 rt s g = Some (m', rt')"
    and "rep s sp m0 m' rt' (plug fs (Nd t p False (Nd r g True u)))" by blast
  with m1 m2 rep_grand [OF assms] rep_grand [OF r1 assms(2)] rep_grand [OF r2 assms(2)] show ?thesis
    by simp
qed

lemma insert_fix_left_spec:
  assumes R: "rep s sp m0 m rt (plug (f # FL g gc u # fs) t)" and t: "t \<noteq> Lf"
    and step: "ins_step_l f g u fs t = (fs', t')"
  shows "\<exists>m' rt'. insert_fix_left s m rt (ptr s t) = Some (m', rt', ptr s t')
    \<and> rep s sp m0 m' rt' (plug fs' t')"
proof -
  note grand = rep_grand [OF R t]
  have "rep s sp m0 m rt (plug fs (Nd (plug1 f t) g gc u))" using R by simp
  from rep_node [OF this] have uncle: "rd right m g = Some (ptr s u)" by simp
  have "rep s sp m0 m rt (plug (FR (plug1 f t) g gc # fs) u)" using R by simp
  from rep_is_red [OF this] have ured: "rbt_is_red m (ptr s u) = Some (is_red u)" by simp
  show ?thesis
  proof (cases "is_red u")
    case True
    let ?f = "fpaint False f"
    obtain m1 where m1: "rbt_black m (fnode f) = Some m1"
      and r1: "rep s sp m0 m1 rt (plug (?f # FL g gc u # fs) t)" using rep_recolor(1) [OF R] by blast
    from r1 have "rep s sp m0 m1 rt (plug (FR (plug1 ?f t) g gc # fs) u)" by simp
    from rep_black [OF this] obtain m2 where m2: "rbt_black m1 (ptr s u) = Some m2"
      and r2: "rep s sp m0 m2 rt (plug (?f # FL g gc (paint False u) # fs) t)" by auto
    from r2 have "rep s sp m0 m2 rt (plug (FL g gc (paint False u) # fs) (plug1 ?f t))" by simp
    from rep_recolor(2) [OF this] obtain m3 where m3: "rbt_red m2 g = Some m3"
      and r3: "rep s sp m0 m3 rt (plug (?f # FL g True (paint False u) # fs) t)" by auto
    from True step have "fs' = fs" "t' = Nd (plug1 ?f t) g True (paint False u)"
      by (auto simp: paint_plug1)
    with True grand uncle ured m1 m2 m3 rep_grand [OF r2 t] rep_grand [OF r3 t] r3 show ?thesis
      by (simp add: insert_fix_left_def)
  next
    case False
    show ?thesis
    proof (cases f)
      case (FL p c r)
      from R FL have p: "rep s sp m0 m rt (plug (FL g gc u # fs) (Nd t p c r))" by simp
      have ne: "ptr s t \<noteq> ptr s r" using rep_sib_neq [OF R] t FL by simp
      have pr: "rd2 parent right m (ptr s t) = Some (ptr s r)"
        using grand(1) rep_node(2) [OF p] FL by (simp add: rd2_def)
      from False FL step have "fs' = FL p False (Nd r g True u) # fs" "t' = t" by auto
      with False grand(2) uncle ured pr ne insert_rotate_spec [OF R [unfolded FL] t] show ?thesis
        by (simp add: insert_fix_left_def)
    next
      case (FR r p c)
      obtain a x tc b where tx: "t = Nd a x tc b" using t by (cases t) auto
      have "rep s sp m0 m rt (plug (FL g gc u # fs) (Nd r p c (Nd a x tc b)))" using R FR tx by simp
      from rep_node(2) [OF this] rep_left_rotate [OF this] obtain m1 rt1
        where rr: "rd right m p = Some x" and m1: "rbtree_left_rotate m rt s p = Some (m1, rt1)"
          and r1: "rep s sp m0 m1 rt1 (plug (FL x tc b # FL g gc u # fs) (Nd r p c a))" by auto
      have pr: "rd2 parent right m x = Some x" using grand(1) rr FR tx by (simp add: rd2_def)
      from False FR step tx have "fs' = FL x False (Nd b g True u) # fs" "t' = Nd r p c a" by auto
      with False FR tx grand uncle ured pr m1 insert_rotate_spec [OF r1] show ?thesis
        by (simp add: insert_fix_left_def)
    qed
  qed
qed

lemma insert_fix_left_flip [flip_simps]:
  "insert_fix_left s (flip m) rt node = map_option (map_prod flip id) (insert_fix_right s m rt node)"
  unfolding insert_fix_left_def insert_fix_right_def
  by (simp add: flip_simps case_prod_beta cong: if_cong)

lemma insert_fix_right_spec:
  assumes R: "rep s sp m0 m rt (plug (f # FR u g gc # fs) t)" and t: "t \<noteq> Lf"
    and step: "ins_step f (FR u g gc) fs t = (fs', t')"
  shows "\<exists>m' rt'. insert_fix_right s m rt (ptr s t) = Some (m', rt', ptr s t')
    \<and> rep s sp m0 m' rt' (plug fs' t')"
proof -
  obtain gs v where st: "ins_step_l (fmirror f) g (mirror u) (map fmirror fs) (mirror t) = (gs, v)"
    by (meson surj_pair)
  with step have eq: "fs' = map fmirror gs" "t' = mirror v" by (auto simp del: ins_step_l.simps)
  have "rep s sp (flip m0) (flip m) rt
      (plug (fmirror f # FL g gc (mirror u) # map fmirror fs) (mirror t))"
    using R rep_flip [of s sp m0 m rt "plug (f # FR u g gc # fs) t"]
    by (simp add: mirror_plug del: plug.simps)
  from insert_fix_left_spec [OF this _ st] t obtain m' rt'
    where fx: "insert_fix_left s (flip m) rt (ptr s t) = Some (m', rt', ptr s v)"
      and r: "rep s sp (flip m0) m' rt' (plug gs v)" by auto
  have "insert_fix_right s m rt (ptr s t) = Some (flip m', rt', ptr s t')"
    using fx eq by (auto simp: insert_fix_left_flip)
  moreover have "rep s sp m0 (flip m') rt' (plug fs' t')"
    using r rep_flip [of s sp m0 "flip m'" rt' "plug fs' t'"] eq
    by (simp add: mirror_plug)
  ultimately show ?thesis by blast
qed

lemma insert_fixup_spec:
  assumes "rep s sp m0 m rt (plug fs t)" "ins_ok fs t"
  shows "\<exists>m' rt'. insert_fixup s m rt (ptr s t) = Some (m', rt')
    \<and> rep s sp m0 m' rt' (ins_fix fs t)"
  using assms
proof (induction fs t arbitrary: m rt rule: ins_fix.induct)
  case (1 t)
  then show ?case by (auto simp: insert_fixup.simps dest: rep_rt)
next
  case (2 f t)
  have t: "t \<noteq> Lf" and "\<not> fred f" using 2(2) by (auto simp: ins_ok_def)
  moreover have "rep s sp m0 m rt (plug [] (plug1 f t))" using 2(1) by simp
  from rep_is_red(1) [OF this] have "rbt_is_red m (fnode f) = Some (fred f)" by (cases f) auto
  ultimately show ?case using rep_root_neq [OF 2(1)] rep_parent [OF 2(1)] 2(1)
    by (subst insert_fixup.simps) simp
next
  case (3 f g fs t)
  have t: "t \<noteq> Lf" using "3.prems"(2) by (auto simp: ins_ok_def)
  note R = "3.prems"(1)
  note grand = rep_grand [OF R t]
  have up1: "rep s sp m0 m rt (plug (g # fs) (plug1 f t))" using R by simp
  from rep_is_red(1) [OF this] have pred: "rbt_is_red m (fnode f) = Some (fred f)" by (cases f) auto
  have root: "ptr s t \<noteq> rt" using rep_root_neq [OF R] by simp
  show ?case
  proof (cases "fred f")
    case False
    with R root grand(1) pred show ?thesis by (subst insert_fixup.simps) simp
  next
    case True
    obtain fs' t' where step: "ins_step f g fs t = (fs', t')" by (meson surj_pair)
    have ok: "ins_ok fs' t'" by (rule ins_ok_step [OF "3.prems"(2) True step])
    have gl: "rd left m (fnode g) = Some (case g of FL _ _ _ \<Rightarrow> fnode f | FR u _ _ \<Rightarrow> ptr s u)"
      using up1 rep_node(1) [of s sp m0 m rt fs _ "fnode g"] by (cases g) auto
    have side: "fnode f = (case g of FL _ _ _ \<Rightarrow> fnode f | FR u _ _ \<Rightarrow> ptr s u) \<longleftrightarrow> (\<exists>p c r. g = FL p c r)"
      using rep_sib_neq [OF up1] by (cases g) auto
    have "\<exists>m' rt'. (if fnode f = (case g of FL _ _ _ \<Rightarrow> fnode f | FR u _ _ \<Rightarrow> ptr s u)
          then insert_fix_left s m rt (ptr s t) else insert_fix_right s m rt (ptr s t))
        = Some (m', rt', ptr s t') \<and> rep s sp m0 m' rt' (plug fs' t')"
    proof (cases g)
      case (FL p c r)
      with side R step insert_fix_left_spec [of s sp m0 m rt f p c r fs t] t show ?thesis
        by (simp del: ins_step_l.simps plug.simps)
    next
      case (FR r p c)
      with side R step insert_fix_right_spec [of s sp m0 m rt f r p c fs t] t show ?thesis
        by (simp del: ins_step.simps plug.simps)
    qed
    then obtain m' rt' where fx: "(if fnode f = (case g of FL _ _ _ \<Rightarrow> fnode f | FR u _ _ \<Rightarrow> ptr s u)
          then insert_fix_left s m rt (ptr s t) else insert_fix_right s m rt (ptr s t))
        = Some (m', rt', ptr s t')" and r: "rep s sp m0 m' rt' (plug fs' t')" by blast
    from "3.IH" [OF True step [symmetric] r ok] obtain m2 rt2
      where "insert_fixup s m' rt' (ptr s t') = Some (m2, rt2)" "rep s sp m0 m2 rt2 (ins_fix fs' t')"
      by blast
    with True root grand pred gl fx step show ?thesis
      by (subst insert_fixup.simps) (simp del: ins_step.simps plug.simps)
  qed
qed

section \<open>Insertion\<close>

lemma plug_ins_path: "plug (ins_path lt t fs) Lf = plug fs t"
  by (induction t arbitrary: fs) auto

lemma insert_value_loop_spec:
  assumes "rep s sp m0 m rt (plug fs t)" "t \<noteq> Lf" "\<And>p. lt p \<longleftrightarrow> cmp x p < 0"
  shows "\<exists>gs. ins_path lt t fs = gs \<and> gs \<noteq> [] \<and>
    insert_value_loop m cmp (ptr s t) x s = Some (fnode (hd gs), \<exists>p c r. hd gs = FL p c r)"
  using assms(1,2)
proof (induction t arbitrary: fs)
  case (Nd l p c r)
  have l: "rep s sp m0 m rt (plug (FL p c r # fs) l)" and r: "rep s sp m0 m rt (plug (FR l p c # fs) r)"
    using Nd.prems(1) by simp_all
  have s: "ptr s l = s \<longleftrightarrow> l = Lf" "ptr s r = s \<longleftrightarrow> r = Lf"
    using Nd.prems(1) by (cases l; cases r; auto simp: rep_focus)+
  note child = rep_node(1,2) [OF Nd.prems(1)]
  show ?case
  proof (cases "lt p")
    case True
    with Nd.IH(1) [OF l] child s assms(3) show ?thesis
      by (cases "l = Lf") (simp_all add: insert_value_loop.simps [of m cmp p])
  next
    case False
    with Nd.IH(2) [OF r] child s assms(3) show ?thesis
      by (cases "r = Lf") (simp_all add: insert_value_loop.simps [of m cmp p])
  qed
qed simp

lemma rbnode_full [simp]:
  "(n :: rbnode)\<lparr>left := a, right := b, parent := p, color := c\<rparr>
     = \<lparr>left = a, right = b, parent = p, color = c\<rparr>"
  "n\<lparr>parent := p, left := a, right := b, color := c\<rparr>
     = \<lparr>left = a, right = b, parent = p, color = c\<rparr>"
  by (rule rbnode.equality; simp)+

lemma insert_link:
  assumes R: "rep s sp m0 m rt (plug (f # fs) Lf)"
    and x: "m x = Some n" "x \<notin> insert s (set (nodes (plug (f # fs) Lf)))" "x \<noteq> NULL"
  shows "\<exists>m'. do {
      m \<leftarrow> (if \<exists>p c r. f = FL p c r then wr m (fnode f) (\<lambda>n. n\<lparr>left := x\<rparr>)
           else wr m (fnode f) (\<lambda>n. n\<lparr>right := x\<rparr>));
      m \<leftarrow> wr m x (\<lambda>n. n\<lparr>parent := fnode f\<rparr>);
      m \<leftarrow> wr m x (\<lambda>n. n\<lparr>left := s\<rparr>);
      m \<leftarrow> wr m x (\<lambda>n. n\<lparr>right := s\<rparr>);
      rbt_red m x
    } = Some m' \<and> rep s sp m0 m' rt (plug (f # fs) (Nd Lf x True Lf))"
proof -
  from R obtain par where par: "tree_at m s par (plug (f # fs) Lf)" by (auto simp: rep_def)
  show ?thesis using R par x
    by (cases f) (auto simp: rep_focus rbt_red_def mem_simps col_def ptr_plug intro!: exI [of _ par]
        elim!: agree_on_mono)
qed

lemma rbtree_insert_spec:
  assumes R: "rep (sentinel tr) sp m0 m (root tr) t" and rb: "rb_tree t"
    and x: "m x = Some n" "x \<notin> insert (sentinel tr) (set (nodes t))" "x \<noteq> NULL"
  shows "\<exists>m' tr'. rbtree_insert m tr x = Some (m', tr')
    \<and> sentinel tr' = sentinel tr \<and> node_cmp_proc tr' = node_cmp_proc tr
    \<and> rep (sentinel tr) sp m0 m' (root tr') (tree_insert (\<lambda>p. node_cmp_proc tr x p < 0) x t)"
proof (cases "t = Lf")
  case True
  let ?s = "sentinel tr"
  have "root tr = ?s" "m ?s = Some \<lparr>left = NULL, right = NULL, parent = sp, color = 0\<rparr>" "?s \<noteq> NULL"
    "agree_on (- {?s}) m0 m" using R True by (auto simp: rep_def)
  moreover have "agree_on (- {?s, x}) m0 m" using calculation(4) by (rule agree_on_mono) auto
  ultimately show ?thesis using x True
    by (auto simp: rbtree_insert_def Let_def rbt_black_def mem_simps tree_insert_def rep_def col_def)
next
  case False
  let ?s = "sentinel tr" and ?lt = "\<lambda>p. node_cmp_proc tr x p < 0"
  have rt: "root tr = ptr ?s t" "root tr \<noteq> ?s"
    using R False by (cases t; auto simp: rep_def)+
  obtain f gs where path: "ins_path ?lt t [] = f # gs"
    and loop: "insert_value_loop m (node_cmp_proc tr) (root tr) x ?s = Some (fnode f, \<exists>p c r. f = FL p c r)"
    using insert_value_loop_spec [of ?s sp m0 m "root tr" "[]" t ?lt "node_cmp_proc tr" x] R False rt
    by (metis list.exhaust_sel plug.simps(1))
  have whole: "plug (f # gs) Lf = t" using plug_ins_path [of ?lt t "[]"] path by simp
  obtain m1 where m1: "default_rbtree_insert_value m tr (root tr) x ?s = Some m1"
    and r1: "rep ?s sp m0 m1 (root tr) (plug (f # gs) (Nd Lf x True Lf))"
    using insert_link [of ?s sp m0 m "root tr" f gs x n] R whole x loop
    by (auto simp: default_rbtree_insert_value_def simp del: plug.simps)
  have "ctx_ok (f # gs) 0" using ctx_ok_ins_path [of "[]" t ?lt] rb path by (simp add: rb_tree_def)
  then have "ins_ok (f # gs) (Nd Lf x True Lf)" by (simp add: ins_ok_def)
  from insert_fixup_spec [OF r1 this] obtain m2 rt2
    where m2: "insert_fixup ?s m1 (root tr) x = Some (m2, rt2)"
      and r2: "rep ?s sp m0 m2 rt2 (plug [] (ins_fix (f # gs) (Nd Lf x True Lf)))" by auto
  from rep_black [OF r2] rep_rt [OF r2] obtain m3 where "rbt_black m2 rt2 = Some m3"
    and "rep ?s sp m0 m3 rt2 (tree_insert ?lt x t)" by (auto simp: tree_insert_def path)
  with m1 m2 rt(2) show ?thesis by (auto simp: rbtree_insert_def Let_def)
qed

end
