(* ===== verification/Ez_Rbtree_Delete.thy ===== *)
theory Ez_Rbtree_Delete
  imports Ez_Rbtree_Refine
begin

text \<open>
  \<^verbatim>\<open>rbtree_delete\<close> of \<open>Ez_Rbtree\<close> computes \<open>tree_delete\<close>: the fixup loop, in which the sentinel's parent
  field stands for the parent of an empty subtree, the replacement of a node by its in-order
  successor, and the whole operation.
\<close>

section \<open>The fixup loop\<close>

lemma rep_parent_short:
  assumes "rep s sp m0 m rt (plug (f # fs) t)" "t = Lf \<Longrightarrow> sp = fnode f"
  shows "rd parent m (ptr s t) = Some (fnode f)"
proof (cases "t = Lf")
  case True
  with assms show ?thesis by (simp add: rep_def rd_def)
next
  case False
  with rep_parent [OF assms(1)] show ?thesis by simp
qed

definition lands ::
    "addr \<Rightarrow> addr \<Rightarrow> rbmem \<Rightarrow> (rbmem \<times> addr \<times> addr) option \<Rightarrow> (frame list \<times> rtree) + rtree \<Rightarrow> bool" where
  "lands s sp m0 res z \<longleftrightarrow> (case z of
      Inl (fs, t) \<Rightarrow> \<exists>m rt. res = Some (m, rt, ptr s t) \<and> rep s sp m0 m rt (plug fs t)
    | Inr T \<Rightarrow> \<exists>m rt. res = Some (m, rt, rt) \<and> rep s sp m0 m rt T)"

lemma delete_rotate_spec:
  assumes R: "rep s sp m0 m rt (plug (FL p c (Nd a w wc b) # fs) t)" and pf: "t = Lf \<Longrightarrow> sp = p"
  shows "\<exists>m' rt'. do {
      p \<leftarrow> rd parent m (ptr s t);
      m \<leftarrow> rbt_copy_color m w p;
      p \<leftarrow> rd parent m (ptr s t);
      m \<leftarrow> rbt_black m p;
      far \<leftarrow> rd right m w;
      m \<leftarrow> rbt_black m far;
      p \<leftarrow> rd parent m (ptr s t);
      (m, rt) \<leftarrow> rbtree_left_rotate m rt s p;
      Some (m, rt, rt)
    } = Some (m', rt', rt') \<and> rep s sp m0 m' rt' (plug fs (Nd (Nd t p False a) w c (paint False b)))"
proof -
  have "rep s sp m0 m rt (plug fs (Nd t p c (Nd a w wc b)))" using R by simp
  from rep_node(5) [OF this] have pcol: "rd color m p = Some (col c)" .
  have "rep s sp m0 m rt (plug (FR t p c # fs) (Nd a w wc b))" using R by simp
  from rep_set_color [OF this, of c] obtain m1 where m1: "rbt_copy_color m w p = Some m1"
    and r1: "rep s sp m0 m1 rt (plug (FL p c (Nd a w c b) # fs) t)"
    using pcol by (auto simp: rbt_copy_color_def)
  from rep_recolor(1) [OF r1] obtain m2 where m2: "rbt_black m1 p = Some m2"
    and r2: "rep s sp m0 m2 rt (plug (FL p False (Nd a w c b) # fs) t)" by auto
  have "rep s sp m0 m2 rt (plug (FR t p False # fs) (Nd a w c b))" using r2 by simp
  from rep_node(2) [OF this] have far: "rd right m2 w = Some (ptr s b)" .
  have "rep s sp m0 m2 rt (plug (FR a w c # FR t p False # fs) b)" using r2 by simp
  from rep_black [OF this] obtain m3 where m3: "rbt_black m2 (ptr s b) = Some m3"
    and r3: "rep s sp m0 m3 rt (plug (FL p False (Nd a w c (paint False b)) # fs) t)" by auto
  have "rep s sp m0 m3 rt (plug fs (Nd t p False (Nd a w c (paint False b))))" using r3 by simp
  from rep_left_rotate [OF this] obtain m4 rt4 where "rbtree_left_rotate m3 rt s p = Some (m4, rt4)"
    and "rep s sp m0 m4 rt4 (plug fs (Nd (Nd t p False a) w c (paint False b)))" by blast
  with m1 m2 m3 far rep_parent_short [OF R] rep_parent_short [OF r1] rep_parent_short [OF r3] pf
  show ?thesis by simp
qed

lemma rep_children_black:
  assumes "rep s sp m0 m rt (plug fs (Nd l p c r))"
  shows "children_black m p = Some (\<not> is_red l \<and> \<not> is_red r)"
    and "children_black (flip m) p = Some (\<not> is_red l \<and> \<not> is_red r)"
proof -
  have cb: "children_black m p = Some (\<not> is_red l \<and> \<not> is_red r)"
    if "rep s sp m0 m rt (plug fs (Nd l p c r))" for m0 m fs l r
  proof -
    have "rep s sp m0 m rt (plug (FL p c r # fs) l)" "rep s sp m0 m rt (plug (FR l p c # fs) r)"
      using that by simp_all
    note rep_is_red(2) [OF this(1)] rep_is_red(2) [OF this(2)]
    then show ?thesis using rep_node(1,2) [OF that] by (simp add: children_black_def)
  qed
  from cb [OF assms] show "children_black m p = Some (\<not> is_red l \<and> \<not> is_red r)" .
  have "rep s sp (flip m0) (flip m) rt (plug (map fmirror fs) (Nd (mirror r) p c (mirror l)))"
    using assms rep_flip [of s sp m0 m rt "plug fs (Nd l p c r)"] by (simp add: mirror_plug)
  from cb [OF this] show "children_black (flip m) p = Some (\<not> is_red l \<and> \<not> is_red r)" by auto
qed

lemma delete_black_left_spec:
  assumes R: "rep s sp m0 m rt (plug (FL p c (Nd a w False b) # fs) t)" and pf: "t = Lf \<Longrightarrow> sp = p"
  shows "lands s sp m0 (delete_black_left s m rt (ptr s t) w) (del_black_l p c (Nd a w False b) fs t)"
proof -
  have W: "rep s sp m0 m rt (plug (FR t p c # fs) (Nd a w False b))" using R by simp
  note cb = rep_children_black(1) [OF W]
  show ?thesis
  proof (cases "\<not> is_red a \<and> \<not> is_red b")
    case True
    from rep_red [OF W] obtain m1 where "rbt_red m w = Some m1"
      and r1: "rep s sp m0 m1 rt (plug (FL p c (Nd a w True b) # fs) t)" by auto
    with True cb rep_parent_short [OF r1] pf show ?thesis
      by (simp add: delete_black_left_def lands_def)
  next
    case False
    have far: "rd right m w = Some (ptr s b)" using rep_node(2) [OF W] .
    have B: "rep s sp m0 m rt (plug (FR a w False # FR t p c # fs) b)" using R by simp
    note fb = rep_is_red(2) [OF B]
    show ?thesis
    proof (cases "is_red b")
      case True
      with False cb far fb delete_rotate_spec [OF R pf] show ?thesis
        by (simp add: delete_black_left_def lands_def)
    next
      case nb: False
      with False obtain a1 y b1 where a: "a = Nd a1 y True b1" by (auto simp: is_red_Nd)
      have "rep s sp m0 m rt (plug (FL w False b # FR t p c # fs) a)" using R by simp
      from rep_black [OF this] a obtain m1 where m1: "rbt_black m y = Some m1"
        and "rep s sp m0 m1 rt (plug (FR t p c # fs) (Nd (Nd a1 y False b1) w False b))" by auto
      from rep_red [OF this(2)] obtain m2 where m2: "rbt_red m1 w = Some m2"
        and "rep s sp m0 m2 rt (plug (FR t p c # fs) (Nd (Nd a1 y False b1) w True b))" by auto
      from rep_right_rotate [OF this(2)] obtain m3 rt3
        where m3: "rbtree_right_rotate m2 rt s w = Some (m3, rt3)"
          and r3: "rep s sp m0 m3 rt3 (plug (FL p c (Nd a1 y False (Nd b1 w True b)) # fs) t)" by auto
      have near: "rd left m w = Some y" using rep_node(1) [OF W] a by simp
      have "rep s sp m0 m3 rt3 (plug fs (Nd t p c (Nd a1 y False (Nd b1 w True b))))" using r3 by simp
      from rep_node(2) [OF this] rep_parent_short [OF r3] pf
      have neww: "rd2 parent right m3 (ptr s t) = Some y" by (simp add: rd2_def)
      from a nb False cb far fb near m1 m2 m3 neww delete_rotate_spec [OF r3 pf] show ?thesis
        by (simp add: delete_black_left_def lands_def)
    qed
  qed
qed

lemma delete_red_left_spec:
  assumes R: "rep s sp m0 m rt (plug (FL p c w # fs) t)" and pf: "t = Lf \<Longrightarrow> sp = p"
    and ok: "del_ok (FL p c w # fs) t"
  shows "rd2 parent right m (ptr s t) = Some (ptr s w)"
    and "\<exists>m' rt' c' a y b fs'. delete_red_left s m rt (ptr s t) (ptr s w) = Some (m', rt', y)
      \<and> rep s sp m0 m' rt' (plug (FL p c' (Nd a y False b) # fs') t)
      \<and> del_step_l p c w fs t = del_black_l p c' (Nd a y False b) fs' t"
proof -
  have P: "rep s sp m0 m rt (plug fs (Nd t p c w))" using R by simp
  have W: "rep s sp m0 m rt (plug (FR t p c # fs) w)" using R by simp
  show "rd2 parent right m (ptr s t) = Some (ptr s w)"
    using rep_parent_short [OF R] pf rep_node(2) [OF P] by (simp add: rd2_def)
  obtain a x xc b where w: "w = Nd a x xc b" using ok by (cases w) (auto simp: del_ok_def)
  show "\<exists>m' rt' c' a y b fs'. delete_red_left s m rt (ptr s t) (ptr s w) = Some (m', rt', y)
      \<and> rep s sp m0 m' rt' (plug (FL p c' (Nd a y False b) # fs') t)
      \<and> del_step_l p c w fs t = del_black_l p c' (Nd a y False b) fs' t"
  proof (cases xc)
    case False
    with w R rep_is_red(1) [OF W] show ?thesis
      by (intro exI [of _ m] exI [of _ rt] exI [of _ c] exI [of _ a] exI [of _ x] exI [of _ b] exI [of _ fs])
        (simp add: delete_red_left_def)
  next
    case True
    then obtain a1 y b1 where a: "a = Nd a1 y False b1" using ok w by (cases a) (auto simp: del_ok_def)
    from rep_black [OF W] w True obtain m1 where m1: "rbt_black m x = Some m1"
      and r1: "rep s sp m0 m1 rt (plug (FL p c (Nd a x False b) # fs) t)" by auto
    from rep_recolor(2) [OF r1] obtain m2 where m2: "rbt_red m1 p = Some m2"
      and r2: "rep s sp m0 m2 rt (plug (FL p True (Nd a x False b) # fs) t)" by auto
    from r2 have "rep s sp m0 m2 rt (plug fs (Nd t p True (Nd a x False b)))" by simp
    from rep_left_rotate [OF this] obtain m3 rt3 where m3: "rbtree_left_rotate m2 rt s p = Some (m3, rt3)"
      and r3: "rep s sp m0 m3 rt3 (plug (FL p True a # FL x False b # fs) t)" by auto
    from r3 have "rep s sp m0 m3 rt3 (plug (FL x False b # fs) (Nd t p True a))" by simp
    from rep_node(2) [OF this] rep_parent_short [OF r3] pf a
    have neww: "rd2 parent right m3 (ptr s t) = Some y" by (simp add: rd2_def)
    have "delete_red_left s m rt (ptr s t) (ptr s w) = Some (m3, rt3, y)"
      using w True rep_is_red(1) [OF W] m1 m2 m3 neww rep_parent_short [OF r1]
        rep_parent_short [OF r2] pf by (simp add: delete_red_left_def)
    with r3 w True a show ?thesis by fastforce
  qed
qed

lemma delete_fix_left_spec:
  assumes "rep s sp m0 m rt (plug (FL p c w # fs) t)" "t = Lf \<Longrightarrow> sp = p" "del_ok (FL p c w # fs) t"
  shows "lands s sp m0 (delete_fix_left s m rt (ptr s t)) (del_step_l p c w fs t)"
  using delete_red_left_spec [OF assms] delete_black_left_spec assms(2)
  by (fastforce simp: delete_fix_left_def)

text \<open>The other side, by the mirror image.\<close>

lemma delete_red_right_flip:
  "delete_red_left s (flip m) rt temp w = map_option (map_prod flip id) (delete_red_right s m rt temp w)"
  unfolding delete_red_left_def delete_red_right_def
  by (simp add: flip_simps case_prod_beta cong: if_cong)

lemma delete_black_right_flip:
  assumes "children_black (flip m) w = children_black m w"
  shows "delete_black_left s (flip m) rt temp w
    = map_option (map_prod flip id) (delete_black_right s m rt temp w)"
  unfolding delete_black_left_def delete_black_right_def assms
  by (simp add: flip_simps case_prod_beta cong: if_cong)

lemma lands_flip:
  "lands s sp (flip m0) (map_option (map_prod flip id) res) z \<longleftrightarrow>
   lands s sp m0 res (case z of Inl (fs, t) \<Rightarrow> Inl (map fmirror fs, mirror t) | Inr T \<Rightarrow> Inr (mirror T))"
proof -
  have "rep s sp (flip m0) (flip m) rt T = rep s sp m0 m rt (mirror T)" for m rt T
    using rep_flip [of s sp m0 m rt "mirror T"] by simp
  then show ?thesis by (auto simp: lands_def mirror_plug split: sum.splits prod.splits)
qed

lemma delete_fix_right_spec:
  assumes R: "rep s sp m0 m rt (plug (FR w p c # fs) t)" and pf: "t = Lf \<Longrightarrow> sp = p"
    and ok: "del_ok (FR w p c # fs) t"
  shows "lands s sp m0 (delete_fix_right s m rt (ptr s t)) (del_step (FR w p c) fs t)"
proof -
  have R': "rep s sp (flip m0) (flip m) rt (plug (FL p c (mirror w) # map fmirror fs) (mirror t))"
    using R rep_flip [of s sp m0 m rt "plug (FR w p c # fs) t"] by (simp add: mirror_plug del: plug.simps)
  have ok': "del_ok (FL p c (mirror w) # map fmirror fs) (mirror t)"
    using ok del_ok_mirror [of "FR w p c # fs" t] by simp
  from delete_red_left_spec(2) [OF R' _ ok'] pf obtain m1 rt1 c' a y b fs'
    where red: "delete_red_left s (flip m) rt (ptr s t) (ptr s w) = Some (m1, rt1, y)"
      and r1: "rep s sp (flip m0) m1 rt1 (plug (FL p c' (Nd a y False b) # fs') (mirror t))"
      and step: "del_step_l p c (mirror w) (map fmirror fs) (mirror t)
        = del_black_l p c' (Nd a y False b) fs' (mirror t)" by auto
  from red have red': "delete_red_right s m rt (ptr s t) (ptr s w) = Some (flip m1, rt1, y)"
    by (auto simp: delete_red_right_flip)
  have "rd2 parent left m (ptr s t) = Some (ptr s w)"
    using delete_red_left_spec(1) [OF R' _ ok'] pf by (simp add: flip_simps)
  with red' have "delete_fix_right s m rt (ptr s t) = delete_black_right s (flip m1) rt1 (ptr s t) y"
    by (simp add: delete_fix_right_def)
  moreover have "rep s sp (flip m0) m1 rt1 (plug (FR (mirror t) p c' # fs') (Nd a y False b))"
    using r1 by simp
  from rep_children_black [OF this]
  have "map_option (map_prod flip id) (delete_black_right s (flip m1) rt1 (ptr s t) y)
      = delete_black_left s m1 rt1 (ptr s t) y"
    using delete_black_right_flip [of "flip m1" y s rt1 "ptr s t"] by simp
  moreover have "lands s sp (flip m0) (delete_black_left s m1 rt1 (ptr s t) y)
      (del_step_l p c (mirror w) (map fmirror fs) (mirror t))"
    using delete_black_left_spec [OF r1] pf step by simp
  ultimately show ?thesis using lands_flip [of s sp m0 "delete_fix_right s m rt (ptr s t)"] by simp
qed

lemma del_ok_sib: "del_ok (f # fs) t \<Longrightarrow> sib f \<noteq> Lf"
  by (auto simp: del_ok_def)

lemma del_step_Inl_Nd: "del_step f fs t = Inl (fs', t') \<Longrightarrow> t' \<noteq> Lf"
proof -
  have bl: "del_black_l p c w fs t = Inl (fs', t') \<Longrightarrow> t' \<noteq> Lf" for p c w fs t fs' t'
    by (cases w) (auto split: if_splits rtree.splits)
  have "del_step_l p c w fs t = Inl (fs', t') \<Longrightarrow> t' \<noteq> Lf" for p c w fs t fs' t'
    using bl by (cases "is_red w") (auto simp: del_step_l_black is_red_Nd dest: bl)
  then show "del_step f fs t = Inl (fs', t') \<Longrightarrow> t' \<noteq> Lf"
    by (cases f) (auto split: sum.splits)
qed

lemma delete_step_spec:
  assumes R: "rep s sp m0 m rt (plug (f # fs) t)" and pf: "t = Lf \<Longrightarrow> sp = fnode f"
    and ok: "del_ok (f # fs) t"
  shows "lands s sp m0 (do {
      pl \<leftarrow> rd2 parent left m (ptr s t);
      (if ptr s t = pl then delete_fix_left s m rt (ptr s t) else delete_fix_right s m rt (ptr s t))
    }) (del_step f fs t)"
proof -
  have "ptr s t \<noteq> ptr s (sib f)" using rep_sib_neq [OF R] del_ok_sib [OF ok] by simp
  moreover have "rep s sp m0 m rt (plug fs (plug1 f t))" using R by simp
  then have "rd left m (fnode f) = Some (case f of FL _ _ _ \<Rightarrow> ptr s t | FR l _ _ \<Rightarrow> ptr s l)"
    using rep_node(1) [of s sp m0 m rt fs _ "fnode f"] by (cases f) auto
  ultimately show ?thesis
    using rep_parent_short [OF R pf] delete_fix_left_spec [of s sp m0 m rt "fnode f" _ "sib f" fs t]
      delete_fix_right_spec [of s sp m0 m rt "sib f" "fnode f" _ fs t] R pf ok
    by (cases f) (simp_all add: rd2_def del: plug.simps)
qed

lemma delete_fixup_spec:
  assumes "rep s sp m0 m rt (plug fs t)" "del_ok fs t" "t = Lf \<Longrightarrow> fs \<noteq> [] \<Longrightarrow> sp = fnode (hd fs)"
  shows "\<exists>m' rt'. delete_fixup s m rt (ptr s t) = Some (m', rt') \<and> rep s sp m0 m' rt' (del_fix fs t)"
  using assms
proof (induction fs t arbitrary: m rt rule: del_fix.induct)
  case (1 t)
  have "ptr s t = rt" using 1(1) by (simp add: rep_def)
  with 1 rep_black [of s sp m0 m rt "[]" t] show ?case by (auto simp: delete_fixup.simps)
next
  case (2 f fs t)
  note R = "2.prems"(1)
  have root: "ptr s t \<noteq> rt" using rep_root_neq [OF R] by simp
  note black = rep_is_red(2) [OF R]
  show ?case
  proof (cases "is_red t")
    case True
    with root black rep_black [OF R] show ?thesis by (subst delete_fixup.simps) auto
  next
    case False
    note turn = delete_step_spec [OF R _ "2.prems"(2)] zip_ok_del_step [OF "2.prems"(2) False]
    show ?thesis
    proof (cases "del_step f fs t")
      case (Inl z)
      obtain fs' t' where z: "z = (fs', t')" by (cases z)
      from turn Inl z "2.prems"(3) obtain m1 rt1 pl
        where m1: "rd2 parent left m (ptr s t) = Some pl"
          "(if ptr s t = pl then delete_fix_left s m rt (ptr s t) else delete_fix_right s m rt (ptr s t))
            = Some (m1, rt1, ptr s t')"
          and r1: "rep s sp m0 m1 rt1 (plug fs' t')" and ok: "del_ok fs' t'"
        by (auto simp: lands_def bind_eq_Some_conv simp del: plug.simps del_step.simps)
      from "2.IH" [OF False Inl z [symmetric] r1 ok] del_step_Inl_Nd [of f fs t fs' t'] Inl z
      obtain m2 rt2 where "delete_fixup s m1 rt1 (ptr s t') = Some (m2, rt2)"
        "rep s sp m0 m2 rt2 (del_fix fs' t')" by auto
      with m1 root black False Inl z show ?thesis
        by (subst delete_fixup.simps) (simp del: plug.simps del_step.simps)
    next
      case (Inr T)
      from turn Inr "2.prems"(3) obtain m1 rt1 pl
        where m1: "rd2 parent left m (ptr s t) = Some pl"
          "(if ptr s t = pl then delete_fix_left s m rt (ptr s t) else delete_fix_right s m rt (ptr s t))
            = Some (m1, rt1, rt1)"
          and r1: "rep s sp m0 m1 rt1 (plug [] T)"
        by (auto simp: lands_def bind_eq_Some_conv simp del: del_step.simps)
      from rep_black [OF r1] rep_rt [OF r1] obtain m2 where "rbt_black m1 rt1 = Some m2"
        "rep s sp m0 m2 rt1 (paint False T)" by auto
      with m1 root black False Inr show ?thesis
        by (subst delete_fixup.simps) (simp add: delete_fixup.simps [of s m1 rt1 rt1] del: plug.simps del_step.simps)
    qed
  qed
qed

section \<open>Taking a node out\<close>

lemma ctx_at_cong:
  "agree_on (cnodes fs) m m' \<Longrightarrow> ctx_at m' s par fs x = ctx_at m s par fs x"
proof (induction fs x rule: ctx_at.induct)
  case (2 m s par p c r fs x)
  then have "agree_on (set (nodes r)) m m'" "agree_on (cnodes fs) m m'" "m' p = m p"
    by (auto simp: agree_on_def)
  with 2(1) tree_at_cong show ?case by simp
next
  case (3 m s par l p c fs x)
  then have "agree_on (set (nodes l)) m m'" "agree_on (cnodes fs) m m'" "m' p = m p"
    by (auto simp: agree_on_def)
  with 3(1) tree_at_cong show ?case by simp
qed simp

lemma agree_on_restore:
  "agree_on (- insert s (insert x A)) m0 m \<Longrightarrow> m x = v \<Longrightarrow> agree_on (- insert s A) (m0(x := v)) m"
  unfolding agree_on_def by (metis Compl_iff fun_upd_apply insert_iff)

lemma rep_clear_links:
  assumes "rep s sp (m0(x := nx)) m rt t" "m x = Some n" "x \<notin> insert s (set (nodes t))"
  shows "\<exists>m'. clear_links m x = Some m'
    \<and> rep s sp (m0(x \<mapsto> \<lparr>left = NULL, right = NULL, parent = NULL, color = color n\<rparr>)) m' rt t"
proof -
  let ?n = "\<lparr>left = NULL, right = NULL, parent = NULL, color = color n\<rparr>"
  have "clear_links m x = Some (m(x \<mapsto> ?n))"
    using assms(2) by (cases n) (simp add: clear_links_def mem_simps)
  moreover have "agree_on (- insert s (set (nodes t))) (m0(x \<mapsto> ?n)) (m(x \<mapsto> ?n))"
    using assms(1) unfolding rep_def agree_on_def by (metis fun_upd_apply)
  ultimately show ?thesis using assms(1,3) by (auto simp: rep_def)
qed

text \<open>The parent's child link and a subtree's parent field, written alone.\<close>

lemma link_spec:
  assumes "ctx_at m s par (f # fs) x" "cdist (f # fs)" "x \<noteq> ptr s (sib f)"
  shows "\<exists>m'. do {
      npl \<leftarrow> rd left m (fnode f);
      (if x = npl then wr m (fnode f) (\<lambda>n. n\<lparr>left := y\<rparr>) else wr m (fnode f) (\<lambda>n. n\<lparr>right := y\<rparr>))
    } = Some m' \<and> ctx_at m' s par (f # fs) y \<and> agree_on (- {fnode f}) m m'"
  using assms by (cases f) (auto simp: mem_simps)

lemma set_parent_spec:
  assumes "tree_at m s q t" "distinct (nodes t)" "s \<notin> set (nodes t)"
    and "m s = Some \<lparr>left = NULL, right = NULL, parent = sp, color = 0\<rparr>"
  shows "\<exists>m' sp'. wr m (ptr s t) (\<lambda>n. n\<lparr>parent := y\<rparr>) = Some m' \<and> tree_at m' s y t
    \<and> m' s = Some \<lparr>left = NULL, right = NULL, parent = sp', color = 0\<rparr> \<and> (t = Lf \<longrightarrow> sp' = y)
    \<and> agree_on (- insert s (set (nodes t))) m m'"
  using assms by (cases t) (auto simp: mem_simps)

lemma tree_at_reparent:
  assumes "tree_at m s q t" "distinct (nodes t)" "s \<notin> set (nodes t)"
  shows "\<exists>m'. (if ptr s t \<noteq> s then wr m (ptr s t) (\<lambda>n. n\<lparr>parent := y\<rparr>) else Some m) = Some m'
    \<and> tree_at m' s y t \<and> agree_on (- set (nodes t)) m m'"
  using assms by (cases t) (auto simp: mem_simps)

text \<open>A node with at most one child: its parent gets the child.\<close>

lemma splice_spec:
  assumes R: "rep s sp m0 m rt (plug (f # fs) (Nd l x c r))"
    and t: "l = Lf \<and> t = r \<or> r = Lf \<and> t = l"
  shows "\<exists>m' sp'. do {
      p \<leftarrow> rd parent m x;
      pl \<leftarrow> rd left m p;
      m \<leftarrow> (if x = pl then wr m p (\<lambda>n. n\<lparr>left := ptr s t\<rparr>) else wr m p (\<lambda>n. n\<lparr>right := ptr s t\<rparr>));
      p \<leftarrow> rd parent m x;
      wr m (ptr s t) (\<lambda>n. n\<lparr>parent := p\<rparr>)
    } = Some m' \<and> m' x = m x \<and> rep s sp' (m0(x := m x)) m' rt (plug (f # fs) t)
      \<and> (t = Lf \<longrightarrow> sp' = fnode f)"
proof -
  let ?p = "fnode f" and ?C = "cnodes (f # fs)"
  from R obtain par where C: "ctx_at m s par (f # fs) x" and T: "tree_at m s x t"
    and px: "rd parent m x = Some ?p"
    using t by (auto simp: rep_def tree_at_plug rd_def simp del: plug.simps ctx_at.simps)
  have d: "distinct (nodes t)" "cdist (f # fs)" "set (nodes t) \<inter> ?C = {}" "x \<notin> ?C" "x \<notin> set (nodes t)"
    "s \<noteq> x" "s \<notin> set (nodes t)" "s \<notin> ?C" "NULL \<notin> insert s (insert x (set (nodes t) \<union> ?C))"
    and fr: "agree_on (- insert s (insert x (set (nodes t) \<union> ?C))) m0 m"
    and S: "m s = Some \<lparr>left = NULL, right = NULL, parent = sp, color = 0\<rparr>"
    and rt: "rt = ptr s (plug (f # fs) t)"
    using R t by (auto simp: rep_def distinct_nodes_plug set_nodes_plug ptr_plug simp del: plug.simps cnodes.simps cdist.simps)
  have pC: "?p \<in> ?C" by (cases f) auto
  from link_spec [OF C d(2), of "ptr s t"] rep_sib_neq [OF R] obtain m1 where
    m1: "do {
      npl \<leftarrow> rd left m ?p;
      (if x = npl then wr m ?p (\<lambda>n. n\<lparr>left := ptr s t\<rparr>) else wr m ?p (\<lambda>n. n\<lparr>right := ptr s t\<rparr>))
    } = Some m1" and C1: "ctx_at m1 s par (f # fs) (ptr s t)" and a1: "agree_on (- {?p}) m m1"
    by auto
  have "agree_on (set (nodes t)) m m1" using a1 d(3) pC by (auto simp: agree_on_def)
  from tree_at_cong [OF this] T have T1: "tree_at m1 s x t" by simp
  have "s \<noteq> ?p" "x \<noteq> ?p" using pC d by metis+
  then have "m1 s = m s" "m1 x = m x" using agree_onD [OF a1] by auto
  with set_parent_spec [OF T1 d(1) d(7), of sp ?p] S obtain m2 sp'
    where m2: "wr m1 (ptr s t) (\<lambda>n. n\<lparr>parent := ?p\<rparr>) = Some m2" and T2: "tree_at m2 s ?p t"
      and S2: "m2 s = Some \<lparr>left = NULL, right = NULL, parent = sp', color = 0\<rparr>" "t = Lf \<longrightarrow> sp' = ?p"
      and a2: "agree_on (- insert s (set (nodes t))) m1 m2" by auto
  have "agree_on ?C m1 m2" using a2 d by (auto simp: agree_on_def simp del: cnodes.simps)
  from ctx_at_cong [OF this] C1 have C2: "ctx_at m2 s par (f # fs) (ptr s t)" by simp
  have x2: "m2 x = m x" using a2 d \<open>m1 x = m x\<close> by (auto simp: agree_on_def)
  have "agree_on (- insert s (insert x (set (nodes t) \<union> ?C))) m0 m2"
    using agree_on_trans [OF fr agree_on_trans [OF agree_on_mono [OF a1] agree_on_mono [OF a2]]] pC by auto
  from agree_on_restore [OF this x2]
  have "agree_on (- insert s (set (nodes t) \<union> ?C)) (m0(x := m x)) m2" .
  moreover have "tree_at m2 s par (plug (f # fs) t)" using T2 C2 by (simp add: tree_at_plug del: plug.simps)
  ultimately have "rep s sp' (m0(x := m x)) m2 rt (plug (f # fs) t)"
    using d S2(1) rt unfolding rep_def distinct_nodes_plug set_nodes_plug by blast
  moreover have "rd parent m1 x = Some ?p" using px \<open>m1 x = m x\<close> by (simp add: rd_def)
  moreover from m1 obtain y where "rd left m ?p = Some y"
    "(if x = y then wr m ?p (\<lambda>n. n\<lparr>left := ptr s t\<rparr>) else wr m ?p (\<lambda>n. n\<lparr>right := ptr s t\<rparr>)) = Some m1"
    by (auto simp: bind_eq_Some_conv)
  ultimately show ?thesis using m2 px x2 S2(2) by (intro exI [of _ m2] exI [of _ sp']) simp
qed

text \<open>\<open>y\<close> takes the place of \<open>x\<close>, whose subtrees may have roots with any parent field.\<close>

lemma ctx_at_relink:
  assumes "ctx_at m s par fs x" "cdist fs" "x \<notin> cnodes fs"
    and rt: "rt = (if fs = [] then x else fnode (last fs))"
    and "rd parent m x = Some (up par fs)" "fs \<noteq> [] \<Longrightarrow> x \<noteq> ptr s (sib (hd fs))"
  shows "\<exists>m' rt'. (if x = rt then Some (m, y)
        else do {
          np \<leftarrow> rd parent m x;
          npl \<leftarrow> rd left m np;
          m \<leftarrow> (if x = npl then wr m np (\<lambda>n. n\<lparr>left := y\<rparr>) else wr m np (\<lambda>n. n\<lparr>right := y\<rparr>));
          Some (m, rt)
        }) = Some (m', rt') \<and> rt' = (if fs = [] then y else fnode (last fs))
      \<and> ctx_at m' s par fs y \<and> agree_on (- cnodes fs) m m'"
proof (cases fs)
  case (Cons f gs)
  have "fnode (last fs) \<in> cnodes fs" using Cons fnode_last_in [of fs] by blast
  then have "x \<noteq> rt" using assms(3) rt Cons by auto
  moreover have "agree_on (- cnodes fs) m m'" if "agree_on (- {fnode f}) m m'" for m'
    by (rule agree_on_mono [OF that]) (cases f; use Cons in auto)
  ultimately show ?thesis using assms Cons link_spec [of m s par f gs x y]
    by (fastforce simp: bind_eq_Some_conv)
qed (use assms in simp)

lemma delete_takeover_spec:
  assumes x: "m x = Some \<lparr>left = ptr s l, right = ptr s r, parent = up par fs, color = col c\<rparr>"
    and y: "m y = Some ny"
    and l: "tree_at m s q1 l" and r: "tree_at m s q2 r" and fs: "ctx_at m s par fs x"
    and dx: "distinct (nodes (plug fs (Nd l x c r)))" and dy: "distinct (nodes (plug fs (Nd l y c r)))"
    and xy: "x \<noteq> y" and s: "s \<notin> set (nodes (plug fs (Nd l x c r)))" "s \<noteq> y"
    and rt: "rt = ptr s (plug fs (Nd l x c r))"
  shows "\<exists>m' rt'. delete_takeover m rt s x y = Some (m', rt') \<and> rt' = ptr s (plug fs (Nd l y c r))
    \<and> tree_at m' s par (plug fs (Nd l y c r)) \<and> agree_on (- set (nodes (plug fs (Nd l y c r)))) m m'"
proof -
  let ?ny = "\<lparr>left = ptr s l, right = ptr s r, parent = up par fs, color = col c\<rparr>"
  let ?m1 = "m(y \<mapsto> ?ny)"
  note d = dx [unfolded distinct_nodes_plug] dy [unfolded distinct_nodes_plug] s [unfolded set_nodes_plug]
  have sib: "x \<noteq> ptr s (sib (hd fs))" if "fs \<noteq> []"
    using d that by (cases fs; cases "hd fs"; cases "sib (hd fs)") auto
  have "ctx_at ?m1 s par fs x" using fs d by simp
  moreover have rt': "rt = (if fs = [] then x else fnode (last fs))" using rt by (simp add: ptr_plug)
  ultimately obtain m2 rt2
    where m2: "(if x = rt then Some (?m1, y)
        else do {
          np \<leftarrow> rd parent ?m1 x;
          npl \<leftarrow> rd left ?m1 np;
          m \<leftarrow> (if x = npl then wr ?m1 np (\<lambda>n. n\<lparr>left := y\<rparr>) else wr ?m1 np (\<lambda>n. n\<lparr>right := y\<rparr>));
          Some (m, rt)
        }) = Some (m2, rt2)" "rt2 = (if fs = [] then y else fnode (last fs))"
      and fs2: "ctx_at m2 s par fs y" and a2: "agree_on (- cnodes fs) ?m1 m2"
    using ctx_at_relink [of ?m1 s par fs x rt y] d x xy sib by (auto simp: rd_def)
  have outl: "q \<notin> cnodes fs \<and> q \<noteq> y \<and> q \<notin> set (nodes r)" if "q \<in> set (nodes l)" for q
    using d that by auto
  have outr: "q \<notin> cnodes fs \<and> q \<noteq> y \<and> q \<notin> set (nodes l)" if "q \<in> set (nodes r)" for q
    using d that by auto
  have outc: "q \<notin> set (nodes l) \<and> q \<notin> set (nodes r)" if "q \<in> cnodes fs" for q
    using d that by auto
  have agl: "agree_on (set (nodes l)) m m2" "agree_on (set (nodes r)) m m2"
    using agree_onD [OF a2] outl outr by (auto intro!: agree_onI)
  from tree_at_cong [OF agl(1)] l have "tree_at m2 s q1 l" by simp
  from tree_at_reparent [OF this, of y] d obtain m3
    where m3: "(if ptr s l \<noteq> s then wr m2 (ptr s l) (\<lambda>n. n\<lparr>parent := y\<rparr>) else Some m2) = Some m3"
      and l3: "tree_at m3 s y l" and a3: "agree_on (- set (nodes l)) m2 m3" by auto
  have "agree_on (set (nodes r)) m m3" using agree_onD [OF a3] agree_onD [OF agl(2)] outr by (auto intro!: agree_onI)
  from tree_at_cong [OF this] r have "tree_at m3 s q2 r" by simp
  from tree_at_reparent [OF this, of y] d obtain m4
    where m4: "(if ptr s r \<noteq> s then wr m3 (ptr s r) (\<lambda>n. n\<lparr>parent := y\<rparr>) else Some m3) = Some m4"
      and r4: "tree_at m4 s y r" and a4: "agree_on (- set (nodes r)) m3 m4" by auto
  have y2: "m2 y = Some ?ny" using agree_onD [OF a2, of y] d by auto
  have y3: "m3 y = Some ?ny" using agree_onD [OF a3, of y] y2 d by auto
  have y4: "m4 y = Some ?ny" using agree_onD [OF a4, of y] y3 d by auto
  have "agree_on (set (nodes l)) m3 m4" using agree_onD [OF a4] outl by (auto intro!: agree_onI)
  from tree_at_cong [OF this] l3 have l4: "tree_at m4 s y l" by simp
  have "agree_on (cnodes fs) m2 m4"
    using agree_onD [OF a3] agree_onD [OF a4] outc by (auto intro!: agree_onI)
  from ctx_at_cong [OF this] fs2 have fs4: "ctx_at m4 s par fs y" by simp
  have "agree_on (- set (nodes (plug fs (Nd l y c r)))) m m4"
  proof (rule agree_onI)
    fix q assume "q \<in> - set (nodes (plug fs (Nd l y c r)))"
    then have "q \<notin> cnodes fs" "q \<noteq> y" "q \<notin> set (nodes l)" "q \<notin> set (nodes r)"
      by (auto simp: set_nodes_plug)
    with agree_onD [OF a2, of q] agree_onD [OF a3, of q] agree_onD [OF a4, of q] show "m q = m4 q" by simp
  qed
  moreover have "tree_at m4 s par (plug fs (Nd l y c r))"
    using y4 l4 r4 fs4 by (simp add: tree_at_plug)
  moreover have "delete_takeover m rt s x y = Some (m4, rt2)"
    using x y xy m2 m3 m4 y2 y3
    by (simp add: delete_takeover_def mem_simps rbt_copy_color_def)
  ultimately show ?thesis using m2(2) by (auto simp: ptr_plug)
qed

lemma min_path_append: "min_path t fs = (gs, u) \<Longrightarrow> min_path t (fs @ hs) = (gs @ hs, u)"
  by (induction t fs rule: min_path.induct) auto

lemma min_path_plug: "min_path t fs = (gs, u) \<Longrightarrow> plug gs u = plug fs t"
  by (induction t fs rule: min_path.induct) auto

lemma rd_parent_link:
  "(if b then wr m p (\<lambda>n. n\<lparr>left := v\<rparr>) else wr m p (\<lambda>n. n\<lparr>right := v\<rparr>)) = Some m' \<Longrightarrow>
     rd parent m' q = rd parent m q"
  by (auto simp: wr_eq_Some_conv rd_def split: if_splits)

lemma cnodes_append: "cnodes (fs @ gs) = cnodes fs \<union> cnodes gs"
  by (induction fs rule: cnodes.induct) auto

text \<open>The in-order successor leaves its place, before it takes the place of \<open>x\<close>.\<close>

lemma unlink_successor:
  assumes R: "rep s sp m0 m rt (plug fs (Nd l x c r))" and path: "min_path r [] = (gs, Nd Lf y yc yr)"
    and l: "l \<noteq> Lf"
  shows "\<exists>m1 sp' q par. do {
      p \<leftarrow> rd parent m y;
      pl \<leftarrow> rd left m p;
      m \<leftarrow> (if y = pl then wr m p (\<lambda>n. n\<lparr>left := ptr s yr\<rparr>) else wr m p (\<lambda>n. n\<lparr>right := ptr s yr\<rparr>));
      p \<leftarrow> rd parent m y;
      (if p = x then wr m (ptr s yr) (\<lambda>n. n\<lparr>parent := y\<rparr>)
       else do { p \<leftarrow> rd parent m y; wr m (ptr s yr) (\<lambda>n. n\<lparr>parent := p\<rparr>) })
    } = Some m1 \<and> m1 y = m y
      \<and> m1 x = Some \<lparr>left = ptr s l, right = ptr s (plug gs yr), parent = up par fs, color = col c\<rparr>
      \<and> tree_at m1 s x l \<and> tree_at m1 s q (plug gs yr) \<and> ctx_at m1 s par fs x
      \<and> m1 s = Some \<lparr>left = NULL, right = NULL, parent = sp', color = 0\<rparr>
      \<and> (yr = Lf \<longrightarrow> sp' = fnode (hd (gs @ FR l y c # fs)))
      \<and> agree_on (- insert s (insert y (set (nodes (plug fs (Nd l x c (plug gs yr))))))) m0 m1"
  (is "\<exists>m1 sp' q par. ?code = Some m1 \<and> _ m1 sp' q par")
proof (cases gs)
  case Nil
  with min_path_plug [OF path] have r: "r = Nd Lf y yc yr" by simp
  from R obtain par where "tree_at m s par (plug fs (Nd l x c r))" by (auto simp: rep_def)
  with R r have x: "m x = Some \<lparr>left = ptr s l, right = y, parent = up par fs, color = col c\<rparr>"
    and y: "rd parent m y = Some x" and L: "tree_at m s x l" and Y: "tree_at m s y yr"
    and C: "ctx_at m s par fs x" and S: "m s = Some \<lparr>left = NULL, right = NULL, parent = sp, color = 0\<rparr>"
    by (auto simp: tree_at_plug rep_def rd_def)
  have d: "distinct (nodes yr)" "distinct (nodes l)" "s \<notin> set (nodes yr)" "x \<notin> set (nodes yr)"
    "x \<notin> set (nodes l)" "x \<noteq> y" "x \<noteq> s" "y \<noteq> s" "x \<notin> cnodes fs" "s \<notin> set (nodes l)" "s \<notin> cnodes fs" "y \<notin> set (nodes yr)"
    "\<And>q. q \<in> set (nodes l) \<Longrightarrow> q \<notin> set (nodes yr)" "\<And>q. q \<in> cnodes fs \<Longrightarrow> q \<notin> set (nodes yr)"
    "y \<noteq> ptr s l"
    and fr: "agree_on (- insert s (set (nodes (plug fs (Nd l x c r))))) m0 m"
    using R l r by (cases l; auto simp: rep_focus)+
  let ?m1 = "m(x \<mapsto> \<lparr>left = ptr s l, right = ptr s yr, parent = up par fs, color = col c\<rparr>)"
  have "tree_at ?m1 s y yr" "?m1 s = m s" using Y d by simp_all
  from set_parent_spec [OF this(1) d(1,3), of sp y] this(2) S obtain m2 sp'
    where m2: "wr ?m1 (ptr s yr) (\<lambda>n. n\<lparr>parent := y\<rparr>) = Some m2" and Y2: "tree_at m2 s y yr"
      and S2: "m2 s = Some \<lparr>left = NULL, right = NULL, parent = sp', color = 0\<rparr>" "yr = Lf \<longrightarrow> sp' = y"
      and a2: "agree_on (- insert s (set (nodes yr))) ?m1 m2" by auto
  have "rd parent ?m1 y = Some x" using y d by simp
  then have "?code = Some m2" using x y m2 d by (simp add: mem_simps)
  moreover have "m2 x = ?m1 x" "m2 y = m y" using agree_onD [OF a2] d by simp_all
  moreover have "agree_on (set (nodes l)) ?m1 m2" "agree_on (cnodes fs) ?m1 m2"
    by (rule agree_on_mono [OF a2]; use d in blast)+
  with tree_at_cong ctx_at_cong have "tree_at m2 s x l" "ctx_at m2 s par fs x" using L C d by simp_all
  moreover have "agree_on (- insert s (insert y (set (nodes (plug fs (Nd l x c yr)))))) m0 m2"
  proof (rule agree_onI)
    fix q assume "q \<in> - insert s (insert y (set (nodes (plug fs (Nd l x c yr)))))"
    then show "m0 q = m2 q" using agree_onD [OF a2, of q] agree_onD [OF fr, of q] r
      by (simp add: set_nodes_plug)
  qed
  ultimately show ?thesis using Nil Y2 S2 by auto
next
  case (Cons g gs')
  have whole: "plug (gs @ FR l x c # fs) (Nd Lf y yc yr) = plug fs (Nd l x c r)"
    using min_path_plug [OF path] by (simp add: plug_append)
  with R Cons have R': "rep s sp m0 m rt (plug (g # gs' @ FR l x c # fs) (Nd Lf y yc yr))" by simp
  from splice_spec [OF this, of yr] obtain m1 sp' where m1: "do {
      p \<leftarrow> rd parent m y;
      pl \<leftarrow> rd left m p;
      m \<leftarrow> (if y = pl then wr m p (\<lambda>n. n\<lparr>left := ptr s yr\<rparr>) else wr m p (\<lambda>n. n\<lparr>right := ptr s yr\<rparr>));
      p \<leftarrow> rd parent m y;
      wr m (ptr s yr) (\<lambda>n. n\<lparr>parent := p\<rparr>)
    } = Some m1" "m1 y = m y" and R1: "rep s sp' (m0(y := m y)) m1 rt (plug (gs @ FR l x c # fs) yr)"
      and sp': "yr = Lf \<longrightarrow> sp' = fnode g" using Cons by auto
  have "rep s sp' (m0(y := m y)) m1 rt (plug fs (Nd l x c (plug gs yr)))"
    using R1 by (simp add: plug_append)
  then obtain par where rest: "tree_at m1 s par (plug fs (Nd l x c (plug gs yr)))"
      "m1 s = Some \<lparr>left = NULL, right = NULL, parent = sp', color = 0\<rparr>"
      "agree_on (- insert s (set (nodes (plug fs (Nd l x c (plug gs yr)))))) (m0(y := m y)) m1"
    by (auto simp: rep_def)
  have "agree_on (- insert s (insert y (set (nodes (plug fs (Nd l x c (plug gs yr))))))) m0 m1"
    by (rule agree_onI) (use agree_onD [OF rest(3)] in simp)
  moreover have "x \<noteq> fnode g"
    using R' Cons by (cases g) (auto simp: rep_def distinct_nodes_plug cnodes_append)
  from m1(1) rep_parent [OF R'] obtain pl m' where "rd left m (fnode g) = Some pl"
    and m': "(if y = pl then wr m (fnode g) (\<lambda>n. n\<lparr>left := ptr s yr\<rparr>)
      else wr m (fnode g) (\<lambda>n. n\<lparr>right := ptr s yr\<rparr>)) = Some m'"
    and "do { p \<leftarrow> rd parent m' y; wr m' (ptr s yr) (\<lambda>n. n\<lparr>parent := p\<rparr>) } = Some m1"
    by (auto simp: bind_eq_Some_conv)
  with rep_parent [OF R'] rd_parent_link [OF m', of y] \<open>x \<noteq> fnode g\<close> have "?code = Some m1" by simp
  ultimately show ?thesis using m1(2) rest sp' Cons by (auto simp: tree_at_plug)
qed

lemma delete_unlink_two_eq:
  assumes "x \<noteq> y"
  shows "delete_unlink m rt s x y t = Option.bind (do {
      p \<leftarrow> rd parent m y;
      pl \<leftarrow> rd left m p;
      m \<leftarrow> (if y = pl then wr m p (\<lambda>n. n\<lparr>left := t\<rparr>) else wr m p (\<lambda>n. n\<lparr>right := t\<rparr>));
      p \<leftarrow> rd parent m y;
      (if p = x then wr m t (\<lambda>n. n\<lparr>parent := y\<rparr>)
       else do { p \<leftarrow> rd parent m y; wr m t (\<lambda>n. n\<lparr>parent := p\<rparr>) })
    }) (\<lambda>m. delete_takeover m rt s x y)"
  using assms by (simp add: delete_unlink_def delete_replace_def)

lemma delete_unlink_two:
  assumes R: "rep s sp m0 m rt (plug fs (Nd l x c r))" and path: "min_path r [] = (gs, Nd Lf y yc yr)"
    and l: "l \<noteq> Lf"
  shows "\<exists>m' rt' sp' n. delete_unlink m rt s x y (ptr s yr) = Some (m', rt') \<and> m' x = Some n
    \<and> color n = col c \<and> rep s sp' (m0(x := m' x)) m' rt' (plug (gs @ FR l y c # fs) yr)
    \<and> (yr = Lf \<longrightarrow> sp' = fnode (hd (gs @ FR l y c # fs)))"
proof -
  let ?r = "plug gs yr"
  have "before gs = []" using min_path_left [OF path] by simp
  then have nr: "nodes r = y # nodes ?r" using nodes_min_path [OF path] by (simp add: nodes_plug)
  from R nr have d: "distinct (nodes (plug fs (Nd l x c ?r)))" "distinct (nodes (plug fs (Nd l y c ?r)))"
    "x \<noteq> y" "s \<notin> set (nodes (plug fs (Nd l x c ?r)))" "s \<noteq> y"
    "s \<notin> set (nodes (plug fs (Nd l y c ?r)))" "NULL \<notin> insert s (set (nodes (plug fs (Nd l y c ?r))))"
    "x \<notin> set (nodes (plug fs (Nd l y c ?r)))"
    and rt: "rt = ptr s (plug fs (Nd l x c ?r))"
    by (auto simp: rep_def nodes_plug ptr_plug)
  have "rep s sp m0 m rt (plug (gs @ FR l x c # fs) (Nd Lf y yc yr))"
    using R min_path_plug [OF path] by (simp add: plug_append)
  from rep_node(1) [OF this] obtain ny where y: "m y = Some ny" by (auto simp: rd_def)
  from unlink_successor [OF R path l] obtain m1 sp' q par
    where m1: "do {
      p \<leftarrow> rd parent m y;
      pl \<leftarrow> rd left m p;
      m \<leftarrow> (if y = pl then wr m p (\<lambda>n. n\<lparr>left := ptr s yr\<rparr>) else wr m p (\<lambda>n. n\<lparr>right := ptr s yr\<rparr>));
      p \<leftarrow> rd parent m y;
      (if p = x then wr m (ptr s yr) (\<lambda>n. n\<lparr>parent := y\<rparr>)
       else do { p \<leftarrow> rd parent m y; wr m (ptr s yr) (\<lambda>n. n\<lparr>parent := p\<rparr>) })
    } = Some m1" "m1 y = m y"
      and x1: "m1 x = Some \<lparr>left = ptr s l, right = ptr s ?r, parent = up par fs, color = col c\<rparr>"
      and T: "tree_at m1 s x l" "tree_at m1 s q ?r" "ctx_at m1 s par fs x"
      and S: "m1 s = Some \<lparr>left = NULL, right = NULL, parent = sp', color = 0\<rparr>"
        "yr = Lf \<longrightarrow> sp' = fnode (hd (gs @ FR l y c # fs))"
      and a1: "agree_on (- insert s (insert y (set (nodes (plug fs (Nd l x c ?r)))))) m0 m1" by blast
  from delete_takeover_spec [OF x1 _ T d(1-5) rt] m1(2) y obtain m2 rt2
    where m2: "delete_takeover m1 rt s x y = Some (m2, rt2)" "rt2 = ptr s (plug fs (Nd l y c ?r))"
      and T2: "tree_at m2 s par (plug fs (Nd l y c ?r))"
      and a2: "agree_on (- set (nodes (plug fs (Nd l y c ?r)))) m1 m2" by auto
  have "delete_unlink m rt s x y (ptr s yr) = Some (m2, rt2)"
    unfolding delete_unlink_two_eq [OF d(3)] m1(1) using m2(1) by simp
  moreover have x2: "m2 x = m1 x" "m2 s = m1 s" using agree_onD [OF a2] d by simp_all
  moreover have "agree_on (- insert s (insert x (set (nodes (plug fs (Nd l y c ?r)))))) m0 m2"
    by (rule agree_on_trans [OF agree_on_mono [OF a1] agree_on_mono [OF a2]]) (auto simp: set_nodes_plug)
  note agree_on_restore [OF this refl]
  with d(2,6,7) m2(2) T2 S(1) x2(2)
  have "rep s sp' (m0(x := m2 x)) m2 rt2 (plug fs (Nd l y c ?r))" unfolding rep_def by metis
  ultimately show ?thesis using x1 S(2)
    by (intro exI [of _ m2] exI [of _ rt2] exI [of _ sp']) (simp add: plug_append)
qed

lemma delete_unlink_one:
  assumes R: "rep s sp m0 m rt (plug (f # fs) (Nd l x c r))" and t: "l = Lf \<and> t = r \<or> r = Lf \<and> t = l"
  shows "\<exists>m' sp' n. delete_unlink m rt s x x (ptr s t) = Some (m', rt) \<and> m' x = Some n
    \<and> color n = col c \<and> rep s sp' (m0(x := m' x)) m' rt (plug (f # fs) t)
    \<and> (t = Lf \<longrightarrow> sp' = fnode f)"
proof -
  have "rep s sp m0 m rt (plug (f # fs) (Nd l x c r)) \<Longrightarrow> \<exists>n. m x = Some n \<and> color n = col c"
    by (auto simp: rep_def tree_at_plug simp del: plug.simps)
  with splice_spec [OF assms] R show ?thesis
    by (fastforce simp: delete_unlink_def bind_eq_Some_conv)
qed

section \<open>Deletion\<close>

lemma delete_choose_spec:
  assumes R: "rep s sp m0 m rt (plug fs (Nd l x c r))"
  shows "l = Lf \<Longrightarrow> delete_choose m s x = Some (ptr s r, x)"
    and "l \<noteq> Lf \<Longrightarrow> r = Lf \<Longrightarrow> delete_choose m s x = Some (ptr s l, x)"
    and "l \<noteq> Lf \<Longrightarrow> min_path r [] = (gs, Nd Lf y yc yr) \<Longrightarrow> delete_choose m s x = Some (ptr s yr, y)"
proof -
  have ptrs: "ptr s l = s \<longleftrightarrow> l = Lf" "ptr s r = s \<longleftrightarrow> r = Lf"
    using R by (cases l; cases r; auto simp: rep_focus)+
  note child = rep_node(1,2) [OF R]
  show "l = Lf \<Longrightarrow> delete_choose m s x = Some (ptr s r, x)"
    and "l \<noteq> Lf \<Longrightarrow> r = Lf \<Longrightarrow> delete_choose m s x = Some (ptr s l, x)"
    using child ptrs by (simp_all add: delete_choose_def)
  assume l: "l \<noteq> Lf" and path: "min_path r [] = (gs, Nd Lf y yc yr)"
  have r: "r \<noteq> Lf" using path by auto
  have R1: "rep s sp m0 m rt (plug (FR l x c # fs) r)" using R by simp
  have "min_path r (FR l x c # fs) = (gs @ FR l x c # fs, Nd Lf y yc yr)"
    using min_path_append [OF path] by simp
  from rbtree_min_spec [OF R1 this] have "rbtree_min m (ptr s r) s = Some y" .
  moreover have "rep s sp m0 m rt (plug (gs @ FR l x c # fs) (Nd Lf y yc yr))"
    using R min_path_plug [OF path] by (simp add: plug_append)
  from rep_node(1,2) [OF this] have "rd left m y = Some s" "rd right m y = Some (ptr s yr)" by simp_all
  ultimately show "delete_choose m s x = Some (ptr s yr, y)"
    using child ptrs l r by (simp add: delete_choose_def)
qed

text \<open>The cleared node, and the rest of the operation once \<^verbatim>\<open>subst\<close> is out of its place.\<close>

abbreviation cleared :: "bool \<Rightarrow> rbnode" where
  "cleared c \<equiv> \<lparr>left = NULL, right = NULL, parent = NULL, color = col c\<rparr>"

lemma delete_finish:
  assumes R: "rep s sp (m0(x := m x)) m rt (plug fs t)" and n: "m x = Some n" "color n = col c"
    and x: "x \<notin> insert s (set (nodes (plug fs t)))"
    and ok: "\<not> d \<Longrightarrow> del_ok fs t" and sp: "t = Lf \<Longrightarrow> fs \<noteq> [] \<Longrightarrow> sp = fnode (hd fs)"
  shows "\<exists>m1 m' rt'. clear_links m x = Some m1
    \<and> (if d then Some (m1, rt) else delete_fixup s m1 rt (ptr s t)) = Some (m', rt')
    \<and> rep s sp (m0(x \<mapsto> cleared c)) m' rt' (if d then plug fs t else del_fix fs t)"
proof -
  from rep_clear_links [OF R n(1) x] n obtain m1 where "clear_links m x = Some m1"
    and r1: "rep s sp (m0(x \<mapsto> cleared c)) m1 rt (plug fs t)" by auto
  with delete_fixup_spec [OF r1] ok sp show ?thesis by (cases d) auto
qed

lemma rbtree_delete_one:
  assumes R: "rep (sentinel tr) sp m0 m (root tr) (plug fs (Nd l x c r))"
    and rb: "rb_tree (plug fs (Nd l x c r))"
    and t: "l = Lf \<and> t = r \<or> r = Lf \<and> t = l"
    and ch: "delete_choose m (sentinel tr) x = Some (ptr (sentinel tr) t, x)"
    and td: "tree_delete fs (Nd l x c r) =
      (if fs = [] then paint False t else if c then plug fs t else del_fix fs t)"
  shows "\<exists>m' tr' sp'. rbtree_delete m tr x = Some (m', tr')
    \<and> sentinel tr' = sentinel tr \<and> node_cmp_proc tr' = node_cmp_proc tr
    \<and> rep (sentinel tr) sp' (m0(x \<mapsto> cleared c)) m' (root tr') (tree_delete fs (Nd l x c r))"
proof -
  let ?s = "sentinel tr" and ?rt = "root tr"
  note red = rep_node(3) [OF R]
  show ?thesis
  proof (cases fs)
    case Nil
    have rt: "?rt = x" using R Nil by (auto simp: rep_def)
    from R t Nil have nx: "\<exists>n. m x = Some n \<and> color n = col c" by (auto simp: rep_def)
    have "agree_on (- insert ?s (set (nodes t))) (m0(x := m x)) m"
      using agree_on_restore [of ?s x "set (nodes t)" m0 m] R t Nil by (auto simp: rep_def insert_commute)
    then have "rep ?s sp (m0(x := m x)) m (ptr ?s t) (plug [] t)" and xt: "x \<notin> insert ?s (set (nodes t))"
      using R t Nil by (auto simp: rep_def)
    from rep_black [OF this(1)] obtain m1 where m1: "rbt_black m (ptr ?s t) = Some m1"
      and r1: "rep ?s sp (m0(x := m x)) m1 (ptr ?s t) (paint False t)" by auto
    have "m1 x = m x"
      using agree_onD [of "- insert ?s (set (nodes t))" "m0(x := m x)" m1 x] r1 xt by (auto simp: rep_def)
    with nx xt rep_clear_links [OF r1] obtain m2 where "clear_links m1 x = Some m2"
      "rep ?s sp (m0(x \<mapsto> cleared c)) m2 (ptr ?s t) (paint False t)" by auto
    with Nil m1 rt ch td show ?thesis by (auto simp: rbtree_delete_def Let_def)
  next
    case (Cons f gs)
    have ne: "x \<noteq> ?rt" using rep_root_neq [OF R] Cons by simp
    from delete_unlink_one [of ?s sp m0 m ?rt f gs l x c r t] R t Cons obtain m1 sp' n
      where m1: "delete_unlink m ?rt ?s x x (ptr ?s t) = Some (m1, ?rt)" "m1 x = Some n" "color n = col c"
        and r1: "rep ?s sp' (m0(x := m1 x)) m1 ?rt (plug fs t)" and sp': "t = Lf \<longrightarrow> sp' = fnode f" by auto
    have x: "x \<notin> insert ?s (set (nodes (plug fs t)))" using R t by (auto simp: rep_focus)
    have "\<not> c \<Longrightarrow> del_ok fs t" using rb_splice(2) [OF rb t] .
    from delete_finish [where d = c, OF r1 m1(2,3) x this] sp' Cons obtain m2 m' rt' where
      "clear_links m1 x = Some m2"
      "(if c then Some (m2, ?rt) else delete_fixup ?s m2 ?rt (ptr ?s t)) = Some (m', rt')"
      "rep ?s sp' (m0(x \<mapsto> cleared c)) m' rt' (if c then plug fs t else del_fix fs t)" by (metis list.sel(1))
    with ch m1(1) ne red td Cons show ?thesis
      by (cases c) (auto simp: rbtree_delete_def Let_def)
  qed
qed

lemma rbtree_delete_two:
  assumes R: "rep (sentinel tr) sp m0 m (root tr) (plug fs (Nd l x c r))"
    and rb: "rb_tree (plug fs (Nd l x c r))"
    and lr: "\<not> (l = Lf \<or> r = Lf)"
  shows "\<exists>m' tr' sp'. rbtree_delete m tr x = Some (m', tr')
    \<and> sentinel tr' = sentinel tr \<and> node_cmp_proc tr' = node_cmp_proc tr
    \<and> rep (sentinel tr) sp' (m0(x \<mapsto> cleared c)) m' (root tr') (tree_delete fs (Nd l x c r))"
proof -
  let ?s = "sentinel tr" and ?rt = "root tr"
  from lr have l: "l \<noteq> Lf" and "r \<noteq> Lf" by auto
  then obtain gs y yc yr where path: "min_path r [] = (gs, Nd Lf y yc yr)" using min_path_exists by blast
  let ?fs = "gs @ FR l y c # fs"
  have whole: "plug (gs @ FR l x c # fs) (Nd Lf y yc yr) = plug fs (Nd l x c r)"
    using min_path_plug [OF path] by (simp add: plug_append)
  with R have R': "rep ?s sp m0 m ?rt (plug (gs @ FR l x c # fs) (Nd Lf y yc yr))" by simp
  have ne: "y \<noteq> ?rt" using rep_root_neq [OF R'] by simp
  note yred = rep_node(3) [OF R']
  have "rb_tree (plug ?fs (Nd Lf y yc yr))" using rb whole rb_swap [of gs l x c fs "Nd Lf y yc yr" y] by metis
  note ok = rb_splice(2) [OF this]
  from delete_unlink_two [OF R path l] obtain m1 rt1 sp' n
    where m1: "delete_unlink m ?rt ?s x y (ptr ?s yr) = Some (m1, rt1)" "m1 x = Some n" "color n = col c"
      and r1: "rep ?s sp' (m0(x := m1 x)) m1 rt1 (plug ?fs yr)" and sp': "yr = Lf \<longrightarrow> sp' = fnode (hd ?fs)"
    by blast
  have "before gs = []" using min_path_left [OF path] by simp
  then have "nodes r = y # nodes (plug gs yr)" using nodes_min_path [OF path] by (simp add: nodes_plug)
  then have x: "x \<notin> insert ?s (set (nodes (plug ?fs yr)))" using R by (auto simp: rep_def nodes_plug plug_append)
  from delete_finish [OF r1 m1(2,3) x ok] sp' obtain m2 m' rt' where
    "clear_links m1 x = Some m2"
    "(if yc then Some (m2, rt1) else delete_fixup ?s m2 rt1 (ptr ?s yr)) = Some (m', rt')"
    "rep ?s sp' (m0(x \<mapsto> cleared c)) m' rt' (if yc then plug ?fs yr else del_fix ?fs yr)" by blast
  with lr path m1(1) ne yred delete_choose_spec(3) [OF R l path] show ?thesis
    by (cases l; cases r; cases yc) (auto simp: rbtree_delete_def Let_def)
qed

lemma rbtree_delete_spec:
  assumes R: "rep (sentinel tr) sp m0 m (root tr) (plug fs (Nd l x c r))"
    and rb: "rb_tree (plug fs (Nd l x c r))"
  shows "\<exists>m' tr' sp'. rbtree_delete m tr x = Some (m', tr')
    \<and> sentinel tr' = sentinel tr \<and> node_cmp_proc tr' = node_cmp_proc tr
    \<and> rep (sentinel tr) sp' (m0(x \<mapsto> cleared c)) m' (root tr') (tree_delete fs (Nd l x c r))"
proof -
  consider "l = Lf" | "l \<noteq> Lf" "r = Lf" | "\<not> (l = Lf \<or> r = Lf)" by blast
  then show ?thesis
  proof cases
    case 1
    then show ?thesis
      by (intro rbtree_delete_one [OF R rb, of r] delete_choose_spec(1) [OF R]) simp_all
  next
    case 2
    then have td: "tree_delete fs (Nd l x c r) =
        (if fs = [] then paint False l else if c then plug fs l else del_fix fs l)" by (cases l) auto
    show ?thesis
      by (rule rbtree_delete_one [OF R rb _ delete_choose_spec(2) [OF R 2] td]) (use 2 in simp)
  qed (rule rbtree_delete_two [OF R rb])
qed

end
