(* ===== verification/Ez_Rbtree_Index.thy ===== *)
theory Ez_Rbtree_Index
  imports Ez_Rbtree_Delete
begin

text \<open>
  The contract of the red-black tree towards its users (the file events of \<^verbatim>\<open>src/ez_event.c\<close> are kept
  in one): an index of nodes ordered by a key, in which a history of insertions and deletions acts
  like updates of a finite map. The contract is a locale; the pointer code is an interpretation of
  it. The properties of the component are at the end.
\<close>

section \<open>The contract\<close>

datatype index_op = Ins addr | Del addr

fun run_index ::
    "('st \<Rightarrow> addr \<Rightarrow> 'st option) \<Rightarrow> ('st \<Rightarrow> addr \<Rightarrow> 'st option) \<Rightarrow> 'st \<Rightarrow> index_op list \<Rightarrow> 'st option" where
  "run_index ins del st [] = Some st"
| "run_index ins del st (Ins x # ops) = do { st \<leftarrow> ins st x; run_index ins del st ops }"
| "run_index ins del st (Del x # ops) = do { st \<leftarrow> del st x; run_index ins del st ops }"

text \<open>The history on maps, and the histories a careful client produces.\<close>

fun map_run :: "(addr \<Rightarrow> int) \<Rightarrow> (int \<rightharpoonup> addr) \<Rightarrow> index_op list \<Rightarrow> (int \<rightharpoonup> addr)" where
  "map_run key A [] = A"
| "map_run key A (Ins x # ops) = map_run key (A(key x \<mapsto> x)) ops"
| "map_run key A (Del x # ops) = map_run key (A(key x := None)) ops"

fun legal_run :: "(addr \<Rightarrow> int) \<Rightarrow> addr set \<Rightarrow> (int \<rightharpoonup> addr) \<Rightarrow> index_op list \<Rightarrow> bool" where
  "legal_run key usable A [] = True"
| "legal_run key usable A (Ins x # ops) \<longleftrightarrow>
     x \<in> usable \<and> A (key x) = None \<and> legal_run key usable (A(key x \<mapsto> x)) ops"
| "legal_run key usable A (Del x # ops) \<longleftrightarrow>
     A (key x) = Some x \<and> legal_run key usable (A(key x := None)) ops"

definition index_map :: "(addr \<Rightarrow> int) \<Rightarrow> addr list \<Rightarrow> (int \<rightharpoonup> addr)" where
  "index_map key xs = map_of (map (\<lambda>x. (key x, x)) xs)"

lemma index_map_iff:
  assumes "distinct (map key xs)"
  shows "index_map key xs k = Some p \<longleftrightarrow> p \<in> set xs \<and> key p = k"
proof -
  have "distinct (map fst (map (\<lambda>x. (key x, x)) xs))" using assms by (simp add: comp_def)
  then show ?thesis unfolding index_map_def by (subst map_of_eq_Some_iff) auto
qed

lemma index_map_None: "index_map key xs k = None \<longleftrightarrow> k \<notin> key ` set xs"
  by (simp add: index_map_def map_of_eq_None_iff image_image)

lemma index_map_insert:
  assumes "distinct (map key xs)" "distinct (map key ys)" "set ys = insert x (set xs)" "index_map key xs (key x) = None"
  shows "index_map key ys = (index_map key xs)(key x \<mapsto> x)"
proof
  fix k
  have "index_map key ys k = Some p \<longleftrightarrow> ((index_map key xs)(key x \<mapsto> x)) k = Some p" for p
    using assms(3,4) index_map_iff [OF assms(1)] index_map_iff [OF assms(2)]
    by (auto simp: index_map_None image_iff)
  then show "index_map key ys k = ((index_map key xs)(key x \<mapsto> x)) k" by (metis not_Some_eq)
qed

lemma index_map_delete:
  assumes "distinct (map key (xs @ x # ys))"
  shows "index_map key (xs @ ys) = (index_map key (xs @ x # ys))(key x := None)"
proof
  fix k
  have d: "distinct (map key (xs @ ys))" using assms by auto
  have "index_map key (xs @ ys) k = Some p \<longleftrightarrow> ((index_map key (xs @ x # ys))(key x := None)) k = Some p" for p
    using assms index_map_iff [OF assms] index_map_iff [OF d] by (auto simp: image_iff)
  then show "index_map key (xs @ ys) k = ((index_map key (xs @ x # ys))(key x := None)) k"
    by (metis not_Some_eq)
qed

text \<open>
  \<open>index st xs\<close>: the state holds the nodes \<open>xs\<close>, in order. \<open>usable st\<close> are the nodes that may be inserted.
\<close>

locale keyed_index =
  fixes index :: "'st \<Rightarrow> addr list \<Rightarrow> bool"
    and usable :: "'st \<Rightarrow> addr set"
    and ins :: "'st \<Rightarrow> addr \<Rightarrow> 'st option"
    and del :: "'st \<Rightarrow> addr \<Rightarrow> 'st option"
    and find :: "'st \<Rightarrow> int \<Rightarrow> addr option"
    and key :: "addr \<Rightarrow> int"
  assumes index_sorted: "index st xs \<Longrightarrow> sorted (map key xs) \<and> distinct xs"
    and ins_law: "index st xs \<Longrightarrow> x \<in> usable st \<Longrightarrow> x \<notin> set xs \<Longrightarrow>
      \<exists>st'. ins st x = Some st' \<and> usable st' = usable st
        \<and> index st' (takeWhile (\<lambda>p. key p \<le> key x) xs @ x # dropWhile (\<lambda>p. key p \<le> key x) xs)"
    and del_law: "index st (xs @ x # ys) \<Longrightarrow>
      \<exists>st'. del st x = Some st' \<and> usable st' = usable st \<and> index st' (xs @ ys)"
    and find_law: "index st xs \<Longrightarrow>
      \<exists>p. find st k = Some p \<and> (if k \<in> key ` set xs then p \<in> set xs \<and> key p = k else p = NULL)"
begin

lemma find_map:
  assumes "index st xs" "distinct (map key xs)"
  shows "find st k = Some (case index_map key xs k of None \<Rightarrow> NULL | Some p \<Rightarrow> p)"
proof (cases "index_map key xs k")
  case None
  then have "k \<notin> key ` set xs" by (simp add: index_map_None)
  with find_law [OF assms(1), of k] None show ?thesis by simp
next
  case (Some p)
  then have p: "p \<in> set xs" "key p = k" using index_map_iff [OF assms(2)] by auto
  from find_law [OF assms(1), of k] p obtain q where q: "find st k = Some q" "q \<in> set xs" "key q = k"
    by (auto split: if_splits)
  then have "q = p" using assms(2) p by (auto simp: distinct_map dest: inj_onD)
  with q Some show ?thesis by simp
qed

lemma ins_map:
  assumes "index st xs" "distinct (map key xs)" "x \<in> usable st" "index_map key xs (key x) = None"
  shows "\<exists>st' ys. ins st x = Some st' \<and> usable st' = usable st \<and> index st' ys
    \<and> distinct (map key ys) \<and> index_map key ys = (index_map key xs)(key x \<mapsto> x)"
proof -
  let ?ys = "takeWhile (\<lambda>p. key p \<le> key x) xs @ x # dropWhile (\<lambda>p. key p \<le> key x) xs"
  have new: "key x \<notin> key ` set xs" using assms(4) by (simp add: index_map_None)
  then have "x \<notin> set xs" by auto
  from ins_law [OF assms(1,3) this] obtain st' where st': "ins st x = Some st'" "usable st' = usable st"
    "index st' ?ys" by auto
  have set: "set ?ys = insert x (set xs)"
    by (metis set_append takeWhile_dropWhile_id list.set(2) Un_insert_right)
  have "mset (map key ?ys) = add_mset (key x) (mset (map key xs))"
    by (metis map_append mset_append takeWhile_dropWhile_id list.map(2) mset.simps(2) union_mset_add_mset_right)
  then have "mset (map key ?ys) = mset (map key (x # xs))" by simp
  moreover have "distinct (map key (x # xs))" using new assms(2) by auto
  ultimately have "distinct (map key ?ys)" by (metis mset_eq_imp_distinct_iff)
  with st' index_map_insert [OF assms(2) this set assms(4)] show ?thesis by blast
qed

lemma del_map:
  assumes "index st xs" "distinct (map key xs)" "index_map key xs (key x) = Some x"
  shows "\<exists>st' ys. del st x = Some st' \<and> usable st' = usable st \<and> index st' ys
    \<and> distinct (map key ys) \<and> index_map key ys = (index_map key xs)(key x := None)"
proof -
  have "x \<in> set xs" using assms(3) index_map_iff [OF assms(2)] by auto
  then obtain us vs where xs: "xs = us @ x # vs" by (metis split_list)
  from del_law [OF assms(1) [unfolded xs]] index_map_delete [OF assms(2) [unfolded xs]] xs assms(2)
  show ?thesis by (auto intro!: exI [of _ "us @ vs"])
qed

theorem run_refines:
  assumes "index st xs" "distinct (map key xs)" "legal_run key (usable st) (index_map key xs) ops"
  shows "\<exists>st' ys. run_index ins del st ops = Some st' \<and> index st' ys \<and> distinct (map key ys)
    \<and> index_map key ys = map_run key (index_map key xs) ops
    \<and> (\<forall>k. find st' k = Some (case map_run key (index_map key xs) ops k of None \<Rightarrow> NULL | Some p \<Rightarrow> p))"
  using assms
proof (induction ops arbitrary: st xs)
  case Nil
  then show ?case using find_map by auto
next
  case (Cons op ops)
  show ?case
  proof (cases op)
    case (Ins x)
    with Cons.prems ins_map [OF Cons.prems(1,2), of x] obtain st1 ys where "ins st x = Some st1"
      "usable st1 = usable st" "index st1 ys" "distinct (map key ys)"
      "index_map key ys = (index_map key xs)(key x \<mapsto> x)" by auto
    with Ins Cons.prems(3) Cons.IH [of st1 ys] show ?thesis by (simp del: fun_upd_apply)
  next
    case (Del x)
    with Cons.prems del_map [OF Cons.prems(1,2), of x] obtain st1 ys where "del st x = Some st1"
      "usable st1 = usable st" "index st1 ys" "distinct (map key ys)"
      "index_map key ys = (index_map key xs)(key x := None)" by auto
    with Del Cons.prems(3) Cons.IH [of st1 ys] show ?thesis by (simp del: fun_upd_apply)
  qed
qed

end

section \<open>The pointer code keeps the contract\<close>

type_synonym rbstate = "rbmem \<times> rbtree"

definition key_order :: "(addr \<Rightarrow> int) \<Rightarrow> rbtree \<Rightarrow> bool" where
  "key_order key tr \<longleftrightarrow> (\<forall>a b. node_cmp_proc tr a b < 0 \<longleftrightarrow> key a < key b)"

definition rb_index :: "(addr \<Rightarrow> int) \<Rightarrow> rbstate \<Rightarrow> addr list \<Rightarrow> bool" where
  "rb_index key st xs \<longleftrightarrow> (case st of (m, tr) \<Rightarrow>
     key_order key tr \<and> sorted (map key xs)
     \<and> (\<exists>t sp. rep (sentinel tr) sp m m (root tr) t \<and> rb_tree t \<and> nodes t = xs))"

definition rb_usable :: "rbstate \<Rightarrow> addr set" where
  "rb_usable st = (case st of (m, tr) \<Rightarrow> dom m - {NULL, sentinel tr})"

definition rb_insert :: "rbstate \<Rightarrow> addr \<Rightarrow> rbstate option" where
  "rb_insert st x = (case st of (m, tr) \<Rightarrow> rbtree_insert m tr x)"

definition rb_delete :: "rbstate \<Rightarrow> addr \<Rightarrow> rbstate option" where
  "rb_delete st x = (case st of (m, tr) \<Rightarrow> rbtree_delete m tr x)"

definition rb_find :: "(addr \<Rightarrow> int) \<Rightarrow> rbstate \<Rightarrow> int \<Rightarrow> addr option" where
  "rb_find key st k = (case st of (m, tr) \<Rightarrow> rbtree_find_node m tr (\<lambda>p. key p - k))"

lemma rep_self: "rep s sp m0 m rt t \<Longrightarrow> rep s sp m m rt t"
  by (simp add: rep_def)

lemma rep_live: "rep s sp m0 m rt t \<Longrightarrow> insert s (set (nodes t)) \<subseteq> dom m"
proof -
  have "tree_at m s par t \<Longrightarrow> set (nodes t) \<subseteq> dom m" for par
    by (induction t arbitrary: par) (simp, fastforce simp: domI)
  then show "rep s sp m0 m rt t \<Longrightarrow> insert s (set (nodes t)) \<subseteq> dom m" by (auto simp: rep_def)
qed

lemma rep_dom:
  assumes "rep s sp m0 m rt t" "insert s (set (nodes t)) \<subseteq> dom m0"
  shows "dom m = dom m0"
proof -
  have "m0 p = m p" if "p \<notin> insert s (set (nodes t))" for p
    using assms(1) that by (auto simp: rep_def agree_on_def)
  with rep_live [OF assms(1)] assms(2) show ?thesis by (fastforce simp: dom_def)
qed

lemma search_order_key: "sorted (map key xs) \<Longrightarrow> search_order (\<lambda>p. key p - k) xs"
  unfolding search_order_def sorted_map
  by (erule sorted_wrt_mono_rel [rotated]) (auto simp: sgn_if)

lemma sorted_ins:
  fixes key :: "addr \<Rightarrow> int"
  shows "sorted (map key xs) \<Longrightarrow>
    sorted (map key (takeWhile (\<lambda>p. key p \<le> key x) xs @ x # dropWhile (\<lambda>p. key p \<le> key x) xs))"
  by (induction xs) (auto dest: set_takeWhileD set_dropWhileD)

text \<open>
  The operations on a memory and a tree struct, with their frame: only the nodes of the tree, the node
  itself and the sentinel are written.
\<close>

lemma rbtree_insert_index:
  assumes idx: "rb_index key (m, tr) xs" and x: "m x = Some n" "x \<notin> insert (sentinel tr) (set xs)" "x \<noteq> NULL"
  shows "\<exists>m' tr'. rbtree_insert m tr x = Some (m', tr') \<and> sentinel tr' = sentinel tr
    \<and> node_cmp_proc tr' = node_cmp_proc tr \<and> dom m' = dom m
    \<and> agree_on (- insert (sentinel tr) (insert x (set xs))) m m'
    \<and> rb_index key (m', tr') (takeWhile (\<lambda>p. key p \<le> key x) xs @ x # dropWhile (\<lambda>p. key p \<le> key x) xs)"
proof -
  from idx obtain t sp where R: "rep (sentinel tr) sp m m (root tr) t" and rb: "rb_tree t"
    and xs: "nodes t = xs" and ko: "key_order key tr" and srt: "sorted (map key xs)"
    by (auto simp: rb_index_def)
  let ?lt = "\<lambda>p. node_cmp_proc tr x p < 0"
  have lt: "\<And>p. ?lt p \<longleftrightarrow> key x < key p" using ko by (simp add: key_order_def)
  from rbtree_insert_spec [OF R rb x(1)] x(2,3) xs obtain m' tr' where ins: "rbtree_insert m tr x = Some (m', tr')"
    and tr': "sentinel tr' = sentinel tr" "node_cmp_proc tr' = node_cmp_proc tr"
    and R': "rep (sentinel tr) sp m m' (root tr') (tree_insert ?lt x t)" by blast
  have "sorted_wrt (\<lambda>a b. ?lt a \<longrightarrow> ?lt b) (nodes t)"
    using srt xs unfolding sorted_map lt by (auto elim!: sorted_wrt_mono_rel [rotated])
  from nodes_tree_insert [OF this, of x]
  have nodes': "nodes (tree_insert ?lt x t)
      = takeWhile (\<lambda>p. key p \<le> key x) xs @ x # dropWhile (\<lambda>p. key p \<le> key x) xs"
    by (simp add: lt xs not_less)
  have "dom m' = dom m"
    using rep_dom [OF R'] rep_live [OF R] x(1) by (auto simp: set_nodes_tree_insert)
  moreover have "agree_on (- insert (sentinel tr) (insert x (set xs))) m m'"
    using R' unfolding rep_def set_nodes_tree_insert xs by simp
  moreover have "rb_index key (m', tr') (nodes (tree_insert ?lt x t))"
    using rep_self [OF R'] rb_tree_insert [OF rb] tr' ko sorted_ins [OF srt, of x] nodes'
    unfolding rb_index_def key_order_def by auto
  ultimately show ?thesis using ins tr' nodes' by simp
qed

lemma rb_ins_law:
  assumes "rb_index key st xs" "x \<in> rb_usable st" "x \<notin> set xs"
  shows "\<exists>st'. rb_insert st x = Some st' \<and> rb_usable st' = rb_usable st
    \<and> rb_index key st' (takeWhile (\<lambda>p. key p \<le> key x) xs @ x # dropWhile (\<lambda>p. key p \<le> key x) xs)"
proof -
  obtain m tr where st: "st = (m, tr)" by (cases st)
  from assms(2,3) st obtain n where "m x = Some n" "x \<notin> insert (sentinel tr) (set xs)" "x \<noteq> NULL"
    by (auto simp: rb_usable_def)
  from rbtree_insert_index [OF assms(1) [unfolded st] this] show ?thesis
    unfolding st by (auto simp: rb_insert_def rb_usable_def)
qed

lemma zipper_exists: "x \<in> set (nodes t) \<Longrightarrow> \<exists>fs l c r. t = plug fs (Nd l x c r)"
proof (induction t)
  case (Nd l p c r)
  consider "p = x" | "x \<in> set (nodes l)" | "x \<in> set (nodes r)" using Nd.prems by auto
  then show ?case
  proof cases
    case 1
    then show ?thesis by (metis plug.simps(1))
  next
    case 2
    with Nd.IH(1) obtain fs a d b where "l = plug fs (Nd a x d b)" by blast
    then have "Nd l p c r = plug (fs @ [FL p c r]) (Nd a x d b)" by (simp add: plug_append)
    then show ?thesis by blast
  next
    case 3
    with Nd.IH(2) obtain fs a d b where "r = plug fs (Nd a x d b)" by blast
    then have "Nd l p c r = plug (fs @ [FR l p c]) (Nd a x d b)" by (simp add: plug_append)
    then show ?thesis by blast
  qed
qed simp

lemma rbtree_delete_index:
  assumes idx: "rb_index key (m, tr) (xs @ x # ys)"
  shows "\<exists>m' tr'. rbtree_delete m tr x = Some (m', tr') \<and> sentinel tr' = sentinel tr
    \<and> node_cmp_proc tr' = node_cmp_proc tr \<and> dom m' = dom m
    \<and> agree_on (- insert (sentinel tr) (set (xs @ x # ys))) m m' \<and> rb_index key (m', tr') (xs @ ys)"
proof -
  from idx obtain t sp where R: "rep (sentinel tr) sp m m (root tr) t" and rb: "rb_tree t"
    and xs: "nodes t = xs @ x # ys" and ko: "key_order key tr" and srt: "sorted (map key (xs @ x # ys))"
    by (auto simp: rb_index_def)
  obtain fs l c r where t: "t = plug fs (Nd l x c r)" using zipper_exists [of x t] xs by auto
  from rbtree_delete_spec [OF R [unfolded t] rb [unfolded t]] obtain m' tr' sp'
    where del: "rbtree_delete m tr x = Some (m', tr')"
      and tr': "sentinel tr' = sentinel tr" "node_cmp_proc tr' = node_cmp_proc tr"
      and R': "rep (sentinel tr) sp' (m(x \<mapsto> cleared c)) m' (root tr') (tree_delete fs (Nd l x c r))" by blast
  have split: "xs = before fs @ nodes l" "ys = nodes r @ after fs"
    using distinct_split_unique [of xs x ys "before fs @ nodes l" "nodes r @ after fs"] R xs t
    by (auto simp: rep_def nodes_plug)
  then have nodes': "nodes (tree_delete fs (Nd l x c r)) = xs @ ys" by (simp add: nodes_tree_delete)
  have "x \<in> dom m" using rep_live [OF R] xs by auto
  moreover have "dom m' = dom (m(x \<mapsto> cleared c))"
    by (rule rep_dom [OF R']) (use rep_live [OF R] xs nodes' in auto)
  ultimately have "dom m' = dom m" by auto
  moreover have "agree_on (- insert (sentinel tr) (set (xs @ x # ys))) m m'"
  proof -
    have A: "agree_on (- insert (sentinel tr) (set (xs @ ys))) (m(x \<mapsto> cleared c)) m'"
      using R' unfolding rep_def nodes' by simp
    show ?thesis unfolding agree_on_def
    proof
      fix p assume "p \<in> - insert (sentinel tr) (set (xs @ x # ys))"
      then have "p \<noteq> x" "p \<in> - insert (sentinel tr) (set (xs @ ys))" by auto
      then show "m p = m' p" using A [unfolded agree_on_def, rule_format, of p] by simp
    qed
  qed
  moreover have "rb_index key (m', tr') (xs @ ys)"
    using rep_self [OF R'] rb_tree_delete [OF rb [unfolded t]] tr' ko srt nodes'
    unfolding rb_index_def key_order_def by (auto simp: sorted_append)
  ultimately show ?thesis using del tr' by simp
qed

lemma rb_del_law:
  assumes "rb_index key st (xs @ x # ys)"
  shows "\<exists>st'. rb_delete st x = Some st' \<and> rb_usable st' = rb_usable st \<and> rb_index key st' (xs @ ys)"
proof -
  obtain m tr where st: "st = (m, tr)" by (cases st)
  from rbtree_delete_index [OF assms [unfolded st]] show ?thesis
    unfolding st by (auto simp: rb_delete_def rb_usable_def)
qed

text \<open>A search whose comparison has the sign of the difference of the keys.\<close>

lemma rbtree_find_index:
  assumes "rb_index key (m, tr) xs" and cmp: "\<And>p. p \<in> set xs \<Longrightarrow> sgn (cmp p) = sgn (key p - k)"
  shows "\<exists>p. rbtree_find_node m tr cmp = Some p
    \<and> (if k \<in> key ` set xs then p \<in> set xs \<and> key p = k else p = NULL)"
proof -
  from assms(1) obtain t sp where R: "rep (sentinel tr) sp m m (root tr) t"
    and xs: "nodes t = xs" and srt: "sorted (map key xs)" by (auto simp: rb_index_def)
  have "search_order (\<lambda>p. key p - k) xs" using search_order_key srt by blast
  then have so: "search_order cmp (nodes t)"
    unfolding search_order_def xs using cmp by (auto elim!: sorted_wrt_mono_rel [rotated])
  have zero: "cmp p = 0 \<longleftrightarrow> key p = k" if "p \<in> set xs" for p
    using cmp [OF that] by (metis diff_eq_eq add.left_neutral sgn_0_0)
  show ?thesis
  proof (cases "tree_find cmp t")
    case None
    then have "k \<notin> key ` set xs" using tree_find_None [OF so None] zero xs by auto
    with None show ?thesis unfolding rbtree_find_node_spec [OF R] by simp
  next
    case (Some p)
    then have "p \<in> set xs" "key p = k" using tree_find_Some [OF Some] zero xs by auto
    with Some show ?thesis unfolding rbtree_find_node_spec [OF R] by auto
  qed
qed

lemma rb_find_law:
  assumes "rb_index key st xs"
  shows "\<exists>p. rb_find key st k = Some p
    \<and> (if k \<in> key ` set xs then p \<in> set xs \<and> key p = k else p = NULL)"
  using rbtree_find_index [of key "fst st" "snd st" xs "\<lambda>p. key p - k" k] assms
  by (simp add: rb_find_def case_prod_unfold)

interpretation rb: keyed_index "rb_index key" rb_usable rb_insert rb_delete "rb_find key" key
  for key :: "addr \<Rightarrow> int"
proof
  fix st xs assume "rb_index key st xs"
  then show "sorted (map key xs) \<and> distinct xs" by (auto simp: rb_index_def rep_def)
qed (erule (2) rb_ins_law, erule rb_del_law, erule rb_find_law)

section \<open>Initialisation, downward paths\<close>

lemma rbtree_init_spec:
  assumes "m s = Some n" "s \<noteq> NULL" "\<forall>a b. cmp a b < 0 \<longleftrightarrow> key a < key b"
  shows "\<exists>st. rbtree_init m s cmp = Some st \<and> rb_index key st [] \<and> rb_usable st = dom m - {NULL, s}"
  using assms
  by (cases n) (auto simp: rbtree_init_def rbt_black_def mem_simps rb_index_def rb_usable_def key_order_def rep_def
      rb_tree_def intro!: exI [of _ Lf])




section \<open>Properties\<close>

text \<open>A tree of two nodes and a node to be inserted, for the witnesses.\<close>

definition demo_node :: rbnode where
  "demo_node = \<lparr>left = 0, right = 0, parent = 0, color = 0\<rparr>"

definition demo_tree :: rtree where
  "demo_tree = Nd (Nd Lf 2 True Lf) 3 False Lf"

definition demo_rbmem :: rbmem where
  "demo_rbmem = [1 \<mapsto> demo_node, 2 \<mapsto> \<lparr>left = 1, right = 1, parent = 3, color = 1\<rparr>,
     3 \<mapsto> \<lparr>left = 2, right = 1, parent = 0, color = 0\<rparr>, 4 \<mapsto> demo_node]"

definition demo_cmp :: "addr \<Rightarrow> addr \<Rightarrow> int" where
  "demo_cmp a b = int a - int b"

definition demo_rbtree :: rbtree where
  "demo_rbtree = \<lparr>root = 3, sentinel = 1, node_cmp_proc = demo_cmp\<rparr>"

lemma demo_rep: "rep (sentinel demo_rbtree) 0 demo_rbmem demo_rbmem (root demo_rbtree) demo_tree"
  by (simp add: rep_def demo_rbtree_def demo_rbmem_def demo_tree_def demo_node_def col_def)

lemma demo_rb: "rb_tree demo_tree"
  by (simp add: rb_tree_def demo_tree_def)

lemma demo_order: "key_order int demo_rbtree"
  by (simp add: key_order_def demo_rbtree_def demo_cmp_def)

text \<open>
  C1: A tree set up by \<^verbatim>\<open>rbtree_init\<close> and then used through any sequence of \<^verbatim>\<open>rbtree_insert\<close> (of live
  nodes with a new key) and \<^verbatim>\<open>rbtree_delete\<close> (of nodes in the tree) behaves like a finite map from keys
  to nodes: no call loops for ever or touches memory that is not live, the red-black rules and the
  key order hold at the end, and \<^verbatim>\<open>rbtree_find_node\<close> answers every key as the map does, \<^verbatim>\<open>NULL\<close> included.
\<close>

theorem rbtree_history_refines:
  assumes "m s = Some n" "s \<noteq> NULL" "\<forall>a b. cmp a b < 0 \<longleftrightarrow> key a < key b"
    and "legal_run key (dom m - {NULL, s}) Map.empty ops"
  shows "\<exists>st st' ys. rbtree_init m s cmp = Some st \<and> run_index rb_insert rb_delete st ops = Some st'
    \<and> rb_index key st' ys \<and> index_map key ys = map_run key Map.empty ops
    \<and> (\<forall>k. rb_find key st' k = Some (case map_run key Map.empty ops k of None \<Rightarrow> NULL | Some p \<Rightarrow> p))"
proof -
  from rbtree_init_spec [of m s n cmp key, OF assms(1-3)] obtain st where st: "rbtree_init m s cmp = Some st"
    "rb_index key st []" "rb_usable st = dom m - {NULL, s}" by blast
  have "index_map key [] = Map.empty" by (simp add: index_map_def)
  with rb.run_refines [OF st(2), of ops] st assms(4) show ?thesis by auto
qed

theorem rbtree_history_refines_witness:
  "\<exists>st st' ys. rbtree_init demo_rbmem 1 demo_cmp = Some st
    \<and> run_index rb_insert rb_delete st [Ins 3, Ins 2, Ins 4, Del 3] = Some st'
    \<and> rb_index int st' ys \<and> index_map int ys = map_run int Map.empty [Ins 3, Ins 2, Ins 4, Del 3]
    \<and> (\<forall>k. rb_find int st' k =
        Some (case map_run int Map.empty [Ins 3, Ins 2, Ins 4, Del 3] k of None \<Rightarrow> NULL | Some p \<Rightarrow> p))"
  by (rule rbtree_history_refines [of _ _ demo_node])
    (auto simp: demo_rbmem_def demo_cmp_def)

text \<open>
  \<^verbatim>\<open>rbtree_insert\<close> on a red-black tree returns, keeps the red-black rules, puts the new node behind
  all nodes that are not greater (equal keys included) and before all greater ones, and writes
  nothing but nodes of the tree and the sentinel.
\<close>

theorem rbtree_insert_correct:
  assumes "rep (sentinel tr) sp m0 m (root tr) t" "rb_tree t" "key_order key tr" "sorted (map key (nodes t))"
    and "m x = Some n" "x \<notin> insert (sentinel tr) (set (nodes t))" "x \<noteq> NULL"
  shows "\<exists>m' tr' t'. rbtree_insert m tr x = Some (m', tr') \<and> rep (sentinel tr') sp m0 m' (root tr') t'
    \<and> rb_tree t'
    \<and> nodes t' = takeWhile (\<lambda>p. key p \<le> key x) (nodes t) @ x # dropWhile (\<lambda>p. key p \<le> key x) (nodes t)"
proof -
  have lt: "\<And>p. node_cmp_proc tr x p < 0 \<longleftrightarrow> key x < key p" using assms(3) by (simp add: key_order_def)
  have "sorted_wrt (\<lambda>a b. node_cmp_proc tr x a < 0 \<longrightarrow> node_cmp_proc tr x b < 0) (nodes t)"
    using assms(4) unfolding sorted_map lt by (auto elim!: sorted_wrt_mono_rel [rotated])
  from nodes_tree_insert [OF this, of x] rbtree_insert_spec [OF assms(1,2,5-7)] rb_tree_insert [OF assms(2)]
  show ?thesis by (fastforce simp: lt not_less)
qed

theorem rbtree_insert_correct_witness:
  "\<exists>m' tr' t'. rbtree_insert demo_rbmem demo_rbtree 4 = Some (m', tr')
    \<and> rep (sentinel tr') 0 demo_rbmem m' (root tr') t' \<and> rb_tree t' \<and> nodes t' = [2, 3, 4]"
  using rbtree_insert_correct [OF demo_rep demo_rb demo_order, of 4 demo_node]
  by (simp add: demo_rbmem_def demo_tree_def demo_rbtree_def)

text \<open>
  \<^verbatim>\<open>rbtree_delete\<close> of a node in a red-black tree returns, keeps the red-black rules and the order of
  all other nodes, leaves the removed node with cleared links and its colour, and writes nothing else
  outside the tree and the sentinel.
\<close>

theorem rbtree_delete_correct:
  assumes "rep (sentinel tr) sp m0 m (root tr) t" "rb_tree t" "nodes t = xs @ x # ys"
  shows "\<exists>m' tr' sp' t' c. rbtree_delete m tr x = Some (m', tr')
    \<and> rep (sentinel tr') sp' (m0(x \<mapsto> cleared c)) m' (root tr') t' \<and> rb_tree t' \<and> nodes t' = xs @ ys"
proof -
  obtain fs l c r where t: "t = plug fs (Nd l x c r)" using zipper_exists [of x t] assms(3) by auto
  have "xs = before fs @ nodes l" "ys = nodes r @ after fs"
    using distinct_split_unique [of xs x ys "before fs @ nodes l" "nodes r @ after fs"] assms(1,3) t
    by (auto simp: rep_def nodes_plug)
  with rbtree_delete_spec [OF assms(1,2) [unfolded t]] rb_tree_delete [OF assms(2) [unfolded t]]
    nodes_tree_delete [of fs l x c r] show ?thesis by fastforce
qed

theorem rbtree_delete_correct_witness:
  "\<exists>m' tr' sp' t' c. rbtree_delete demo_rbmem demo_rbtree 3 = Some (m', tr')
    \<and> rep (sentinel tr') sp' (demo_rbmem(3 \<mapsto> cleared c)) m' (root tr') t' \<and> rb_tree t' \<and> nodes t' = [2]"
  using rbtree_delete_correct [OF demo_rep demo_rb, of "[2]" 3 "[]"] by (simp add: demo_tree_def)

text \<open>
  \<^verbatim>\<open>rbtree_find_node\<close> returns for every search procedure that is monotone along the order of the
  tree: a node for which it answers 0 if there is one, otherwise \<^verbatim>\<open>NULL\<close>.
\<close>

theorem rbtree_find_node_correct:
  assumes "rep (sentinel tr) sp m0 m (root tr) t" "search_order find_proc (nodes t)"
  shows "\<exists>p. rbtree_find_node m tr find_proc = Some p
    \<and> (if \<exists>q\<in>set (nodes t). find_proc q = 0 then p \<in> set (nodes t) \<and> find_proc p = 0 else p = NULL)"
  using tree_find_Some [of find_proc t] tree_find_None [OF assms(2)]
  unfolding rbtree_find_node_spec [OF assms(1)] by (cases "tree_find find_proc t") auto

theorem rbtree_find_node_correct_witness:
  "\<exists>p. rbtree_find_node demo_rbmem demo_rbtree (\<lambda>q. int q - 2) = Some p \<and> p = 2"
  using rbtree_find_node_correct [OF demo_rep, of "\<lambda>q. int q - 2"]
  by (auto simp: search_order_def demo_tree_def)

text \<open>
  \<^verbatim>\<open>rbtree_min_node\<close> returns the first node in the order of the tree, and \<^verbatim>\<open>NULL\<close> for an empty tree
  (the loop runs through the sentinel, whose left pointer is \<^verbatim>\<open>NULL\<close>); \<^verbatim>\<open>rbtree_foreach\<close> calls the
  procedure once for every node, parents before children.
\<close>

theorem rbtree_min_and_foreach:
  assumes "rep (sentinel tr) sp m0 m (root tr) t"
  shows "rbtree_min_node m tr = Some (if nodes t = [] then NULL else hd (nodes t))
    \<and> rbtree_foreach m tr proc st = Some (fold proc (preorder t) st) \<and> mset (preorder t) = mset (nodes t)"
proof -
  have "mset (preorder t) = mset (nodes t)" by (induction t) auto
  moreover have "nodes t = [] \<longleftrightarrow> t = Lf" by (cases t) auto
  ultimately show ?thesis
    using rbtree_min_node_spec [OF assms] rbtree_foreach_spec [OF assms] by simp
qed

theorem rbtree_min_and_foreach_witness:
  "rbtree_min_node demo_rbmem demo_rbtree = Some 2
    \<and> rbtree_foreach demo_rbmem demo_rbtree (#) [] = Some [2, 3]"
  using rbtree_min_and_foreach [OF demo_rep, of "(#)" "[]"] by (simp add: demo_tree_def)



end
