(* ===== verification/Ez_Max_Heap.thy ===== *)
theory Ez_Max_Heap
  imports Ez_Prelude "HOL-Library.Multiset" "HOL-Library.Signed_Division"
begin

text \<open>
  The array heap of \<^verbatim>\<open>src/ez_max_heap.c\<close>. The array holds \<^verbatim>\<open>heap_data\<close> pointers; a cell that was never
  written is \<open>None\<close>, and reading it, or reading or writing outside the array, is undefined. Indexes
  are the \<^verbatim>\<open>int\<close> variables of the code. An allocation that fails ends the program in the default
  out-of-memory handler, so the operations are those of a program whose allocations succeed.

  The heap keeps the bag of its elements, and insertion keeps the heap order; removal does not, since
  the last element is put into the hole at a leaf without being compared with the hole's parent.
\<close>

section \<open>The code\<close>

record max_heap =
  hn :: u32
  ha :: u32
  hcmp :: "addr \<Rightarrow> addr \<Rightarrow> int"
  harr :: "addr option list"

definition arr_get :: "addr option list \<Rightarrow> int \<Rightarrow> addr option" where
  "arr_get arr i = (if 0 \<le> i \<and> i < int (length arr) then arr ! nat i else None)"

definition arr_set :: "addr option list \<Rightarrow> int \<Rightarrow> addr \<Rightarrow> addr option list option" where
  "arr_set arr i d = (if 0 \<le> i \<and> i < int (length arr) then Some (arr[nat i := Some d]) else None)"

definition new_max_heap :: "u32 \<Rightarrow> (addr \<Rightarrow> addr \<Rightarrow> int) \<Rightarrow> max_heap" where
  "new_max_heap sz cmpFunc =
     \<lparr>hn = 0, ha = sz, hcmp = cmpFunc, harr = replicate (unat sz) (Some NULL)\<rparr>"

text \<open>\<^verbatim>\<open>heap->a + 16\<close> is computed in 32 bits; \<^verbatim>\<open>realloc\<close> keeps the common prefix, new cells are not written.\<close>

definition extend_max_heap :: "max_heap \<Rightarrow> max_heap" where
  "extend_max_heap heap =
     (let cells = unat (ha heap + 16) in
      heap\<lparr>harr := take cells (harr heap) @ replicate (cells - length (harr heap)) None,
           ha := ha heap + 16\<rparr>)"

definition max_heap_size :: "max_heap \<Rightarrow> u32" where
  "max_heap_size heap = hn heap"

partial_function (option) push_loop ::
    "(addr \<Rightarrow> addr \<Rightarrow> int) \<Rightarrow> addr \<Rightarrow> addr option list \<Rightarrow> int \<Rightarrow> int \<Rightarrow> (addr option list \<times> int) option" where
  "push_loop cmp data arr hole_index parent_index =
     (if hole_index > 0 then do {
        p \<leftarrow> arr_get arr parent_index;
        (if cmp p data < 1 then do {
           p \<leftarrow> arr_get arr parent_index;
           arr \<leftarrow> arr_set arr hole_index p;
           push_loop cmp data arr parent_index ((parent_index - 1) sdiv 2)
         } else Some (arr, hole_index))
      } else Some (arr, hole_index))"

definition push_max_heap :: "max_heap \<Rightarrow> addr \<Rightarrow> max_heap option" where
  "push_max_heap heap data =
     (let heap = (if hn heap \<ge> ha heap then extend_max_heap heap else heap);
          hole_index = sint (hn heap);
          parent_index = (hole_index - 1) sdiv 2
      in do {
        (arr, hole_index) \<leftarrow> push_loop (hcmp heap) data (harr heap) hole_index parent_index;
        arr \<leftarrow> arr_set arr hole_index data;
        Some (heap\<lparr>hn := hn heap + 1, harr := arr\<rparr>)
      })"

text \<open>An \<^verbatim>\<open>int\<close> that leaves its 32 bits is undefined.\<close>

definition to_int32 :: "int \<Rightarrow> int option" where
  "to_int32 i = (if - (2 ^ 31) \<le> i \<and> i < 2 ^ 31 then Some i else None)"

partial_function (option) pop_loop ::
    "(addr \<Rightarrow> addr \<Rightarrow> int) \<Rightarrow> int \<Rightarrow> addr option list \<Rightarrow> int \<Rightarrow> int \<Rightarrow> (addr option list \<times> int) option" where
  "pop_loop cmp n arr hole_index min_child =
     (if min_child \<le> n then do {
        left_greater \<leftarrow> (if min_child = n then Some True
          else do {
            l \<leftarrow> arr_get arr (min_child - 1);
            r \<leftarrow> arr_get arr min_child;
            Some (cmp l r > 0)
          });
        let min_child = (if left_greater then min_child - 1 else min_child);
        c \<leftarrow> arr_get arr min_child;
        arr \<leftarrow> arr_set arr hole_index c;
        next_child \<leftarrow> to_int32 (2 * (min_child + 1));
        pop_loop cmp n arr min_child next_child
      } else Some (arr, hole_index))"

definition pop_max_heap :: "max_heap \<Rightarrow> (addr \<times> max_heap) option" where
  "pop_max_heap heap =
     (if hn heap > 0 then do {
        data \<leftarrow> arr_get (harr heap) 0;
        (arr, hole_index) \<leftarrow> pop_loop (hcmp heap) (int (unat (hn heap))) (harr heap) 0 2;
        lst \<leftarrow> arr_get arr (int (unat (hn heap - 1)));
        arr \<leftarrow> arr_set arr hole_index lst;
        Some (data, heap\<lparr>hn := hn heap - 1, harr := arr\<rparr>)
      } else Some (NULL, heap))"

section \<open>The loops on lists of elements\<close>

abbreviation par :: "nat \<Rightarrow> nat" where
  "par i \<equiv> (i - 1) div 2"

fun sift_up :: "(addr \<Rightarrow> addr \<Rightarrow> int) \<Rightarrow> addr list \<Rightarrow> nat \<Rightarrow> addr \<Rightarrow> addr list" where
  "sift_up cmp xs i d =
     (if 0 < i \<and> cmp (xs ! par i) d < 1 then sift_up cmp (xs[i := xs ! par i]) (par i) d else xs[i := d])"

declare sift_up.simps [simp del]

definition big_child :: "(addr \<Rightarrow> addr \<Rightarrow> int) \<Rightarrow> addr list \<Rightarrow> nat \<Rightarrow> nat" where
  "big_child cmp xs i =
     (if 2 * i + 2 = length xs \<or> cmp (xs ! (2 * i + 1)) (xs ! (2 * i + 2)) > 0 then 2 * i + 1 else 2 * i + 2)"

function hole_down :: "(addr \<Rightarrow> addr \<Rightarrow> int) \<Rightarrow> addr list \<Rightarrow> nat \<Rightarrow> addr list \<times> nat" where
  "hole_down cmp xs i =
     (if 2 * i + 2 \<le> length xs
      then hole_down cmp (xs[i := xs ! big_child cmp xs i]) (big_child cmp xs i) else (xs, i))"
  by pat_completeness auto
termination
  by (relation "measure (\<lambda>(cmp, xs, i). length xs - i)") (auto simp: big_child_def)

declare hole_down.simps [simp del]

lemma big_child_bounds:
  "2 * i + 2 \<le> length xs \<Longrightarrow> i < big_child cmp xs i \<and> big_child cmp xs i < length xs \<and> par (big_child cmp xs i) = i"
  by (auto simp: big_child_def)

lemma length_sift_up [simp]: "length (sift_up cmp xs i d) = length xs"
  by (induction cmp xs i d rule: sift_up.induct) (subst sift_up.simps, simp)

lemma length_hole_down: "hole_down cmp xs i = (ys, j) \<Longrightarrow> length ys = length xs"
  by (induction cmp xs i rule: hole_down.induct) (subst (asm) (2) hole_down.simps, auto split: if_splits)

lemma hole_down_bound: "hole_down cmp xs i = (ys, j) \<Longrightarrow> i < length xs \<Longrightarrow> j < length xs"
proof (induction cmp xs i rule: hole_down.induct)
  case (1 cmp xs i)
  show ?case
  proof (cases "2 * i + 2 \<le> length xs")
    case True
    from 1(1) [OF True] 1(2) big_child_bounds [OF True, of cmp] True show ?thesis
      by (subst (asm) (2) hole_down.simps) simp
  next
    case False
    with 1(2,3) show ?thesis by (subst (asm) hole_down.simps) simp
  qed
qed

lemma sift_up_step:
  "0 < i \<Longrightarrow> cmp (xs ! par i) d < 1 \<Longrightarrow> sift_up cmp xs i d = sift_up cmp (xs[i := xs ! par i]) (par i) d"
  by (subst sift_up.simps) simp

lemma sift_up_stop: "\<not> (0 < i \<and> cmp (xs ! par i) d < 1) \<Longrightarrow> sift_up cmp xs i d = xs[i := d]"
  by (subst sift_up.simps) argo

lemma hole_down_step:
  "2 * i + 2 \<le> length xs \<Longrightarrow>
     hole_down cmp xs i = hole_down cmp (xs[i := xs ! big_child cmp xs i]) (big_child cmp xs i)"
  by (subst hole_down.simps) simp

lemma hole_down_stop: "\<not> 2 * i + 2 \<le> length xs \<Longrightarrow> hole_down cmp xs i = (xs, i)"
  by (subst hole_down.simps) simp

text \<open>The elements are only permuted.\<close>

lemma mset_sift_up: "i < length xs \<Longrightarrow> mset (sift_up cmp xs i d) = mset (xs[i := d])"
proof (induction cmp xs i d rule: sift_up.induct)
  case (1 cmp xs i d)
  show ?case
  proof (cases "0 < i \<and> cmp (xs ! par i) d < 1")
    case True
    have "par i \<noteq> i" "par i < length xs" using True 1(2) by auto
    moreover have "mset ((xs[i := d])[i := (xs[i := d]) ! par i, par i := (xs[i := d]) ! i]) = mset (xs[i := d])"
      by (rule mset_swap) (use 1(2) in auto)
    ultimately have "mset (xs[i := xs ! par i, par i := d]) = mset (xs[i := d])" using 1(2) by simp
    with 1(1) [OF True] True \<open>par i < length xs\<close> show ?thesis by (simp only: sift_up_step length_list_update)
  next
    case False
    then show ?thesis by (metis sift_up_stop)
  qed
qed

lemma mset_hole_down:
  "hole_down cmp xs i = (ys, j) \<Longrightarrow> i < length xs \<Longrightarrow> mset (ys[j := d]) = mset (xs[i := d])"
proof (induction cmp xs i rule: hole_down.induct)
  case (1 cmp xs i)
  let ?c = "big_child cmp xs i"
  show ?case
  proof (cases "2 * i + 2 \<le> length xs")
    case True
    note c = big_child_bounds [OF True, of cmp]
    have "mset ((xs[i := d])[i := (xs[i := d]) ! ?c, ?c := (xs[i := d]) ! i]) = mset (xs[i := d])"
      by (rule mset_swap) (use 1(3) c in auto)
    then have "mset (xs[i := xs ! ?c, ?c := d]) = mset (xs[i := d])" using c 1(3) by simp
    moreover have "hole_down cmp (xs[i := xs ! ?c]) ?c = (ys, j)"
      using 1(2) True by (subst (asm) hole_down.simps) simp
    ultimately show ?thesis using 1(1) [OF True] c by simp
  next
    case False
    with 1(2) show ?thesis by (subst (asm) hole_down.simps) simp
  qed
qed

section \<open>Heap order\<close>

text \<open>The comparison orders the elements by a key.\<close>

definition key_cmp :: "(addr \<Rightarrow> int) \<Rightarrow> (addr \<Rightarrow> addr \<Rightarrow> int) \<Rightarrow> bool" where
  "key_cmp key cmp \<longleftrightarrow> (\<forall>a b. 0 < cmp a b \<longleftrightarrow> key b < key a)"

definition heap_order :: "(addr \<Rightarrow> int) \<Rightarrow> addr list \<Rightarrow> bool" where
  "heap_order key xs \<longleftrightarrow> (\<forall>j. 0 < j \<and> j < length xs \<longrightarrow> key (xs ! j) \<le> key (xs ! par j))"


text \<open>While the hole moves up, only the edge above it may be out of order, and its children fit its parent.\<close>

definition up_ok :: "(addr \<Rightarrow> int) \<Rightarrow> addr list \<Rightarrow> nat \<Rightarrow> bool" where
  "up_ok key ys i \<longleftrightarrow> (\<forall>j. 0 < j \<and> j < length ys \<and> j \<noteq> i \<longrightarrow> key (ys ! j) \<le> key (ys ! par j))
     \<and> (\<forall>j. 0 < i \<and> 0 < j \<and> j < length ys \<and> par j = i \<longrightarrow> key (ys ! j) \<le> key (ys ! par i))"

lemma up_ok_move:
  assumes ok: "up_ok key (xs[i := d]) i" and p: "p = par i" and i: "0 < i" "i < length xs"
    and le: "key (xs ! p) \<le> key d"
  shows "up_ok key (xs[i := xs ! p, p := d]) p"
proof -
  let ?zs = "xs[i := xs ! p, p := d]"
  have pi: "p < i" using p i(1) by auto
  have a: "key (xs ! j) \<le> key (xs ! par j)" if "0 < j" "j < length xs" "j \<noteq> i" "par j \<noteq> i" for j
    using ok that unfolding up_ok_def by (metis length_list_update nth_list_update_neq)
  have b: "key (xs ! j) \<le> key (xs ! p)" if "0 < j" "j < length xs" "par j = i" for j
  proof -
    have "j \<noteq> i" using that(1,3) by auto
    then show ?thesis using ok that pi i(1) p unfolding up_ok_def
      by (metis length_list_update nth_list_update_neq less_irrefl)
  qed
  have z: "?zs ! j = (if j = p then d else if j = i then xs ! p else xs ! j)" if "j < length xs" for j
    using that pi i(2) by (simp add: nth_list_update)
  have pj: "par j < length xs" if "j < length xs" for j using that by auto
  have "key (?zs ! j) \<le> key (?zs ! par j)" if j: "0 < j" "j < length xs" "j \<noteq> p" for j
  proof -
    consider "j = i" | "j \<noteq> i" "par j = i" | "j \<noteq> i" "par j = p" | "j \<noteq> i" "par j \<noteq> i" "par j \<noteq> p" by blast
    then show ?thesis
    proof cases
      case 1
      with z [OF j(2)] z [OF pj [OF j(2)]] p pi le show ?thesis by simp
    next
      case 2
      with z [OF j(2)] z [OF pj [OF j(2)]] pi b [OF j(1,2)] j(3) show ?thesis by simp
    next
      case 3
      with z [OF j(2)] z [OF pj [OF j(2)]] pi a [OF j(1,2)] j(3) le show ?thesis by simp
    next
      case 4
      with z [OF j(2)] z [OF pj [OF j(2)]] a [OF j(1,2)] j(3) show ?thesis by simp
    qed
  qed
  moreover have "key (?zs ! j) \<le> key (?zs ! par p)" if j: "0 < p" "0 < j" "j < length xs" "par j = p" for j
  proof -
    have pp: "par p < p" using j(1) by auto
    have up: "key (xs ! p) \<le> key (xs ! par p)" using a [of p] j(1) pi i(2) pp by simp
    have zp: "?zs ! par p = xs ! par p" using z [of "par p"] pp pi i(2) by simp
    have "j \<noteq> p" using j by auto
    then show ?thesis using z [OF j(3)] zp up a [OF j(2,3)] j(4) pi by (cases "j = i") simp_all
  qed
  ultimately show ?thesis unfolding up_ok_def length_list_update by blast
qed

lemma up_ok_stop:
  assumes "up_ok key ys i" "0 < i \<Longrightarrow> key (ys ! i) \<le> key (ys ! par i)"
  shows "heap_order key ys"
  using assms by (auto simp: up_ok_def heap_order_def)

lemma key_cmp_le: "key_cmp key cmp \<Longrightarrow> cmp a b < 1 \<longleftrightarrow> key a \<le> key b"
  unfolding key_cmp_def by (metis not_less zle_diff1_eq add_0 int_one_le_iff_zero_less)

lemma heap_order_sift_up:
  assumes "key_cmp key cmp" "up_ok key (xs[i := d]) i" "i < length xs"
  shows "heap_order key (sift_up cmp xs i d)"
  using assms
proof (induction cmp xs i d rule: sift_up.induct)
  case (1 cmp xs i d)
  note le = key_cmp_le [OF 1(2), of "xs ! par i" d]
  show ?case
  proof (cases "0 < i \<and> cmp (xs ! par i) d < 1")
    case True
    then have p: "par i < length xs" using 1(4) by auto
    have "heap_order key (sift_up cmp (xs[i := xs ! par i]) (par i) d)"
    proof (rule 1(1) [OF True 1(2)])
      show "up_ok key (xs[i := xs ! par i, par i := d]) (par i)"
        by (rule up_ok_move [OF 1(3) refl]) (use True 1(4) le in blast)+
    qed (use p in simp)
    then show ?thesis using True by (simp only: sift_up_step)
  next
    case False
    have "par i \<noteq> i" if "0 < i" using that by auto
    with False le 1(4) have "heap_order key (xs[i := d])" by (intro up_ok_stop [OF 1(3)]) auto
    then show ?thesis by (simp only: sift_up_stop [of i cmp xs d, OF False])
  qed
qed

lemma up_ok_new:
  assumes "heap_order key xs"
  shows "up_ok key ((xs @ [y])[length xs := d]) (length xs)"
proof -
  have "par j < length xs" if "0 < j" "j \<le> length xs" for j using that by linarith
  then show ?thesis using assms by (fastforce simp: up_ok_def heap_order_def nth_append)
qed

text \<open>On the way down the stale cell keeps its element, so the order never breaks.\<close>

lemma heap_order_hole_down:
  assumes "key_cmp key cmp" "heap_order key xs" "hole_down cmp xs i = (ys, j)" "i < length xs"
  shows "heap_order key ys \<and> length ys < 2 * j + 2"
  using assms
proof (induction cmp xs i rule: hole_down.induct)
  case (1 cmp xs i)
  let ?c = "big_child cmp xs i"
  show ?case
  proof (cases "2 * i + 2 \<le> length xs")
    case True
    note c = big_child_bounds [OF True, of cmp]
    have big: "key (xs ! k) \<le> key (xs ! ?c)" if "0 < k" "k < length xs" "par k = i" for k
    proof -
      have "k = 2 * i + 1 \<or> k = 2 * i + 2" using that by presburger
      moreover have "0 < cmp (xs ! (2 * i + 1)) (xs ! (2 * i + 2)) \<longleftrightarrow>
          key (xs ! (2 * i + 2)) < key (xs ! (2 * i + 1))" using 1(2) unfolding key_cmp_def by blast
      ultimately show ?thesis using that(2) unfolding big_child_def by (elim disjE) (simp_all split: if_splits)
    qed
    have "heap_order key (xs[i := xs ! ?c])"
      unfolding heap_order_def
    proof (intro allI impI)
      fix k assume k: "0 < k \<and> k < length (xs[i := xs ! ?c])"
      have ik: "key (xs ! k) \<le> key (xs ! par k)" using 1(3) k unfolding heap_order_def by simp
      have ic: "key (xs ! ?c) \<le> key (xs ! i)"
        using 1(3) c unfolding heap_order_def by (metis not_gr_zero not_less_zero)
      have "par k \<noteq> k" using k by linarith
      then show "key (xs[i := xs ! ?c] ! k) \<le> key (xs[i := xs ! ?c] ! par k)"
        using k big [of k] ik ic 1(5) by (cases "par k = i"; cases "k = i") simp_all
    qed
    moreover have "hole_down cmp (xs[i := xs ! ?c]) ?c = (ys, j)"
      using 1(4) hole_down_step [OF True] by simp
    ultimately show ?thesis using 1(1) [OF True 1(2)] c by simp
  next
    case False
    with 1(3,4) show ?thesis by (simp add: hole_down_stop)
  qed
qed

section \<open>The code computes the functions on lists\<close>

lemma arr_get_take: "take (length xs) arr = map Some xs \<Longrightarrow> k < length xs \<Longrightarrow> arr_get arr (int k) = Some (xs ! k)"
  unfolding arr_get_def
  by (metis (no_types, lifting) length_map length_take min_less_iff_conj nat_int nth_map nth_take of_nat_0_le_iff
      of_nat_less_iff)

lemma arr_set_nat: "k < length arr \<Longrightarrow> arr_set arr (int k) v = Some (arr[k := Some v])"
  by (simp add: arr_set_def)

lemma arr_set_take:
  assumes "take (length xs) arr = map Some xs" "k < length xs"
  shows "arr_set arr (int k) v = Some (arr[k := Some v])"
    and "take (length xs) (arr[k := Some v]) = map Some (xs[k := v])"
proof -
  have "k < length arr" using assms by (metis length_map length_take min_less_iff_conj)
  then show "arr_set arr (int k) v = Some (arr[k := Some v])" by (simp add: arr_set_def)
  show "take (length xs) (arr[k := Some v]) = map Some (xs[k := v])"
    using assms(1) by (simp add: take_update_swap map_update)
qed

lemma sdiv_par: "0 < i \<Longrightarrow> (int i - 1) sdiv 2 = int (par i)"
proof -
  have "int n sdiv 2 = int (n div 2)" for n by (cases n) (simp_all add: signed_divide_int_def zdiv_int)
  from this [of "i - 1"] show "0 < i \<Longrightarrow> ?thesis" by (simp add: of_nat_diff)
qed

definition agree_but :: "addr list \<Rightarrow> addr option list \<Rightarrow> nat \<Rightarrow> bool" where
  "agree_but xs arr i \<longleftrightarrow> length xs \<le> length arr \<and> (\<forall>j<length xs. j \<noteq> i \<longrightarrow> arr ! j = Some (xs ! j))"

lemma push_loop_spec:
  assumes "agree_but xs arr i" "i < length xs"
  shows "\<exists>arr' i'. push_loop cmp d arr (int i) ((int i - 1) sdiv 2) = Some (arr', int i')
    \<and> length arr' = length arr \<and> i' < length xs
    \<and> take (length xs) (arr'[i' := Some d]) = map Some (sift_up cmp xs i d)"
  using assms
proof (induction cmp xs i d arbitrary: arr rule: sift_up.induct)
  case (1 cmp xs i d)
  have stop: "take (length xs) (arr[i := Some d]) = map Some (xs[i := d])"
    using 1(2,3) by (auto simp: agree_but_def nth_list_update intro!: nth_equalityI)
  show ?case
  proof (cases "0 < i")
    case True
    let ?p = "par i"
    have p: "?p \<noteq> i" "?p < length xs" using True 1(3) by auto
    have get: "arr_get arr (int ?p) = Some (xs ! ?p)" using 1(2) p by (auto simp: agree_but_def arr_get_def)
    show ?thesis
    proof (cases "cmp (xs ! ?p) d < 1")
      case go: True
      have "agree_but (xs[i := xs ! ?p]) (arr[i := Some (xs ! ?p)]) ?p"
        using 1(2,3) by (auto simp: agree_but_def nth_list_update)
      from 1(1) [OF conjI [OF True go] this] p(2) obtain arr' i' where
        "push_loop cmp d (arr[i := Some (xs ! ?p)]) (int ?p) ((int ?p - 1) sdiv 2) = Some (arr', int i')"
        "length arr' = length arr" "i' < length xs"
        "take (length xs) (arr'[i' := Some d]) = map Some (sift_up cmp xs i d)"
        using sift_up_step [of i cmp xs d, OF True go] by auto
      moreover have "arr_set arr (int i) (xs ! ?p) = Some (arr[i := Some (xs ! ?p)])"
        using 1(2,3) by (simp add: agree_but_def arr_set_def)
      ultimately show ?thesis using True go get sdiv_par [OF True]
        by (subst push_loop.simps) simp
    next
      case False
      then show ?thesis using True get sdiv_par [OF True] stop 1(3) sift_up_stop [of i cmp xs d]
        by (subst push_loop.simps) auto
    qed
  next
    case False
    then show ?thesis using stop 1(3) sift_up_stop [of i cmp xs d] by (subst push_loop.simps) auto
  qed
qed

lemma pop_loop_spec:
  assumes "take (length xs) arr = map Some xs" "i < length xs" "length xs < 2 ^ 30"
  shows "\<exists>arr'. pop_loop cmp (int (length xs)) arr (int i) (2 * int i + 2)
      = Some (arr', int (snd (hole_down cmp xs i)))
    \<and> length arr' = length arr \<and> take (length xs) arr' = map Some (fst (hole_down cmp xs i))"
  using assms
proof (induction cmp xs i arbitrary: arr rule: hole_down.induct)
  case (1 cmp xs i)
  let ?c = "big_child cmp xs i"
  show ?case
  proof (cases "2 * i + 2 \<le> length xs")
    case True
    note c = big_child_bounds [OF True, of cmp]
    note upd = arr_set_take [OF 1(2,3), of "xs ! ?c"]
    have mc: "2 * int i + 2 = int (2 * i + 2)" "2 * int i + 2 - 1 = int (2 * i + 1)" by simp_all
    have "2 * int i + 2 \<noteq> int (length xs) \<Longrightarrow> arr_get arr (2 * int i + 2) = Some (xs ! (2 * i + 2))"
      unfolding mc(1) by (rule arr_get_take [OF 1(2)]) (use True in simp)
    moreover have "arr_get arr (2 * int i + 2 - 1) = Some (xs ! (2 * i + 1))"
      unfolding mc(2) by (rule arr_get_take [OF 1(2)]) (use True in simp)
    ultimately have child: "(if 2 * int i + 2 = int (length xs) then Some True
          else do {
            l \<leftarrow> arr_get arr (2 * int i + 2 - 1);
            r \<leftarrow> arr_get arr (2 * int i + 2);
            Some (cmp l r > 0)
          }) = Some (?c = 2 * i + 1)"
      by (auto simp: big_child_def)
    have pick: "(if ?c = 2 * i + 1 then 2 * int i + 2 - 1 else 2 * int i + 2) = int ?c"
      by (auto simp: big_child_def)
    have get: "arr_get arr (int ?c) = Some (xs ! ?c)" by (rule arr_get_take [OF 1(2)]) (use c in simp)
    have next_child: "to_int32 (2 * (int ?c + 1)) = Some (2 * int ?c + 2)"
      using c 1(4) by (simp add: to_int32_def)
    from 1(1) [OF True, of "arr[i := Some (xs ! ?c)]"] upd(2) c 1(4) obtain arr' where
      "pop_loop cmp (int (length xs)) (arr[i := Some (xs ! ?c)]) (int ?c) (2 * int ?c + 2)
        = Some (arr', int (snd (hole_down cmp xs i)))"
      "length arr' = length arr" "take (length xs) arr' = map Some (fst (hole_down cmp xs i))"
      using hole_down_step [OF True, of cmp] by auto
    moreover have "2 * int i + 2 \<le> int (length xs)" using True by simp
    ultimately show ?thesis
      by (subst pop_loop.simps) (simp only: child pick get upd(1) next_child Let_def bind.bind_lunit if_True, blast)
  next
    case False
    then show ?thesis using 1(2) by (subst pop_loop.simps) (simp add: hole_down_stop)
  qed
qed

text \<open>
  \<open>heap_holds h xs\<close>: the live part of the array is \<open>xs\<close>. The bound on the capacity keeps the \<^verbatim>\<open>int\<close>
  indexes of the code in range.
\<close>

definition heap_holds :: "max_heap \<Rightarrow> addr list \<Rightarrow> bool" where
  "heap_holds h xs \<longleftrightarrow> length xs = unat (hn h) \<and> length xs \<le> unat (ha h) \<and> length (harr h) = unat (ha h)
     \<and> unat (ha h) < 2 ^ 30 \<and> take (length xs) (harr h) = map Some xs"

lemma new_max_heap_holds: "unat sz < 2 ^ 30 \<Longrightarrow> heap_holds (new_max_heap sz cmp) []"
  by (simp add: heap_holds_def new_max_heap_def)

lemma heap_holds_extend:
  assumes "heap_holds h xs" "length xs + 16 < 2 ^ 30"
  defines "h' \<equiv> if hn h \<ge> ha h then extend_max_heap h else h"
  shows "heap_holds h' xs \<and> length xs < unat (ha h') \<and> hcmp h' = hcmp h \<and> hn h' = hn h"
proof (cases "hn h \<ge> ha h")
  case True
  then have a: "unat (ha h) = length xs" using assms(1) by (auto simp: heap_holds_def word_le_nat_alt)
  then have "unat (ha h + 16) = length xs + 16"
    using assms(2) by (subst unat_add_lem [THEN iffD1]) auto
  moreover have "take (length xs) (harr h) = map Some xs" "length (harr h) = length xs" "length xs = unat (hn h)"
    using assms(1) a unfolding heap_holds_def by argo+
  ultimately show ?thesis using True assms(2) by (simp add: h'_def heap_holds_def extend_max_heap_def Let_def)
next
  case False
  with assms show ?thesis by (auto simp: heap_holds_def word_le_nat_alt)
qed

lemma push_max_heap_spec:
  assumes "heap_holds h xs" "length xs + 16 < 2 ^ 30"
  shows "\<exists>h'. push_max_heap h d = Some h' \<and> hcmp h' = hcmp h
    \<and> heap_holds h' (sift_up (hcmp h) (xs @ [d]) (length xs) d)"
proof -
  define g where "g = (if hn h \<ge> ha h then extend_max_heap h else h)"
  from heap_holds_extend [OF assms] have g: "heap_holds g xs" "length xs < unat (ha g)" "hcmp g = hcmp h"
    "hn g = hn h" by (simp_all add: g_def)
  have n: "length xs = unat (hn h)" using assms(1) by (simp add: heap_holds_def)
  have "agree_but (xs @ [d]) (harr g) (length xs)"
    unfolding agree_but_def
  proof (intro conjI allI impI)
    show "length (xs @ [d]) \<le> length (harr g)" using g by (simp add: heap_holds_def)
    fix j assume "j < length (xs @ [d])" "j \<noteq> length xs"
    then have j: "j < length xs" by simp
    have "take (length xs) (harr g) = map Some xs" using g(1) unfolding heap_holds_def by blast
    from arg_cong [OF this, of "\<lambda>l. l ! j"] j show "harr g ! j = Some ((xs @ [d]) ! j)" by (simp add: nth_append)
  qed
  from push_loop_spec [OF this, of "hcmp h" d] obtain arr i
    where loop: "push_loop (hcmp h) d (harr g) (int (length xs)) ((int (length xs) - 1) sdiv 2) = Some (arr, int i)"
      and len: "length arr = length (harr g)" and i: "i < length xs + 1"
      and res: "take (length xs + 1) (arr[i := Some d]) = map Some (sift_up (hcmp h) (xs @ [d]) (length xs) d)"
    by auto
  have bound: "length xs + 1 < 2 ^ 30" using assms(2) by simp
  have sint: "sint (hn h) = int (length xs)"
    using n bound by (simp add: sint_unat)
  have set: "arr_set arr (int i) d = Some (arr[i := Some d])"
    by (rule arr_set_nat) (use i len g in \<open>simp add: heap_holds_def\<close>)
  have "unat (hn h + 1) = length xs + 1" using n bound by (subst unat_add_lem [THEN iffD1]) auto
  then have "heap_holds (g\<lparr>hn := hn h + 1, harr := arr[i := Some d]\<rparr>)
      (sift_up (hcmp h) (xs @ [d]) (length xs) d)"
    using g len res by (simp add: heap_holds_def)
  then show ?thesis using loop sint set g unfolding push_max_heap_def g_def [symmetric] Let_def by simp
qed

lemma pop_max_heap_spec:
  assumes "heap_holds h xs" "xs \<noteq> []" "hole_down (hcmp h) xs 0 = (ys, j)"
  shows "\<exists>h'. pop_max_heap h = Some (hd xs, h') \<and> hcmp h' = hcmp h
    \<and> heap_holds h' (butlast (ys[j := last ys]))"
proof -
  have n: "length xs = unat (hn h)" and T: "take (length xs) (harr h) = map Some xs"
    and b: "length xs < 2 ^ 30" using assms(1) by (auto simp: heap_holds_def)
  have pos: "hn h > 0" using n assms(2) by (metis length_0_conv unat_0 word_gt_0)
  have pred: "unat (hn h - 1) = length xs - 1" using n pos by (metis unat_minus_one word_gt_0)
  have ylen: "length ys = length xs" and j: "j < length xs"
    using length_hole_down [OF assms(3)] hole_down_bound [OF assms(3)] assms(2) by auto
  from pop_loop_spec [OF T _ b, of 0 "hcmp h"] assms(2,3) obtain arr where
    loop: "pop_loop (hcmp h) (int (length xs)) (harr h) 0 2 = Some (arr, int j)"
    and len: "length arr = length (harr h)" and A: "take (length ys) arr = map Some ys"
    by (auto simp: ylen)
  have "ys \<noteq> []" using j ylen by auto
  then have lst: "last ys = ys ! (length xs - 1)" using ylen by (simp add: last_conv_nth)
  have "arr_get arr (int (length xs - 1)) = Some (last ys)"
    unfolding lst by (rule arr_get_take [OF A]) (use j ylen in simp)
  moreover have "arr_get (harr h) 0 = Some (hd xs)"
    using arr_get_take [OF T, of 0] assms(2) unfolding hd_conv_nth [OF assms(2)] by simp
  moreover note set = arr_set_take [OF A, of j "last ys", unfolded ylen, OF j]
  moreover have "take (length xs - 1) (arr[j := Some (last ys)]) = map Some (butlast (ys[j := last ys]))"
  proof -
    have "take (length xs - 1) (arr[j := Some (last ys)])
        = take (length xs - 1) (take (length xs) (arr[j := Some (last ys)]))" by simp
    also have "\<dots> = map Some (butlast (ys[j := last ys]))"
      unfolding set(2) by (simp add: take_map butlast_conv_take ylen)
    finally show ?thesis .
  qed
  then have "heap_holds (h\<lparr>hn := hn h - 1, harr := arr[j := Some (last ys)]\<rparr>) (butlast (ys[j := last ys]))"
    using assms(1) len ylen pred by (auto simp: heap_holds_def)
  moreover note loop [unfolded n] pred [unfolded n]
  ultimately show ?thesis using pos unfolding pop_max_heap_def n by simp
qed

lemma mset_push: "mset (sift_up cmp (xs @ [d]) (length xs) d) = add_mset d (mset xs)"
  by (subst mset_sift_up) simp_all

lemma mset_pop:
  assumes "xs \<noteq> []" "hole_down cmp xs 0 = (ys, j)"
  shows "mset xs = add_mset (hd xs) (mset (butlast (ys[j := last ys])))"
proof -
  have len: "length ys = length xs" and j: "j < length ys"
    using length_hole_down [OF assms(2)] hole_down_bound [OF assms(2)] assms(1) by auto
  have ne: "ys \<noteq> []" using j by auto
  have xs: "xs[0 := hd xs] = xs" using assms(1) by (simp add: hd_conv_nth)
  have "mset (ys[j := hd xs]) = mset xs"
    using mset_hole_down [OF assms(2), of "hd xs"] assms(1) by (simp add: xs)
  moreover have "mset (ys[j := hd xs]) = add_mset (hd xs) (mset (butlast (ys[j := last ys])))"
  proof (cases "j = length ys - 1")
    case True
    have "ys[j := v] = butlast ys @ [v]" for v
      using ne True by (metis append_butlast_last_id length_butlast list_update_length)
    then show ?thesis by simp
  next
    case False
    with j have jb: "j < length (butlast ys)" by simp
    have "ys = butlast ys @ [last ys]" using ne by simp
    then have "ys[j := v] = (butlast ys)[j := v] @ [last ys]" for v
      using jb by (metis list_update_append1)
    then show ?thesis using jb by (simp add: mset_update)
  qed
  ultimately show ?thesis by simp
qed

text \<open>The last cell keeps its element until it is moved; the elements of the array are old ones.\<close>

lemma hole_down_last:
  "hole_down cmp xs i = (ys, j) \<Longrightarrow> i < length xs \<Longrightarrow> last ys = last xs \<and> set ys \<subseteq> set xs"
proof (induction cmp xs i rule: hole_down.induct)
  case (1 cmp xs i)
  let ?c = "big_child cmp xs i"
  show ?case
  proof (cases "2 * i + 2 \<le> length xs")
    case True
    note c = big_child_bounds [OF True, of cmp]
    have "hole_down cmp (xs[i := xs ! ?c]) ?c = (ys, j)" using 1(2) hole_down_step [OF True] by simp
    with 1(1) [OF True] c have ih: "last ys = last (xs[i := xs ! ?c])" "set ys \<subseteq> set (xs[i := xs ! ?c])"
      by auto
    have "set (xs[i := xs ! ?c]) \<subseteq> set xs" using c by (intro set_update_subsetI) auto
    moreover have "last (xs[i := xs ! ?c]) = last xs"
      using True 1(3) by (subst last_list_update) auto
    ultimately show ?thesis using ih by auto
  next
    case False
    with 1(2) show ?thesis by (simp add: hole_down_stop)
  qed
qed

lemma heap_order_last_least:
  assumes "key_cmp key cmp" "heap_order key xs" "xs \<noteq> []" "hole_down cmp xs 0 = (ys, j)"
    and least: "\<forall>x\<in>set xs. key (last xs) \<le> key x"
  shows "heap_order key (butlast (ys[j := last ys]))"
proof -
  have len: "length ys = length xs" and j: "j < length ys"
    using length_hole_down [OF assms(4)] hole_down_bound [OF assms(4)] assms(3) by auto
  have ord: "heap_order key ys" and leaf: "length ys < 2 * j + 2"
    using heap_order_hole_down [OF assms(1,2,4)] assms(3) by auto
  have lst: "last ys = last xs" "set ys \<subseteq> set xs" using hole_down_last [OF assms(4)] assms(3) by auto
  show ?thesis
    unfolding heap_order_def
  proof (intro allI impI)
    fix k assume k: "0 < k \<and> k < length (butlast (ys[j := last ys]))"
    have kl: "k < length ys - 1" "par k < length ys - 1" using k by simp_all linarith
    have "par k \<noteq> j" using kl leaf k by linarith
    moreover have "0 < k" "k < length ys" using k kl(1) by linarith+
    with ord have "key (ys ! k) \<le> key (ys ! par k)" unfolding heap_order_def by blast
    moreover have "key (last ys) \<le> key (ys ! par k)"
    proof -
      have "par k < length ys" using kl(2) by (rule less_le_trans) simp
      from nth_mem [OF this] have "ys ! par k \<in> set xs" using lst(2) by blast
      with least lst(1) show ?thesis by simp
    qed
    ultimately show "key (butlast (ys[j := last ys]) ! k) \<le> key (butlast (ys[j := last ys]) ! par k)"
      using kl j by (cases "k = j") (simp_all add: nth_butlast)
  qed
qed

section \<open>The operations on lists\<close>

definition list_push :: "(addr \<Rightarrow> addr \<Rightarrow> int) \<Rightarrow> addr list \<Rightarrow> addr \<Rightarrow> addr list" where
  "list_push cmp xs d = sift_up cmp (xs @ [d]) (length xs) d"

definition list_pop :: "(addr \<Rightarrow> addr \<Rightarrow> int) \<Rightarrow> addr list \<Rightarrow> addr list" where
  "list_pop cmp xs = (let (ys, j) = hole_down cmp xs 0 in butlast (ys[j := last ys]))"

fun list_pops :: "(addr \<Rightarrow> addr \<Rightarrow> int) \<Rightarrow> nat \<Rightarrow> addr list \<Rightarrow> addr list" where
  "list_pops cmp 0 xs = []"
| "list_pops cmp (Suc k) xs = hd xs # list_pops cmp k (list_pop cmp xs)"

section \<open>The contract of a bag\<close>

fun push_all :: "('st \<Rightarrow> 'a \<Rightarrow> 'st option) \<Rightarrow> 'st \<Rightarrow> 'a list \<Rightarrow> 'st option" where
  "push_all push st [] = Some st"
| "push_all push st (x # xs) = do { st \<leftarrow> push st x; push_all push st xs }"

fun pop_n :: "('st \<Rightarrow> ('a \<times> 'st) option) \<Rightarrow> nat \<Rightarrow> 'st \<Rightarrow> ('a list \<times> 'st) option" where
  "pop_n pop 0 st = Some ([], st)"
| "pop_n pop (Suc k) st = do { (x, st) \<leftarrow> pop st; (xs, st) \<leftarrow> pop_n pop k st; Some (x # xs, st) }"

text \<open>\<open>bag st B\<close>: the state holds the elements \<open>B\<close>; \<open>room\<close> is the number of elements it may reach.\<close>

locale bag_box =
  fixes bag :: "'st \<Rightarrow> 'a multiset \<Rightarrow> bool"
    and room :: nat
    and push :: "'st \<Rightarrow> 'a \<Rightarrow> 'st option"
    and pop :: "'st \<Rightarrow> ('a \<times> 'st) option"
  assumes push_law: "bag st B \<Longrightarrow> size B < room \<Longrightarrow> \<exists>st'. push st x = Some st' \<and> bag st' (add_mset x B)"
    and pop_law: "bag st B \<Longrightarrow> B \<noteq> {#} \<Longrightarrow> \<exists>x st' C. pop st = Some (x, st') \<and> B = add_mset x C \<and> bag st' C"
begin

lemma push_all_bag:
  "bag st B \<Longrightarrow> size B + length xs \<le> room \<Longrightarrow>
     \<exists>st'. push_all push st xs = Some st' \<and> bag st' (mset xs + B)"
proof (induction xs arbitrary: st B)
  case (Cons x xs)
  with push_law [OF Cons.prems(1), of x] obtain st1 where "push st x = Some st1" "bag st1 (add_mset x B)"
    by auto
  with Cons.IH [of st1 "add_mset x B"] Cons.prems(2) show ?case by auto
qed auto

lemma pop_n_bag:
  "bag st B \<Longrightarrow> size B = k \<Longrightarrow> \<exists>xs st'. pop_n pop k st = Some (xs, st') \<and> mset xs = B \<and> bag st' {#}"
proof (induction k arbitrary: st B)
  case (Suc k)
  then have "B \<noteq> {#}" by auto
  with pop_law [OF Suc.prems(1)] obtain x st1 C where "pop st = Some (x, st1)" "B = add_mset x C" "bag st1 C"
    by blast
  with Suc.IH [of st1 C] Suc.prems(2) show ?case by auto
qed auto

theorem drain:
  assumes "bag st {#}" "length xs \<le> room"
  shows "\<exists>st1 ys st2. push_all push st xs = Some st1 \<and> pop_n pop (length xs) st1 = Some (ys, st2)
    \<and> mset ys = mset xs \<and> bag st2 {#}"
proof -
  from push_all_bag [OF assms(1)] assms(2) obtain st1 where st1: "push_all push st xs = Some st1"
    "bag st1 (mset xs)" by auto
  from pop_n_bag [OF st1(2)] st1(1) show ?thesis by auto
qed

end

definition heap_bag :: "max_heap \<Rightarrow> addr multiset \<Rightarrow> bool" where
  "heap_bag h B \<longleftrightarrow> (\<exists>xs. heap_holds h xs \<and> mset xs = B)"

interpretation heap: bag_box heap_bag "2 ^ 30 - 16" push_max_heap pop_max_heap
proof
  fix st B and x :: addr
  assume "heap_bag st B" "size B < 2 ^ 30 - 16"
  then obtain xs where xs: "heap_holds st xs" "mset xs = B" "length xs + 16 < 2 ^ 30"
    by (auto simp: heap_bag_def)
  from push_max_heap_spec [OF xs(1,3), of x] xs(2) show "\<exists>st'. push_max_heap st x = Some st' \<and> heap_bag st' (add_mset x B)"
    unfolding heap_bag_def by (metis mset_push)
next
  fix st B
  assume "heap_bag st B" "B \<noteq> {#}"
  then obtain xs where xs: "heap_holds st xs" "mset xs = B" "xs \<noteq> []" by (auto simp: heap_bag_def)
  obtain ys j where down: "hole_down (hcmp st) xs 0 = (ys, j)" by (meson surj_pair)
  from pop_max_heap_spec [OF xs(1,3) down] mset_pop [OF xs(3) down] xs(2)
  show "\<exists>x st' C. pop_max_heap st = Some (x, st') \<and> B = add_mset x C \<and> heap_bag st' C"
    unfolding heap_bag_def by metis
qed

lemma push_all_list:
  "heap_holds h xs \<Longrightarrow> length xs + length ds + 16 \<le> 2 ^ 30 \<Longrightarrow>
     \<exists>h'. push_all push_max_heap h ds = Some h' \<and> hcmp h' = hcmp h \<and> heap_holds h' (foldl (list_push (hcmp h)) xs ds)"
proof (induction ds arbitrary: h xs)
  case (Cons d ds)
  from push_max_heap_spec [OF Cons.prems(1), of d] Cons.prems(2) obtain h1 where
    "push_max_heap h d = Some h1" "hcmp h1 = hcmp h" "heap_holds h1 (list_push (hcmp h) xs d)"
    by (auto simp: list_push_def)
  moreover have "length (list_push (hcmp h) xs d) = length xs + 1" by (simp add: list_push_def)
  ultimately show ?case using Cons.IH [of h1 "list_push (hcmp h) xs d"] Cons.prems(2) by auto
qed simp

lemma pop_n_list:
  "heap_holds h xs \<Longrightarrow> k \<le> length xs \<Longrightarrow>
     map_option fst (pop_n pop_max_heap k h) = Some (list_pops (hcmp h) k xs)"
proof (induction k arbitrary: h xs)
  case (Suc k)
  obtain ys j where down: "hole_down (hcmp h) xs 0 = (ys, j)" by (meson surj_pair)
  from Suc.prems(2) have ne: "xs \<noteq> []" by auto
  from pop_max_heap_spec [OF Suc.prems(1) ne down] obtain h1 where h1: "pop_max_heap h = Some (hd xs, h1)"
    "hcmp h1 = hcmp h" "heap_holds h1 (list_pop (hcmp h) xs)" by (auto simp: list_pop_def down)
  have "length (list_pop (hcmp h) xs) = length xs - 1"
    using length_hole_down [OF down] by (simp add: list_pop_def down)
  with Suc.IH [OF h1(3)] Suc.prems(2) h1(2)
  have "map_option fst (pop_n pop_max_heap k h1) = Some (list_pops (hcmp h) k (list_pop (hcmp h) xs))" by simp
  with h1(1) show ?case by (cases "pop_n pop_max_heap k h1") auto
qed simp

section \<open>Properties\<close>

definition int_cmp :: "addr \<Rightarrow> addr \<Rightarrow> int" where
  "int_cmp a b = int a - int b"

lemma key_int_cmp: "key_cmp int int_cmp"
  by (simp add: key_cmp_def int_cmp_def)

definition demo_heap :: max_heap where
  "demo_heap = \<lparr>hn = 3, ha = 3, hcmp = int_cmp, harr = [Some 9, Some 7, Some 5]\<rparr>"

lemma demo_heap_holds: "heap_holds demo_heap [9, 7, 5]"
  by (simp add: heap_holds_def demo_heap_def)

lemma demo_heap_order: "heap_order int [9, 7, 5]"
  by (auto simp: heap_order_def less_Suc_eq nth_Cons')

text \<open>
  C14: \<^verbatim>\<open>push_max_heap\<close> on a heap in heap order returns a heap in heap order that holds the old elements
  and the new one; the array is extended when it is full, and no access leaves it.
\<close>

theorem push_max_heap_correct:
  assumes "heap_holds h xs" "heap_order key xs" "key_cmp key (hcmp h)" "length xs + 16 < 2 ^ 30"
  shows "\<exists>h' ys. push_max_heap h d = Some h' \<and> heap_holds h' ys \<and> heap_order key ys
    \<and> mset ys = add_mset d (mset xs) \<and> max_heap_size h' = max_heap_size h + 1"
proof -
  from push_max_heap_spec [OF assms(1,4), of d] obtain h' where h': "push_max_heap h d = Some h'"
    "heap_holds h' (sift_up (hcmp h) (xs @ [d]) (length xs) d)" by blast
  have "heap_order key (sift_up (hcmp h) (xs @ [d]) (length xs) d)"
    by (rule heap_order_sift_up [OF assms(3) up_ok_new [OF assms(2)]]) simp
  moreover have "max_heap_size h' = max_heap_size h + 1"
    using h'(1) by (auto simp: push_max_heap_def max_heap_size_def extend_max_heap_def Let_def
        bind_eq_Some_conv split: if_splits)
  ultimately show ?thesis using h' mset_push by blast
qed

theorem push_max_heap_correct_witness:
  "\<exists>h' ys. push_max_heap demo_heap 8 = Some h' \<and> heap_holds h' ys \<and> heap_order int ys
    \<and> mset ys = add_mset 8 (mset [9, 7, 5]) \<and> max_heap_size h' = max_heap_size demo_heap + 1"
  by (rule push_max_heap_correct [OF demo_heap_holds demo_heap_order])
    (simp_all add: demo_heap_def key_int_cmp)



text \<open>
  \<^verbatim>\<open>pop_max_heap\<close> keeps the heap order when the last element of the array, which it puts into the
  hole at a leaf, is a least element.
\<close>

theorem pop_max_heap_order_if_last_least:
  assumes "heap_holds h xs" "heap_order key xs" "key_cmp key (hcmp h)" "xs \<noteq> []"
    and "\<forall>x\<in>set xs. key (last xs) \<le> key x"
  shows "\<exists>h' ys. pop_max_heap h = Some (hd xs, h') \<and> heap_holds h' ys \<and> heap_order key ys"
proof -
  obtain ys j where down: "hole_down (hcmp h) xs 0 = (ys, j)" by (meson surj_pair)
  from pop_max_heap_spec [OF assms(1,4) down] heap_order_last_least [OF assms(3,2,4) down assms(5)]
  show ?thesis by blast
qed

theorem pop_max_heap_order_if_last_least_witness:
  "\<exists>h' ys. pop_max_heap demo_heap = Some (hd [9, 7, 5], h') \<and> heap_holds h' ys \<and> heap_order int ys"
  by (rule pop_max_heap_order_if_last_least [OF demo_heap_holds demo_heap_order])
    (simp_all add: demo_heap_def key_int_cmp)

text \<open>
  In general \<^verbatim>\<open>pop_max_heap\<close> breaks the heap order: after 2, 3, 5, 6, 1, 4 were pushed into a new
  heap, six calls return 6, 5, 4, 2, 3, 1 -- 2 before 3.
\<close>

theorem pop_max_heap_out_of_order:
  "do {
     h \<leftarrow> push_all push_max_heap (new_max_heap 16 int_cmp) [2, 3, 5, 6, 1, 4];
     map_option fst (pop_n pop_max_heap 6 h)
   } = Some [6, 5, 4, 2, 3, 1]"
proof -
  have new: "heap_holds (new_max_heap 16 int_cmp) []" "hcmp (new_max_heap 16 int_cmp) = int_cmp"
    by (rule new_max_heap_holds, simp) (simp add: new_max_heap_def)
  have "foldl (list_push int_cmp) [] [2, 3, 5, 6, 1, 4] = [6, 5, 4, 2, 1, 3]"
    by (simp add: list_push_def sift_up.simps int_cmp_def nth_append)
  with push_all_list [OF new(1), of "[2, 3, 5, 6, 1, 4]"] new(2) obtain h where
    h: "push_all push_max_heap (new_max_heap 16 int_cmp) [2, 3, 5, 6, 1, 4] = Some h"
      "heap_holds h [6, 5, 4, 2, 1, 3]" "hcmp h = int_cmp" by auto
  have "map_option fst (pop_n pop_max_heap 6 h) = Some (list_pops int_cmp 6 [6, 5, 4, 2, 1, 3])"
    using pop_n_list [OF h(2), of 6] h(3) by simp
  also have "list_pops int_cmp 6 [6, 5, 4, 2, 1, 3] = [6, 5, 4, 2, 3, 1]"
    by (simp add: eval_nat_numeral list_pop_def hole_down.simps big_child_def int_cmp_def)
  finally show ?thesis using h(1) by (simp del: push_all.simps pop_n.simps)
qed

text \<open>
  Pushing any sequence of elements into an empty heap and popping as many times returns a
  permutation of the sequence: nothing is lost, nothing is returned twice.
\<close>

theorem max_heap_drain:
  assumes "unat sz < 2 ^ 30" "length xs \<le> 2 ^ 30 - 16"
  shows "\<exists>h1 ys h2. push_all push_max_heap (new_max_heap sz cmp) xs = Some h1
    \<and> pop_n pop_max_heap (length xs) h1 = Some (ys, h2) \<and> mset ys = mset xs \<and> max_heap_size h2 = 0"
proof -
  have "heap_bag (new_max_heap sz cmp) {#}" using new_max_heap_holds [OF assms(1)] by (auto simp: heap_bag_def)
  from heap.drain [OF this assms(2)] obtain h1 ys h2 where r: "push_all push_max_heap (new_max_heap sz cmp) xs = Some h1"
    "pop_n pop_max_heap (length xs) h1 = Some (ys, h2)" "mset ys = mset xs" "heap_bag h2 {#}" by blast
  have "max_heap_size h2 = 0" using r(4) by (simp add: heap_bag_def heap_holds_def max_heap_size_def unat_eq_0)
  with r show ?thesis by blast
qed

theorem max_heap_drain_witness:
  "\<exists>h1 ys h2. push_all push_max_heap (new_max_heap 2 int_cmp) [4, 8, 6] = Some h1
    \<and> pop_n pop_max_heap (length [4, 8, 6 :: addr]) h1 = Some (ys, h2) \<and> mset ys = mset [4, 8, 6]
    \<and> max_heap_size h2 = 0"
  by (rule max_heap_drain) simp_all

end
