(* ===== verification/Ez_Malloc.thy ===== *)
theory Ez_Malloc
  imports Ez_Prelude
begin

text \<open>
  The allocator of \<^verbatim>\<open>src/ez_malloc.c\<close>: a layer over the C library's allocator that counts the memory in
  use, zeroes new blocks and calls a handler when memory runs out. The C library is a parameter:
  every call takes the answer of the library, the returned pointer (\<open>NULL\<close> when it has no memory) with the
  usable size of the block, and \<open>good_malloc\<close> and its kin state what the library promises about it.
  The calls of the log are left out, they do not act on the state.
\<close>

unbundle bit_operations_syntax

section \<open>Alignment\<close>

definition ez_align_to :: "u64 \<Rightarrow> u64 \<Rightarrow> u64" where
  "ez_align_to d a = (d + a) AND (NOT a)"

definition EZ_MARK :: "u64 \<Rightarrow> u64" where
  "EZ_MARK f = f - 1"

definition EZ_ALIGN :: "u64 \<Rightarrow> u64" where
  "EZ_ALIGN d = ez_align_to d (EZ_MARK 8)"

lemma unat_and_not_7: "unat (x AND NOT 7 :: u64) = unat x div 8 * 8"
proof -
  have "(7 :: u64) = mask 3" by (simp add: mask_eq_exp_minus_1)
  then have "x AND NOT 7 = push_bit 3 (drop_bit 3 x)"
    by (simp add: bit_eq_iff bit_simps) auto
  then have "x AND NOT 7 = of_nat (unat x div 8 * 8)"
    by (simp add: push_bit_eq_mult drop_bit_eq_div unat_div word_arith_nat_div)
  moreover have "unat x div 8 * 8 < 2 ^ 64" using le_less_trans [OF div_times_less_eq_dividend unsigned_less [of x]] by simp
  then have "unat (of_nat (unat x div 8 * 8) :: u64) = unat x div 8 * 8"
    unfolding unat_of_nat by simp
  ultimately show ?thesis by metis
qed

lemma EZ_ALIGN_unat: "unat (EZ_ALIGN d) = (unat d + 7) mod 2 ^ 64 div 8 * 8"
proof -
  have "EZ_MARK 8 = 7" by (simp add: EZ_MARK_def)
  then show ?thesis unfolding EZ_ALIGN_def ez_align_to_def by (simp only: unat_and_not_7) (simp add: unat_word_ariths)
qed

section \<open>State\<close>

datatype oom_handler = Oom_Abort | Oom_Return

record block =
  usable :: u64
  content :: "u8 option list"

record alloc_state =
  live :: "addr \<rightharpoonup> block"
  used_memory :: u64
  zmalloc_oom_handler :: oom_handler

text \<open>A call returns, ends the program, or is undefined.\<close>

datatype 'a outcome = Return 'a | Abort | Undef

type_synonym answer = "addr \<times> u64"

definition good_malloc :: "alloc_state \<Rightarrow> nat \<Rightarrow> answer \<Rightarrow> bool" where
  "good_malloc st n a \<longleftrightarrow> (case a of (p, u) \<Rightarrow> p = NULL \<or> live st p = None \<and> n \<le> unat u)"

definition good_realloc :: "alloc_state \<Rightarrow> addr \<Rightarrow> nat \<Rightarrow> answer \<Rightarrow> bool" where
  "good_realloc st ptr n a \<longleftrightarrow>
     (case a of (p, u) \<Rightarrow> p = NULL \<or> (p = ptr \<or> live st p = None) \<and> n \<le> unat u)"

definition malloc_size :: "alloc_state \<Rightarrow> addr \<Rightarrow> u64 option" where
  "malloc_size st p = (if p = NULL then Some 0 else map_option usable (live st p))"

definition new_block :: "alloc_state \<Rightarrow> answer \<Rightarrow> u8 option list \<Rightarrow> alloc_state" where
  "new_block st a bs = (case a of (p, u) \<Rightarrow>
     if p = NULL then st
     else st\<lparr>live := (live st)(p \<mapsto>
       \<lparr>usable = u, content = take (unat u) bs @ replicate (unat u - length bs) None\<rparr>)\<rparr>)"

definition memset_zero :: "alloc_state \<Rightarrow> addr \<Rightarrow> nat \<Rightarrow> alloc_state option" where
  "memset_zero st p n =
     (if p = NULL then None
      else case live st p of
        None \<Rightarrow> None
      | Some b \<Rightarrow>
          if n \<le> length (content b)
          then Some (st\<lparr>live := (live st)(p \<mapsto> b\<lparr>content := replicate n (Some 0) @ drop n (content b)\<rparr>)\<rparr>)
          else None)"

section \<open>The operations\<close>

definition update_zmalloc_stat_alloc :: "alloc_state \<Rightarrow> u64 \<Rightarrow> alloc_state" where
  "update_zmalloc_stat_alloc st n = st\<lparr>used_memory := used_memory st + EZ_ALIGN n\<rparr>"

definition update_zmalloc_stat_free :: "alloc_state \<Rightarrow> u64 \<Rightarrow> alloc_state" where
  "update_zmalloc_stat_free st n = st\<lparr>used_memory := used_memory st - EZ_ALIGN n\<rparr>"

definition zmalloc :: "alloc_state \<Rightarrow> u64 \<Rightarrow> answer \<Rightarrow> (alloc_state \<times> addr) outcome" where
  "zmalloc st sz a =
     (let ptr = fst a; st = new_block st a [] in
      if ptr = NULL \<and> zmalloc_oom_handler st = Oom_Abort then Abort
      else case malloc_size st ptr of
        None \<Rightarrow> Undef
      | Some n \<Rightarrow>
          (case memset_zero (update_zmalloc_stat_alloc st n) ptr (unat sz) of
             None \<Rightarrow> Undef
           | Some st \<Rightarrow> Return (st, ptr)))"

definition zcalloc :: "alloc_state \<Rightarrow> u64 \<Rightarrow> u64 \<Rightarrow> answer \<Rightarrow> (alloc_state \<times> addr) outcome" where
  "zcalloc st cnt sz a =
     (let ptr = fst a; st = new_block st a (replicate (unat cnt * unat sz) (Some 0)) in
      if ptr = NULL \<and> zmalloc_oom_handler st = Oom_Abort then Abort
      else case malloc_size st ptr of
        None \<Rightarrow> Undef
      | Some n \<Rightarrow> Return (update_zmalloc_stat_alloc st n, ptr))"

text \<open>\<^verbatim>\<open>realloc\<close> moves the block and keeps the common part of its bytes; without memory it keeps the block.\<close>

definition lib_realloc :: "alloc_state \<Rightarrow> addr \<Rightarrow> answer \<Rightarrow> alloc_state" where
  "lib_realloc st ptr a =
     (if fst a = NULL then st
      else case live st ptr of
        None \<Rightarrow> st
      | Some b \<Rightarrow> new_block (st\<lparr>live := (live st)(ptr := None)\<rparr>) a (content b))"

definition zrealloc :: "alloc_state \<Rightarrow> addr \<Rightarrow> u64 \<Rightarrow> answer \<Rightarrow> (alloc_state \<times> addr) outcome" where
  "zrealloc st ptr sz a =
     (if ptr = NULL then zmalloc st sz a
      else case malloc_size st ptr of
        None \<Rightarrow> Undef
      | Some oldsize \<Rightarrow>
          (let newptr = fst a; st = lib_realloc st ptr a in
           if newptr = NULL \<and> zmalloc_oom_handler st = Oom_Abort then Abort
           else let st = update_zmalloc_stat_free st oldsize in
             (case malloc_size st newptr of
                None \<Rightarrow> Undef
              | Some n \<Rightarrow> Return (update_zmalloc_stat_alloc st n, newptr))))"

definition zfree :: "alloc_state \<Rightarrow> addr \<Rightarrow> alloc_state outcome" where
  "zfree st ptr =
     (if ptr = NULL then Return st
      else case malloc_size st ptr of
        None \<Rightarrow> Undef
      | Some n \<Rightarrow>
          (let st = update_zmalloc_stat_free st n in Return (st\<lparr>live := (live st)(ptr := None)\<rparr>)))"

definition ez_malloc_used_memory :: "alloc_state \<Rightarrow> u64" where
  "ez_malloc_used_memory st = used_memory st"

definition ezmalloc_set_oom_handler :: "alloc_state \<Rightarrow> oom_handler \<Rightarrow> alloc_state" where
  "ezmalloc_set_oom_handler st h = st\<lparr>zmalloc_oom_handler := h\<rparr>"

definition ez_malloc_lg :: "alloc_state \<Rightarrow> u64 \<Rightarrow> answer \<Rightarrow> (alloc_state \<times> addr) outcome" where
  "ez_malloc_lg st sz a = zmalloc st sz a"

definition ez_calloc_lg :: "alloc_state \<Rightarrow> u64 \<Rightarrow> u64 \<Rightarrow> answer \<Rightarrow> (alloc_state \<times> addr) outcome" where
  "ez_calloc_lg st num sz a = zcalloc st num sz a"

definition ez_realloc_lg :: "alloc_state \<Rightarrow> addr \<Rightarrow> u64 \<Rightarrow> answer \<Rightarrow> (alloc_state \<times> addr) outcome" where
  "ez_realloc_lg st ptr sz a = zrealloc st ptr sz a"

definition ez_free_lg :: "alloc_state \<Rightarrow> addr \<Rightarrow> alloc_state outcome" where
  "ez_free_lg st ptr = zfree st ptr"

text \<open>\<^verbatim>\<open>ez_memalign\<close> calls \<^verbatim>\<open>posix_memalign\<close> and nothing else.\<close>

definition ez_memalign_lg :: "alloc_state \<Rightarrow> u64 \<Rightarrow> u64 \<Rightarrow> answer \<Rightarrow> (alloc_state \<times> addr) outcome" where
  "ez_memalign_lg st alignment sz a = Return (new_block st a [], fst a)"

section \<open>The account\<close>

definition account :: "alloc_state \<Rightarrow> u64" where
  "account st = (\<Sum>p\<in>dom (live st). case live st p of None \<Rightarrow> 0 | Some b \<Rightarrow> EZ_ALIGN (usable b))"

definition well_kept :: "alloc_state \<Rightarrow> bool" where
  "well_kept st \<longleftrightarrow> finite (dom (live st)) \<and> live st NULL = None \<and> used_memory st = account st
     \<and> (\<forall>p b. live st p = Some b \<longrightarrow> length (content b) = unat (usable b))"

lemma account_insert:
  assumes "finite (dom (live st))" "live st p = None"
  shows "account (st\<lparr>live := (live st)(p \<mapsto> b)\<rparr>) = account st + EZ_ALIGN (usable b)"
proof -
  have "p \<notin> dom (live st)" using assms(2) by auto
  then show ?thesis using assms(1)
    by (simp add: account_def add.commute) (rule sum.cong; auto)
qed

lemma account_remove:
  assumes "finite (dom (live st))" "live st p = Some b"
  shows "account (st\<lparr>live := (live st)(p := None)\<rparr>) = account st - EZ_ALIGN (usable b)"
proof -
  have "(\<Sum>q\<in>dom (live st). case live st q of None \<Rightarrow> 0 | Some b \<Rightarrow> EZ_ALIGN (usable b))
      = EZ_ALIGN (usable b) + (\<Sum>q\<in>dom (live st) - {p}. case live st q of None \<Rightarrow> 0 | Some b \<Rightarrow> EZ_ALIGN (usable b))"
    using assms by (subst sum.remove [of _ p]) auto
  moreover have "(\<Sum>q\<in>dom (live st) - {p}. case ((live st)(p := None)) q of None \<Rightarrow> 0 | Some b \<Rightarrow> EZ_ALIGN (usable b))
      = (\<Sum>q\<in>dom (live st) - {p}. case live st q of None \<Rightarrow> 0 | Some b \<Rightarrow> EZ_ALIGN (usable b))"
    by (rule sum.cong) auto
  ultimately show ?thesis by (simp add: account_def)
qed

lemma account_content:
  assumes "live st p = Some b" "usable b' = usable b"
  shows "account (st\<lparr>live := (live st)(p \<mapsto> b')\<rparr>) = account st"
proof -
  have "dom ((live st)(p \<mapsto> b')) = dom (live st)" using assms(1) by auto
  then show ?thesis unfolding account_def using assms by (intro sum.cong) auto
qed

lemma account_used [simp]: "account (st\<lparr>used_memory := u\<rparr>) = account st"
  by (simp add: account_def)

lemma account_used_live [simp]:
  "account (st\<lparr>used_memory := u, live := l\<rparr>) = account (st\<lparr>live := l\<rparr>)"
  by (simp add: account_def)

section \<open>Each operation keeps the account\<close>

lemma new_block_live:
  assumes "well_kept st" "p \<noteq> NULL" "live st p = None"
  shows "finite (dom (live (new_block st (p, u) bs)))" "live (new_block st (p, u) bs) NULL = None"
    and "account (new_block st (p, u) bs) = account st + EZ_ALIGN u"
    and "\<forall>q b. live (new_block st (p, u) bs) q = Some b \<longrightarrow> length (content b) = unat (usable b)"
  using assms account_insert [of st p] by (auto simp: new_block_def well_kept_def)

lemma well_kept_NULL: "well_kept st \<Longrightarrow> live st p = Some b \<Longrightarrow> p \<noteq> NULL"
  by (rule notI) (simp add: well_kept_def)

lemma well_kept_content:
  assumes "well_kept st" "live st p = Some b" "usable b' = usable b" "length (content b') = length (content b)"
  shows "well_kept (st\<lparr>live := (live st)(p \<mapsto> b')\<rparr>)"
  using assms account_content [OF assms(2,3)] well_kept_NULL [OF assms(1,2)] by (auto simp: well_kept_def)

lemma well_kept_alloc:
  assumes "well_kept st" "p \<noteq> NULL" "live st p = None"
  shows "well_kept (update_zmalloc_stat_alloc (new_block st (p, u) bs) u)"
  using assms new_block_live [OF assms, of u bs]
  by (auto simp: well_kept_def update_zmalloc_stat_alloc_def new_block_def)

lemma zmalloc_spec:
  assumes "well_kept st" "good_malloc st (unat n) (p, u)" "p \<noteq> NULL"
  shows "\<exists>st'. zmalloc st n (p, u) = Return (st', p) \<and> well_kept st'
    \<and> live st' = (live st)(p \<mapsto> \<lparr>usable = u,
        content = replicate (unat n) (Some 0) @ replicate (unat u - unat n) None\<rparr>)
    \<and> zmalloc_oom_handler st' = zmalloc_oom_handler st"
proof -
  have p: "live st p = None" "unat n \<le> unat u" using assms(2,3) by (auto simp: good_malloc_def)
  let ?st = "update_zmalloc_stat_alloc (new_block st (p, u) []) u"
  let ?b = "\<lparr>usable = u, content = replicate (unat u) None\<rparr>"
  let ?c = "\<lparr>usable = u, content = replicate (unat n) (Some 0) @ replicate (unat u - unat n) None\<rparr>"
  have b: "live ?st p = Some ?b" using assms(3) by (simp add: update_zmalloc_stat_alloc_def new_block_def)
  have "well_kept ?st" by (rule well_kept_alloc [OF assms(1,3) p(1)])
  from well_kept_content [OF this b, of ?c] p(2) have "well_kept (?st\<lparr>live := (live ?st)(p \<mapsto> ?c)\<rparr>)" by simp
  moreover have "zmalloc st n (p, u) = Return (?st\<lparr>live := (live ?st)(p \<mapsto> ?c)\<rparr>, p)"
    using assms(3) p b by (simp add: zmalloc_def Let_def malloc_size_def memset_zero_def new_block_def
        update_zmalloc_stat_alloc_def)
  ultimately show ?thesis using assms(3)
    by (simp add: update_zmalloc_stat_alloc_def new_block_def)
qed

lemma zmalloc_NULL:
  "zmalloc st n (NULL, u) = (if zmalloc_oom_handler st = Oom_Abort then Abort else Undef)"
  by (simp add: zmalloc_def Let_def new_block_def malloc_size_def memset_zero_def)

lemma zcalloc_spec:
  assumes "well_kept st" "good_malloc st (unat cnt * unat n) (p, u)" "p \<noteq> NULL"
  shows "\<exists>st'. zcalloc st cnt n (p, u) = Return (st', p) \<and> well_kept st'
    \<and> live st' = (live st)(p \<mapsto> \<lparr>usable = u,
        content = replicate (unat cnt * unat n) (Some 0) @ replicate (unat u - unat cnt * unat n) None\<rparr>)
    \<and> zmalloc_oom_handler st' = zmalloc_oom_handler st"
proof -
  have p: "live st p = None" "unat cnt * unat n \<le> unat u" using assms(2,3) by (auto simp: good_malloc_def)
  from well_kept_alloc [OF assms(1,3) p(1), of u "replicate (unat cnt * unat n) (Some 0)"] p assms(3)
  show ?thesis
    by (simp add: zcalloc_def Let_def malloc_size_def new_block_def update_zmalloc_stat_alloc_def)
qed

lemma zrealloc_spec:
  assumes "well_kept st" "good_realloc st ptr (unat n) (p, u)" "p \<noteq> NULL" "live st ptr = Some b"
  shows "\<exists>st'. zrealloc st ptr n (p, u) = Return (st', p) \<and> well_kept st'
    \<and> live st' = (live st)(ptr := None, p \<mapsto> \<lparr>usable = u,
        content = take (unat u) (content b) @ replicate (unat u - length (content b)) None\<rparr>)
    \<and> zmalloc_oom_handler st' = zmalloc_oom_handler st"
proof -
  have ptr: "ptr \<noteq> NULL" by (rule well_kept_NULL [OF assms(1,4)])
  let ?st = "st\<lparr>live := (live st)(ptr := None), used_memory := used_memory st - EZ_ALIGN (usable b)\<rparr>"
  have "well_kept ?st" using assms(1) account_remove [OF _ assms(4)] by (auto simp: well_kept_def)
  moreover have "live ?st p = None" using assms(2,3) by (auto simp: good_realloc_def)
  ultimately have "well_kept (update_zmalloc_stat_alloc (new_block ?st (p, u) (content b)) u)"
    using well_kept_alloc assms(3) by blast
  then show ?thesis using assms(3,4) ptr
    by (simp add: zrealloc_def Let_def malloc_size_def lib_realloc_def new_block_def
        update_zmalloc_stat_alloc_def update_zmalloc_stat_free_def)
qed

lemma zfree_spec:
  assumes "well_kept st" "live st ptr = Some b"
  shows "\<exists>st'. zfree st ptr = Return st' \<and> well_kept st' \<and> live st' = (live st)(ptr := None)
    \<and> zmalloc_oom_handler st' = zmalloc_oom_handler st"
proof -
  have "ptr \<noteq> NULL" by (rule well_kept_NULL [OF assms])
  moreover have "well_kept (st\<lparr>used_memory := used_memory st - EZ_ALIGN (usable b), live := (live st)(ptr := None)\<rparr>)"
    using assms account_remove [OF _ assms(2)] by (auto simp: well_kept_def)
  ultimately show ?thesis using assms(2)
    by (simp add: zfree_def malloc_size_def Let_def update_zmalloc_stat_free_def)
qed

section \<open>Programs that use the allocator\<close>

text \<open>
  A step is a call of one of the functions, whatever the C library answers within its promises; a
  program that aborts takes no step. Without \<^verbatim>\<open>ez_memalign\<close> the account is always kept.
\<close>

inductive mem_step :: "alloc_state \<Rightarrow> alloc_state \<Rightarrow> bool" where
  mem_malloc: "good_malloc st (unat n) a \<Longrightarrow> ez_malloc_lg st n a = Return (st', p) \<Longrightarrow> mem_step st st'"
| mem_calloc: "good_malloc st (unat cnt * unat n) a \<Longrightarrow> ez_calloc_lg st cnt n a = Return (st', p) \<Longrightarrow>
    mem_step st st'"
| mem_realloc: "good_realloc st ptr (unat n) a \<Longrightarrow> ptr = NULL \<or> live st ptr \<noteq> None \<Longrightarrow>
    ez_realloc_lg st ptr n a = Return (st', p) \<Longrightarrow> mem_step st st'"
| mem_free: "ez_free_lg st ptr = Return st' \<Longrightarrow> mem_step st st'"

inductive_cases mem_stepE: "mem_step st st'"

definition mem_init :: alloc_state where
  "mem_init = \<lparr>live = Map.empty, used_memory = 0, zmalloc_oom_handler = Oom_Abort\<rparr>"

lemma well_kept_init: "well_kept mem_init"
  by (simp add: well_kept_def mem_init_def account_def)

definition kept_abort :: "alloc_state \<Rightarrow> bool" where
  "kept_abort st \<longleftrightarrow> well_kept st \<and> zmalloc_oom_handler st = Oom_Abort"

lemma kept_zmalloc:
  assumes "kept_abort st" "good_malloc st (unat n) a" "zmalloc st n a = Return (st', p)"
  shows "kept_abort st'"
proof -
  obtain q u where a: "a = (q, u)" by (cases a)
  have "q \<noteq> NULL" using assms(1,3) a by (cases "q = NULL") (simp_all add: zmalloc_NULL kept_abort_def)
  with zmalloc_spec [of st n q u] assms a show ?thesis by (auto simp: kept_abort_def)
qed

lemma kept_step:
  assumes "mem_step st st'" "kept_abort st"
  shows "kept_abort st'"
  using assms(1)
proof cases
  case (mem_malloc n a p)
  with kept_zmalloc [OF assms(2)] show ?thesis by (simp add: ez_malloc_lg_def)
next
  case (mem_calloc cnt n a p)
  obtain q u where a: "a = (q, u)" by (cases a)
  have "q \<noteq> NULL" using assms(2) mem_calloc(2) a
    by (cases "q = NULL") (simp_all add: ez_calloc_lg_def zcalloc_def Let_def new_block_def kept_abort_def)
  with zcalloc_spec [of st cnt n q u] assms(2) mem_calloc a show ?thesis
    by (auto simp: kept_abort_def ez_calloc_lg_def)
next
  case (mem_realloc ptr n a p)
  show ?thesis
  proof (cases "ptr = NULL")
    case True
    then have "good_malloc st (unat n) a"
      using mem_realloc(1) assms(2) by (auto simp: good_malloc_def good_realloc_def kept_abort_def well_kept_def)
    with True mem_realloc(3) kept_zmalloc [OF assms(2)] show ?thesis
      by (simp add: ez_realloc_lg_def zrealloc_def)
  next
    case False
    with mem_realloc(2) obtain b where b: "live st ptr = Some b" by auto
    obtain q u where a: "a = (q, u)" by (cases a)
    have "q \<noteq> NULL" using assms(2) mem_realloc(3) a b False
      by (cases "q = NULL") (simp_all add: ez_realloc_lg_def zrealloc_def Let_def lib_realloc_def kept_abort_def malloc_size_def)
    with zrealloc_spec [of st ptr n q u b] assms(2) mem_realloc a b show ?thesis
      by (auto simp: kept_abort_def ez_realloc_lg_def)
  qed
next
  case (mem_free ptr)
  show ?thesis
  proof (cases "ptr = NULL")
    case True
    with mem_free assms(2) show ?thesis by (simp add: ez_free_lg_def zfree_def)
  next
    case False
    then obtain b where "live st ptr = Some b" using mem_free
      by (auto simp: ez_free_lg_def zfree_def malloc_size_def split: option.splits)
    with zfree_spec [of st ptr b] mem_free assms(2) show ?thesis by (auto simp: kept_abort_def ez_free_lg_def)
  qed
qed

section \<open>Properties\<close>

text \<open>
  \<^verbatim>\<open>EZ_ALIGN\<close> rounds up to the next multiple of 8, for all sizes up to \<open>2 ^ 64 - 8\<close>; above that it
  wraps around to 0.
\<close>

theorem EZ_ALIGN_correct:
  "(unat d + 7 < 2 ^ 64 \<longrightarrow> unat (EZ_ALIGN d) = (unat d + 7) div 8 * 8 \<and> unat d \<le> unat (EZ_ALIGN d)
      \<and> unat (EZ_ALIGN d) < unat d + 8 \<and> 8 dvd unat (EZ_ALIGN d))
   \<and> (2 ^ 64 \<le> unat d + 7 \<longrightarrow> EZ_ALIGN d = 0)"
proof (intro conjI impI)
  assume b: "unat d + 7 < 2 ^ 64"
  then show u: "unat (EZ_ALIGN d) = (unat d + 7) div 8 * 8" by (simp add: EZ_ALIGN_unat)
  show "unat d \<le> unat (EZ_ALIGN d)" "unat (EZ_ALIGN d) < unat d + 8" "8 dvd unat (EZ_ALIGN d)"
    unfolding u by simp_all
next
  assume b: "2 ^ 64 \<le> unat d + 7"
  moreover have "unat d < 2 ^ 64" using unsigned_less [of d] by simp
  ultimately have "(unat d + 7) mod 2 ^ 64 < 7" using le_mod_geq [OF b] by simp
  then have "unat (EZ_ALIGN d) = 0" unfolding EZ_ALIGN_unat by simp
  then show "EZ_ALIGN d = 0" by (simp add: unat_eq_0)
qed

theorem EZ_ALIGN_correct_witness:
  "unat (EZ_ALIGN 13) = 16 \<and> EZ_ALIGN 18446744073709551613 = 0"
  using EZ_ALIGN_correct [of 13] EZ_ALIGN_correct [of 18446744073709551613] by simp

text \<open>
  C5: In every state a program can reach through \<^verbatim>\<open>ez_malloc\<close>, \<^verbatim>\<open>ez_calloc\<close>, \<^verbatim>\<open>ez_realloc\<close> and \<^verbatim>\<open>ez_free\<close>
  with the default out-of-memory handler, whatever the C library answers, the counter is the sum of
  the aligned usable sizes of the live blocks (modulo \<open>2 ^ 64\<close>).
\<close>

theorem used_memory_is_account:
  assumes "mem_step\<^sup>*\<^sup>* mem_init st"
  shows "ez_malloc_used_memory st =
    (\<Sum>p\<in>dom (live st). case live st p of None \<Rightarrow> 0 | Some b \<Rightarrow> EZ_ALIGN (usable b))"
proof -
  have "kept_abort st" using assms
  proof (induction rule: rtranclp_induct)
    case base
    show ?case using well_kept_init by (simp add: kept_abort_def mem_init_def)
  qed (rule kept_step)
  then show ?thesis by (simp add: kept_abort_def well_kept_def ez_malloc_used_memory_def account_def)
qed

lemma demo_step: "mem_step mem_init (\<lparr>live = [16 \<mapsto> \<lparr>usable = 24, content = replicate 20 (Some 0) @ replicate 4 None\<rparr>],
    used_memory = 24, zmalloc_oom_handler = Oom_Abort\<rparr>)"
  by (rule mem_malloc [of _ 20 "(16, 24)" _ 16])
    (simp_all add: good_malloc_def mem_init_def ez_malloc_lg_def zmalloc_def new_block_def Let_def malloc_size_def
      memset_zero_def update_zmalloc_stat_alloc_def EZ_ALIGN_def ez_align_to_def EZ_MARK_def)

theorem used_memory_is_account_witness:
  "ez_malloc_used_memory (\<lparr>live = [16 \<mapsto> \<lparr>usable = 24, content = replicate 20 (Some 0) @ replicate 4 None\<rparr>],
    used_memory = 24, zmalloc_oom_handler = Oom_Abort\<rparr>) = EZ_ALIGN 24"
  using used_memory_is_account [OF r_into_rtranclp [of mem_step, OF demo_step]] by simp

text \<open>
  \<^verbatim>\<open>ez_malloc\<close> of a size the library can serve returns a fresh block whose requested bytes are all
  zero and leaves every other block as it was; without memory it ends the program in the default
  handler, and is undefined (\<^verbatim>\<open>memset\<close> at \<^verbatim>\<open>NULL\<close>) if a handler was installed that returns.
\<close>

theorem ez_malloc_zeroed:
  assumes "well_kept st" "good_malloc st (unat n) (p, u)"
  shows "if p = NULL
    then ez_malloc_lg st n (p, u) = (if zmalloc_oom_handler st = Oom_Abort then Abort else Undef)
    else \<exists>st' b. ez_malloc_lg st n (p, u) = Return (st', p) \<and> well_kept st' \<and> live st p = None
      \<and> live st' = (live st)(p \<mapsto> b) \<and> (\<forall>i<unat n. content b ! i = Some 0) \<and> unat n \<le> length (content b)"
proof (cases "p = NULL")
  case True
  then show ?thesis by (simp add: ez_malloc_lg_def zmalloc_NULL)
next
  case False
  let ?b = "\<lparr>usable = u, content = replicate (unat n) (Some 0) @ replicate (unat u - unat n) None\<rparr>"
  from zmalloc_spec [OF assms False] obtain st' where "ez_malloc_lg st n (p, u) = Return (st', p)"
    "well_kept st'" "live st' = (live st)(p \<mapsto> ?b)" by (auto simp: ez_malloc_lg_def)
  moreover have "\<forall>i<unat n. content ?b ! i = Some 0" "unat n \<le> length (content ?b)"
    by (simp_all add: nth_append)
  moreover have "live st p = None" using assms(2) False by (simp add: good_malloc_def)
  ultimately show ?thesis using False by (metis (no_types, lifting))
qed

theorem ez_malloc_zeroed_witness:
  "\<exists>st' b. ez_malloc_lg mem_init 20 (16, 24) = Return (st', 16) \<and> well_kept st' \<and> live mem_init 16 = None
      \<and> live st' = (live mem_init)(16 \<mapsto> b) \<and> (\<forall>i<20. content b ! i = Some 0) \<and> 20 \<le> length (content b)"
  using ez_malloc_zeroed [OF well_kept_init, of 20 16 24] by (simp add: good_malloc_def mem_init_def)

text \<open>
  \<^verbatim>\<open>ez_realloc\<close> of a live block keeps the bytes up to the smaller of the two sizes, keeps all other
  blocks and keeps the account.
\<close>

theorem ez_realloc_keeps_prefix:
  assumes "well_kept st" "good_realloc st ptr (unat n) (p, u)" "p \<noteq> NULL" "live st ptr = Some b"
  shows "\<exists>st' b'. ez_realloc_lg st ptr n (p, u) = Return (st', p) \<and> well_kept st' \<and> live st' p = Some b'
    \<and> take (min (unat (usable b)) (unat u)) (content b') = take (min (unat (usable b)) (unat u)) (content b)
    \<and> (\<forall>q. q \<noteq> p \<and> q \<noteq> ptr \<longrightarrow> live st' q = live st q)"
proof -
  have "length (content b) = unat (usable b)" using assms(1,4) by (auto simp: well_kept_def)
  with zrealloc_spec [OF assms] show ?thesis by (auto simp: ez_realloc_lg_def min_def)
qed

definition demo_alloc :: alloc_state where
  "demo_alloc = \<lparr>live = [16 \<mapsto> \<lparr>usable = 8, content = map Some [1, 2, 3, 4, 5, 6, 7, 8]\<rparr>], used_memory = 8,
     zmalloc_oom_handler = Oom_Return\<rparr>"

lemma demo_alloc_kept: "well_kept demo_alloc"
  by (simp add: well_kept_def demo_alloc_def account_def EZ_ALIGN_def ez_align_to_def EZ_MARK_def)

theorem ez_realloc_keeps_prefix_witness:
  "\<exists>st' b'. ez_realloc_lg demo_alloc 16 12 (40, 16) = Return (st', 40) \<and> live st' 40 = Some b'
    \<and> take 8 (content b') = map Some [1, 2, 3, 4, 5, 6, 7, 8]"
  using ez_realloc_keeps_prefix [OF demo_alloc_kept, of 16 12 40 16]
  by (force simp: good_realloc_def demo_alloc_def)

text \<open>
  A block of \<^verbatim>\<open>ez_memalign\<close> is never added to the counter, but \<^verbatim>\<open>ez_free\<close> subtracts it: after one such
  block was allocated and released, the counter is too small by its size, modulo \<open>2 ^ 64\<close>.
\<close>

theorem ez_memalign_free_miscounts:
  assumes "p \<noteq> NULL" "live st p = None"
  shows "\<exists>st1 st2. ez_memalign_lg st al n (p, u) = Return (st1, p) \<and> ez_free_lg st1 p = Return st2
    \<and> live st2 = live st \<and> ez_malloc_used_memory st2 = ez_malloc_used_memory st - EZ_ALIGN u"
  using assms
  by (auto simp: ez_memalign_lg_def ez_free_lg_def zfree_def new_block_def malloc_size_def Let_def
      update_zmalloc_stat_free_def ez_malloc_used_memory_def fun_upd_idem)

theorem ez_memalign_free_miscounts_witness:
  "\<exists>st1 st2. ez_memalign_lg mem_init 16 100 (16, 104) = Return (st1, 16) \<and> ez_free_lg st1 16 = Return st2
    \<and> live st2 = live mem_init \<and> ez_malloc_used_memory st2 = - 104"
  using ez_memalign_free_miscounts [of 16 mem_init 16 100 104]
  by (simp add: mem_init_def ez_malloc_used_memory_def EZ_ALIGN_def ez_align_to_def EZ_MARK_def)

text \<open>
  When \<^verbatim>\<open>realloc\<close> fails under a handler that returns, \<^verbatim>\<open>ez_realloc\<close> returns \<^verbatim>\<open>NULL\<close> and keeps the old
  block, but takes its size off the counter.
\<close>

theorem ez_realloc_failure_miscounts:
  assumes "live st ptr = Some b" "ptr \<noteq> NULL" "zmalloc_oom_handler st = Oom_Return"
  shows "\<exists>st'. ez_realloc_lg st ptr n (NULL, u) = Return (st', NULL) \<and> live st' = live st
    \<and> ez_malloc_used_memory st' = ez_malloc_used_memory st - EZ_ALIGN (usable b)"
  using assms
  by (simp add: ez_realloc_lg_def zrealloc_def Let_def lib_realloc_def malloc_size_def ez_malloc_used_memory_def
      update_zmalloc_stat_alloc_def update_zmalloc_stat_free_def EZ_ALIGN_def ez_align_to_def EZ_MARK_def)

theorem ez_realloc_failure_miscounts_witness:
  "\<exists>st'. ez_realloc_lg demo_alloc 16 12 (NULL, 0) = Return (st', NULL) \<and> live st' = live demo_alloc
    \<and> ez_malloc_used_memory st' = 0"
  using ez_realloc_failure_miscounts [of demo_alloc 16 _ 12 0]
  by (simp add: demo_alloc_def ez_malloc_used_memory_def EZ_ALIGN_def ez_align_to_def EZ_MARK_def)

end
