(* ===== verification/Ez_Bytebuf.thy ===== *)
theory Ez_Bytebuf
  imports Ez_Malloc
begin

text \<open>
  The byte buffer of \<^verbatim>\<open>src/ez_bytebuf.c\<close> and \<^verbatim>\<open>src/ez_bytebuf.h\<close>: a reader and a writer index into a
  block of memory, and integers of 8 to 64 bits stored in both byte orders. The functions do not
  check bounds, so an access outside the block, and a read of a byte that was never written, is
  \<open>None\<close>. Integers are words in two's complement; \<^verbatim>\<open>val >> k\<close> on a signed value is the arithmetic
  shift, \<^verbatim>\<open>(int32_t)x << 24\<close> keeps the low 32 bits, and 16-bit values are promoted to 32 bits first.
\<close>

unbundle bit_operations_syntax

section \<open>The buffer\<close>

record bytebuf =
  br :: u32
  bw :: u32
  bcap :: u64
  bdata :: "u8 option list"

definition new_bytebuf :: "u64 \<Rightarrow> bytebuf" where
  "new_bytebuf sz =
     \<lparr>br = 0, bw = 0, bcap = EZ_ALIGN sz, bdata = replicate (unat (EZ_ALIGN sz)) (Some 0)\<rparr>"

definition put_at :: "bytebuf \<Rightarrow> u32 \<Rightarrow> u8 \<Rightarrow> bytebuf option" where
  "put_at b off x =
     (let i = unat (bw b + off) in
      if i < length (bdata b) then Some (b\<lparr>bdata := (bdata b)[i := Some x]\<rparr>) else None)"

definition get_at :: "bytebuf \<Rightarrow> u32 \<Rightarrow> u8 option" where
  "get_at b off =
     (let i = unat (br b + off) in if i < length (bdata b) then bdata b ! i else None)"

definition bytebuf_reset :: "bytebuf \<Rightarrow> bytebuf option" where
  "bytebuf_reset b =
     (let b = b\<lparr>br := 0, bw := 0\<rparr> in
      if 0 < length (bdata b) then Some (b\<lparr>bdata := (bdata b)[0 := Some 0]\<rparr>) else None)"

definition bytebuf_resize :: "bytebuf \<Rightarrow> u64 \<Rightarrow> bytebuf" where
  "bytebuf_resize b sz =
     (let n = unat (EZ_ALIGN sz) in
      b\<lparr>bdata := take n (bdata b) @ replicate (n - length (bdata b)) None, bcap := EZ_ALIGN sz\<rparr>)"

text \<open>The macros of the header.\<close>

definition bytebuf_writeable_size :: "bytebuf \<Rightarrow> u64" where
  "bytebuf_writeable_size b = bcap b - ucast (bw b)"

definition bytebuf_writer_index :: "bytebuf \<Rightarrow> u32" where
  "bytebuf_writer_index b = bw b"

definition bytebuf_is_writeable :: "bytebuf \<Rightarrow> bool" where
  "bytebuf_is_writeable b \<longleftrightarrow> bcap b > ucast (bw b)"

definition bytebuf_reset_writer_index :: "bytebuf \<Rightarrow> bytebuf" where
  "bytebuf_reset_writer_index b = b\<lparr>bw := 0\<rparr>"

definition bytebuf_readable_size :: "bytebuf \<Rightarrow> u32" where
  "bytebuf_readable_size b = bw b - br b"

definition bytebuf_reader_index :: "bytebuf \<Rightarrow> u32" where
  "bytebuf_reader_index b = br b"

definition bytebuf_is_readable :: "bytebuf \<Rightarrow> bool" where
  "bytebuf_is_readable b \<longleftrightarrow> bw b > br b"

definition bytebuf_reset_reader_index :: "bytebuf \<Rightarrow> bytebuf" where
  "bytebuf_reset_reader_index b = b\<lparr>br := 0\<rparr>"

section \<open>Reading and writing integers\<close>

definition bytebuf_write_int8 :: "bytebuf \<Rightarrow> 8 word \<Rightarrow> bytebuf option" where
  "bytebuf_write_int8 b val = do {
     b \<leftarrow> put_at b 0 (val);
     Some (b\<lparr>bw := bw b + 1\<rparr>)
   }"

definition bytebuf_read_int8 :: "bytebuf \<Rightarrow> (8 word \<times> bytebuf) option" where
  "bytebuf_read_int8 b = do {
     x0 \<leftarrow> get_at b 0;
     Some (x0, b\<lparr>br := br b + 1\<rparr>)
   }"

definition bytebuf_write_int16 :: "bytebuf \<Rightarrow> 16 word \<Rightarrow> bytebuf option" where
  "bytebuf_write_int16 b val = do {
     b \<leftarrow> put_at b 0 (ucast (signed_drop_bit 8 (scast val :: 32 word) AND 0xff));
     b \<leftarrow> put_at b 1 (ucast ((scast val :: 32 word) AND 0xff));
     Some (b\<lparr>bw := bw b + 2\<rparr>)
   }"

definition bytebuf_write_int32 :: "bytebuf \<Rightarrow> 32 word \<Rightarrow> bytebuf option" where
  "bytebuf_write_int32 b val = do {
     b \<leftarrow> put_at b 0 (ucast (signed_drop_bit 24 val AND 0xff));
     b \<leftarrow> put_at b 1 (ucast (signed_drop_bit 16 val AND 0xff));
     b \<leftarrow> put_at b 2 (ucast (signed_drop_bit 8 val AND 0xff));
     b \<leftarrow> put_at b 3 (ucast (val AND 0xff));
     Some (b\<lparr>bw := bw b + 4\<rparr>)
   }"

definition bytebuf_write_int64 :: "bytebuf \<Rightarrow> 64 word \<Rightarrow> bytebuf option" where
  "bytebuf_write_int64 b val = do {
     b \<leftarrow> put_at b 0 (ucast (signed_drop_bit 56 val AND 0xff));
     b \<leftarrow> put_at b 1 (ucast (signed_drop_bit 48 val AND 0xff));
     b \<leftarrow> put_at b 2 (ucast (signed_drop_bit 40 val AND 0xff));
     b \<leftarrow> put_at b 3 (ucast (signed_drop_bit 32 val AND 0xff));
     b \<leftarrow> put_at b 4 (ucast (signed_drop_bit 24 val AND 0xff));
     b \<leftarrow> put_at b 5 (ucast (signed_drop_bit 16 val AND 0xff));
     b \<leftarrow> put_at b 6 (ucast (signed_drop_bit 8 val AND 0xff));
     b \<leftarrow> put_at b 7 (ucast (val AND 0xff));
     Some (b\<lparr>bw := bw b + 8\<rparr>)
   }"

definition bytebuf_read_int64 :: "bytebuf \<Rightarrow> (64 word \<times> bytebuf) option" where
  "bytebuf_read_int64 b = do {
     x0 \<leftarrow> get_at b 0;
     x1 \<leftarrow> get_at b 1;
     x2 \<leftarrow> get_at b 2;
     x3 \<leftarrow> get_at b 3;
     x4 \<leftarrow> get_at b 4;
     x5 \<leftarrow> get_at b 5;
     x6 \<leftarrow> get_at b 6;
     x7 \<leftarrow> get_at b 7;
     Some (push_bit 56 (ucast x0) OR push_bit 48 (ucast x1) OR push_bit 40 (ucast x2) OR push_bit 32 (ucast x3) OR push_bit 24 (ucast x4) OR push_bit 16 (ucast x5) OR push_bit 8 (ucast x6) OR ucast x7, b\<lparr>br := br b + 8\<rparr>)
   }"

definition bytebuf_read_int32 :: "bytebuf \<Rightarrow> (32 word \<times> bytebuf) option" where
  "bytebuf_read_int32 b = do {
     x0 \<leftarrow> get_at b 0;
     x1 \<leftarrow> get_at b 1;
     x2 \<leftarrow> get_at b 2;
     x3 \<leftarrow> get_at b 3;
     Some (push_bit 24 (ucast x0) OR push_bit 16 (ucast x1) OR push_bit 8 (ucast x2) OR ucast x3, b\<lparr>br := br b + 4\<rparr>)
   }"

definition bytebuf_read_int16 :: "bytebuf \<Rightarrow> (16 word \<times> bytebuf) option" where
  "bytebuf_read_int16 b = do {
     x0 \<leftarrow> get_at b 0;
     x1 \<leftarrow> get_at b 1;
     Some (ucast (push_bit 8 (ucast x0 :: 32 word) OR ucast x1), b\<lparr>br := br b + 2\<rparr>)
   }"

definition bytebuf_write_int16_le :: "bytebuf \<Rightarrow> 16 word \<Rightarrow> bytebuf option" where
  "bytebuf_write_int16_le b val = do {
     b \<leftarrow> put_at b 1 (ucast (signed_drop_bit 8 (scast val :: 32 word) AND 0xff));
     b \<leftarrow> put_at b 0 (ucast ((scast val :: 32 word) AND 0xff));
     Some (b\<lparr>bw := bw b + 2\<rparr>)
   }"

definition bytebuf_read_int16_le :: "bytebuf \<Rightarrow> (16 word \<times> bytebuf) option" where
  "bytebuf_read_int16_le b = do {
     x1 \<leftarrow> get_at b 1;
     x0 \<leftarrow> get_at b 0;
     Some (ucast (push_bit 8 (ucast x1 :: 32 word) OR ucast x0), b\<lparr>br := br b + 2\<rparr>)
   }"

definition bytebuf_write_int32_le :: "bytebuf \<Rightarrow> 32 word \<Rightarrow> bytebuf option" where
  "bytebuf_write_int32_le b val = do {
     b \<leftarrow> put_at b 3 (ucast (signed_drop_bit 24 val AND 0xff));
     b \<leftarrow> put_at b 2 (ucast (signed_drop_bit 16 val AND 0xff));
     b \<leftarrow> put_at b 1 (ucast (signed_drop_bit 8 val AND 0xff));
     b \<leftarrow> put_at b 0 (ucast (val AND 0xff));
     Some (b\<lparr>bw := bw b + 4\<rparr>)
   }"

definition bytebuf_read_int32_le :: "bytebuf \<Rightarrow> (32 word \<times> bytebuf) option" where
  "bytebuf_read_int32_le b = do {
     x3 \<leftarrow> get_at b 3;
     x2 \<leftarrow> get_at b 2;
     x1 \<leftarrow> get_at b 1;
     x0 \<leftarrow> get_at b 0;
     Some (push_bit 24 (ucast x3) OR push_bit 16 (ucast x2) OR push_bit 8 (ucast x1) OR ucast x0, b\<lparr>br := br b + 4\<rparr>)
   }"

definition bytebuf_write_int64_le :: "bytebuf \<Rightarrow> 64 word \<Rightarrow> bytebuf option" where
  "bytebuf_write_int64_le b val = do {
     b \<leftarrow> put_at b 7 (ucast (signed_drop_bit 56 val AND 0xff));
     b \<leftarrow> put_at b 6 (ucast (signed_drop_bit 48 val AND 0xff));
     b \<leftarrow> put_at b 5 (ucast (signed_drop_bit 40 val AND 0xff));
     b \<leftarrow> put_at b 4 (ucast (signed_drop_bit 32 val AND 0xff));
     b \<leftarrow> put_at b 3 (ucast (signed_drop_bit 24 val AND 0xff));
     b \<leftarrow> put_at b 2 (ucast (signed_drop_bit 16 val AND 0xff));
     b \<leftarrow> put_at b 1 (ucast (signed_drop_bit 8 val AND 0xff));
     b \<leftarrow> put_at b 0 (ucast (val AND 0xff));
     Some (b\<lparr>bw := bw b + 8\<rparr>)
   }"

definition bytebuf_read_int64_le :: "bytebuf \<Rightarrow> (64 word \<times> bytebuf) option" where
  "bytebuf_read_int64_le b = do {
     x7 \<leftarrow> get_at b 7;
     x6 \<leftarrow> get_at b 6;
     x5 \<leftarrow> get_at b 5;
     x4 \<leftarrow> get_at b 4;
     x3 \<leftarrow> get_at b 3;
     x2 \<leftarrow> get_at b 2;
     x1 \<leftarrow> get_at b 1;
     x0 \<leftarrow> get_at b 0;
     Some (push_bit 56 (ucast x7) OR push_bit 48 (ucast x6) OR push_bit 40 (ucast x5) OR push_bit 32 (ucast x4) OR push_bit 24 (ucast x3) OR push_bit 16 (ucast x2) OR push_bit 8 (ucast x1) OR ucast x0, b\<lparr>br := br b + 8\<rparr>)
   }"

section \<open>Bytes of a word\<close>

lemma ff_mask: "(0xff :: 'a::len word) = mask 8"
  by (simp add: mask_eq_exp_minus_1)

lemma byte_of_promoted:
  "(ucast (signed_drop_bit 8 (scast (v :: 16 word) :: 32 word) AND 0xff) :: u8) = ucast (drop_bit 8 v)"
  "(ucast ((scast (v :: 16 word) :: 32 word) AND 0xff) :: u8) = ucast v"
  unfolding ff_mask by (rule bit_word_eqI; auto simp: bit_simps)+

lemma byte_of_shift:
  "LENGTH('a) \<ge> k + 8 \<Longrightarrow> (ucast (signed_drop_bit k (v :: 'a::len word) AND 0xff) :: u8) = ucast (drop_bit k v)"
  unfolding ff_mask by (rule bit_word_eqI) (auto simp: bit_simps)

lemma byte_of_shift_low:
  "LENGTH('a) \<ge> k + 8 \<Longrightarrow> (ucast (signed_drop_bit k (v :: 'a::len word)) :: u8) = ucast (drop_bit k v)"
  by (rule bit_word_eqI) (auto simp: bit_simps)

lemma byte_of_low: "8 \<le> LENGTH('a) \<Longrightarrow> (ucast ((v :: 'a::len word) AND 0xff) :: u8) = ucast v"
  unfolding ff_mask by (rule bit_word_eqI) (auto simp: bit_simps)

lemma byte_widen: "8 \<le> LENGTH('a) \<Longrightarrow> (ucast (ucast (x :: 'a::len word) :: u8) :: 'a word) = take_bit 8 x"
  by (rule bit_word_eqI) (auto simp: bit_simps)

lemma take_bit_step:
  "take_bit (k + 8) (v :: 'a::len word) = push_bit k (take_bit 8 (drop_bit k v)) OR take_bit k v"
  by (rule bit_word_eqI) (auto simp: bit_simps)

lemma join16:
  "(ucast (push_bit 8 (ucast (ucast (drop_bit 8 v) :: u8) :: 32 word) OR ucast (ucast v :: u8)) :: 16 word) = v"
  by (rule bit_word_eqI) (auto simp: bit_simps)

lemma join32:
  "push_bit 24 (ucast (ucast (drop_bit 24 v) :: u8)) OR push_bit 16 (ucast (ucast (drop_bit 16 v) :: u8))
    OR push_bit 8 (ucast (ucast (drop_bit 8 v) :: u8)) OR ucast (ucast v :: u8) = (v :: 32 word)"
proof -
  have "take_bit (24 + 8) v = v" by (rule take_bit_word_eq_self) simp
  moreover have "take_bit (24 + 8) v = push_bit 24 (take_bit 8 (drop_bit 24 v))
      OR push_bit 16 (take_bit 8 (drop_bit 16 v)) OR push_bit 8 (take_bit 8 (drop_bit 8 v)) OR take_bit 8 v"
    using take_bit_step [of 24 v] take_bit_step [of 16 v] take_bit_step [of 8 v] by (simp add: or.assoc)
  ultimately show ?thesis by (simp add: byte_widen)
qed

lemma join64:
  "push_bit 56 (ucast (ucast (drop_bit 56 v) :: u8)) OR push_bit 48 (ucast (ucast (drop_bit 48 v) :: u8))
    OR push_bit 40 (ucast (ucast (drop_bit 40 v) :: u8)) OR push_bit 32 (ucast (ucast (drop_bit 32 v) :: u8))
    OR push_bit 24 (ucast (ucast (drop_bit 24 v) :: u8)) OR push_bit 16 (ucast (ucast (drop_bit 16 v) :: u8))
    OR push_bit 8 (ucast (ucast (drop_bit 8 v) :: u8)) OR ucast (ucast v :: u8) = (v :: 64 word)"
proof -
  have "take_bit (56 + 8) v = v" by (rule take_bit_word_eq_self) simp
  moreover have "take_bit (56 + 8) v = push_bit 56 (take_bit 8 (drop_bit 56 v))
      OR push_bit 48 (take_bit 8 (drop_bit 48 v)) OR push_bit 40 (take_bit 8 (drop_bit 40 v))
      OR push_bit 32 (take_bit 8 (drop_bit 32 v)) OR push_bit 24 (take_bit 8 (drop_bit 24 v))
      OR push_bit 16 (take_bit 8 (drop_bit 16 v)) OR push_bit 8 (take_bit 8 (drop_bit 8 v)) OR take_bit 8 v"
    using take_bit_step [of 56 v] take_bit_step [of 48 v] take_bit_step [of 40 v] take_bit_step [of 32 v]
      take_bit_step [of 24 v] take_bit_step [of 16 v] take_bit_step [of 8 v] by (simp add: or.assoc)
  ultimately show ?thesis by (simp add: byte_widen)
qed

text \<open>The bytes of a word from the least significant one.\<close>

definition le_bytes :: "nat \<Rightarrow> 'a::len word \<Rightarrow> u8 list" where
  "le_bytes n v = map (\<lambda>i. ucast (drop_bit (8 * i) v)) [0..<n]"

lemma length_le_bytes [simp]: "length (le_bytes n v) = n"
  by (simp add: le_bytes_def)

lemma le_bytes_nth: "i < n \<Longrightarrow> le_bytes n v ! i = ucast (drop_bit (8 * i) v)"
  by (simp add: le_bytes_def)

lemma be_bytes_nth: "i < n \<Longrightarrow> rev (le_bytes n v) ! i = ucast (drop_bit (8 * (n - Suc i)) v)"
  by (simp add: rev_nth le_bytes_nth)

section \<open>The unread bytes\<close>

text \<open>\<open>holds b bs\<close>: the bytes between the reader and the writer index are \<open>bs\<close>; \<open>free b\<close> bytes can be written.\<close>

definition holds :: "bytebuf \<Rightarrow> u8 list \<Rightarrow> bool" where
  "holds b bs \<longleftrightarrow> unat (br b) + length bs = unat (bw b) \<and> unat (bw b) \<le> length (bdata b)
     \<and> length (bdata b) = unat (bcap b) \<and> unat (bcap b) < 2 ^ 32
     \<and> (\<forall>i<length bs. bdata b ! (unat (br b) + i) = Some (bs ! i))"

definition free :: "bytebuf \<Rightarrow> nat" where
  "free b = unat (bcap b) - unat (bw b)"

lemma unat_add_bounded: "unat (w :: u32) + n < 2 ^ 32 \<Longrightarrow> unat (w + of_nat n) = unat w + n"
  by (simp add: unat_word_ariths unat_of_nat)

lemma holds_store:
  assumes "holds b bs" "n \<le> free b" "length xs = n"
    and "\<And>i. i < unat (bw b) \<Longrightarrow> d ! i = bdata b ! i" "length d = length (bdata b)"
    and "\<And>i. i < n \<Longrightarrow> d ! (unat (bw b) + i) = Some (xs ! i)"
  shows "holds (b\<lparr>bdata := d, bw := bw b + of_nat n\<rparr>) (bs @ xs)
    \<and> free (b\<lparr>bdata := d, bw := bw b + of_nat n\<rparr>) = free b - n"
proof -
  have w: "unat (bw b + of_nat n) = unat (bw b) + n"
    by (rule unat_add_bounded) (use assms(1,2) in \<open>auto simp: holds_def free_def\<close>)
  have "d ! (unat (br b) + i) = Some ((bs @ xs) ! i)" if "i < length bs + n" for i
  proof (cases "i < length bs")
    case True
    then show ?thesis using assms(1,4) by (auto simp: holds_def nth_append)
  next
    case False
    then have "unat (br b) + i = unat (bw b) + (i - length bs)" using assms(1) by (auto simp: holds_def)
    then show ?thesis using assms(6) [of "i - length bs"] that False by (simp add: nth_append)
  qed
  with w assms(1,2,3,5) show ?thesis by (auto simp: holds_def free_def)
qed

lemma put_at_data:
  assumes "holds b bs" "unat off < free b" "length d = length (bdata b)"
  shows "put_at (b\<lparr>bdata := d\<rparr>) off x = Some (b\<lparr>bdata := d[unat (bw b) + unat off := Some x]\<rparr>)"
proof -
  have "unat (bw b) + unat off < unat (bcap b)" "unat (bcap b) < 2 ^ 32" "length (bdata b) = unat (bcap b)"
    using assms by (auto simp: holds_def free_def)
  moreover from this have "unat (bw b + off) = unat (bw b) + unat off"
    using unat_add_bounded [of "bw b" "unat off"] by simp
  ultimately show ?thesis using assms(3) by (simp add: put_at_def Let_def)
qed

lemma put_at_ok:
  assumes "holds b bs" "unat off < free b"
  shows "put_at b off x = Some (b\<lparr>bdata := (bdata b)[unat (bw b) + unat off := Some x]\<rparr>)"
  using put_at_data [OF assms, of "bdata b"] by simp

lemma get_at_ok:
  assumes "holds b bs" "unat off < length bs"
  shows "get_at b off = Some (bs ! unat off)"
proof -
  have "unat (br b) + unat off < unat (bcap b)" "unat (bcap b) < 2 ^ 32" "length (bdata b) = unat (bcap b)"
    using assms by (auto simp: holds_def)
  moreover from this have "unat (br b + off) = unat (br b) + unat off"
    using unat_add_bounded [of "br b" "unat off"] by simp
  ultimately show ?thesis using assms by (simp add: get_at_def Let_def holds_def)
qed

lemma holds_skip:
  assumes "holds b (xs @ bs)"
  shows "holds (b\<lparr>br := br b + of_nat (length xs)\<rparr>) bs \<and> free (b\<lparr>br := br b + of_nat (length xs)\<rparr>) = free b"
proof -
  have r: "unat (br b + of_nat (length xs)) = unat (br b) + length xs"
    by (rule unat_add_bounded) (use assms in \<open>auto simp: holds_def\<close>)
  have "bdata b ! (unat (br b) + length xs + i) = Some (bs ! i)" if "i < length bs" for i
  proof -
    have "bdata b ! (unat (br b) + (length xs + i)) = Some ((xs @ bs) ! (length xs + i))"
      using assms that by (simp add: holds_def del: nth_append_length_plus)
    then show ?thesis by (simp add: add.assoc)
  qed
  with r assms show ?thesis by (auto simp: holds_def free_def)
qed

section \<open>What every write and read does\<close>

lemma all_less_numerals:
  "(\<forall>i<1. P i) \<longleftrightarrow> P (0 :: nat)" "(\<forall>i<2. P i) \<longleftrightarrow> P 0 \<and> P (1 :: nat)"
  "(\<forall>i<4. P i) \<longleftrightarrow> P 0 \<and> P 1 \<and> P 2 \<and> P (3 :: nat)"
  "(\<forall>i<8. P i) \<longleftrightarrow> P 0 \<and> P 1 \<and> P 2 \<and> P 3 \<and> P 4 \<and> P 5 \<and> P 6 \<and> P (7 :: nat)"
  by (simp_all add: eval_nat_numeral All_less_Suc conj_ac)

lemma write_store:
  assumes "holds b bs" "n \<le> free b" "length xs = n" "length d = length (bdata b)"
    and "\<forall>i<unat (bw b). d ! i = bdata b ! i" "\<forall>i<n. d ! (unat (bw b) + i) = Some (xs ! i)"
    and "wrt = Some (b\<lparr>bdata := d, bw := bw b + of_nat n\<rparr>)"
  shows "\<exists>b'. wrt = Some b' \<and> holds b' (bs @ xs) \<and> free b' = free b - n"
  using holds_store [OF assms(1,2,3) _ assms(4)] assms(5-7) by blast

lemma free_bound: "holds b bs \<Longrightarrow> n \<le> free b \<Longrightarrow> unat (bw b) + n \<le> length (bdata b)"
  by (auto simp: holds_def free_def)

named_theorems byte_simps \<open>the bytes that the code stores\<close>

lemmas [byte_simps] = le_bytes_nth be_bytes_nth byte_of_promoted byte_of_shift byte_of_shift_low byte_of_low

lemma write_int8_law:
  assumes "holds b bs" "1 \<le> free b"
  shows "\<exists>b'. bytebuf_write_int8 b v = Some b' \<and> holds b' (bs @ le_bytes 1 v) \<and> free b' = free b - 1"
  using assms free_bound [OF assms]
  by (intro write_store [OF assms, rotated -1],
      simp add: bytebuf_write_int8_def put_at_data [OF assms(1)] put_at_ok [OF assms(1)], (rule refl)?)
    (simp_all add: all_less_numerals byte_simps)

lemma write_int16_law:
  assumes "holds b bs" "2 \<le> free b"
  shows "\<exists>b'. bytebuf_write_int16 b v = Some b' \<and> holds b' (bs @ rev (le_bytes 2 v)) \<and> free b' = free b - 2"
  using assms free_bound [OF assms]
  by (intro write_store [OF assms, rotated -1],
      simp add: bytebuf_write_int16_def put_at_data [OF assms(1)] put_at_ok [OF assms(1)], (rule refl)?)
    (simp_all add: all_less_numerals byte_simps)

lemma write_int32_law:
  assumes "holds b bs" "4 \<le> free b"
  shows "\<exists>b'. bytebuf_write_int32 b v = Some b' \<and> holds b' (bs @ rev (le_bytes 4 v)) \<and> free b' = free b - 4"
  using assms free_bound [OF assms]
  by (intro write_store [OF assms, rotated -1],
      simp add: bytebuf_write_int32_def put_at_data [OF assms(1)] put_at_ok [OF assms(1)], (rule refl)?)
    (simp_all add: all_less_numerals byte_simps)

lemma write_int64_law:
  assumes "holds b bs" "8 \<le> free b"
  shows "\<exists>b'. bytebuf_write_int64 b v = Some b' \<and> holds b' (bs @ rev (le_bytes 8 v)) \<and> free b' = free b - 8"
  using assms free_bound [OF assms]
  by (intro write_store [OF assms, rotated -1],
      simp add: bytebuf_write_int64_def put_at_data [OF assms(1)] put_at_ok [OF assms(1)], (rule refl)?)
    (simp_all add: all_less_numerals byte_simps)

lemma write_int16_le_law:
  assumes "holds b bs" "2 \<le> free b"
  shows "\<exists>b'. bytebuf_write_int16_le b v = Some b' \<and> holds b' (bs @ le_bytes 2 v) \<and> free b' = free b - 2"
  using assms free_bound [OF assms]
  by (intro write_store [OF assms, rotated -1],
      simp add: bytebuf_write_int16_le_def put_at_data [OF assms(1)] put_at_ok [OF assms(1)], (rule refl)?)
    (simp_all add: all_less_numerals byte_simps)

lemma write_int32_le_law:
  assumes "holds b bs" "4 \<le> free b"
  shows "\<exists>b'. bytebuf_write_int32_le b v = Some b' \<and> holds b' (bs @ le_bytes 4 v) \<and> free b' = free b - 4"
  using assms free_bound [OF assms]
  by (intro write_store [OF assms, rotated -1],
      simp add: bytebuf_write_int32_le_def put_at_data [OF assms(1)] put_at_ok [OF assms(1)], (rule refl)?)
    (simp_all add: all_less_numerals byte_simps)

lemma write_int64_le_law:
  assumes "holds b bs" "8 \<le> free b"
  shows "\<exists>b'. bytebuf_write_int64_le b v = Some b' \<and> holds b' (bs @ le_bytes 8 v) \<and> free b' = free b - 8"
  using assms free_bound [OF assms]
  by (intro write_store [OF assms, rotated -1],
      simp add: bytebuf_write_int64_le_def put_at_data [OF assms(1)] put_at_ok [OF assms(1)], (rule refl)?)
    (simp_all add: all_less_numerals byte_simps)

lemma read_int8_law:
  assumes "holds b (le_bytes 1 v @ bs)"
  shows "\<exists>b'. bytebuf_read_int8 b = Some (v, b') \<and> holds b' bs \<and> free b' = free b"
  using holds_skip [OF assms]
  by (simp add: bytebuf_read_int8_def get_at_ok [OF assms] nth_append byte_simps)

lemma read_int16_law:
  assumes "holds b (rev (le_bytes 2 v) @ bs)"
  shows "\<exists>b'. bytebuf_read_int16 b = Some (v, b') \<and> holds b' bs \<and> free b' = free b"
  using holds_skip [OF assms]
  by (simp add: bytebuf_read_int16_def get_at_ok [OF assms] nth_append byte_simps join16)

lemma read_int32_law:
  assumes "holds b (rev (le_bytes 4 v) @ bs)"
  shows "\<exists>b'. bytebuf_read_int32 b = Some (v, b') \<and> holds b' bs \<and> free b' = free b"
  using holds_skip [OF assms]
  by (simp add: bytebuf_read_int32_def get_at_ok [OF assms] nth_append byte_simps join32)

lemma read_int64_law:
  assumes "holds b (rev (le_bytes 8 v) @ bs)"
  shows "\<exists>b'. bytebuf_read_int64 b = Some (v, b') \<and> holds b' bs \<and> free b' = free b"
  using holds_skip [OF assms]
  by (simp add: bytebuf_read_int64_def get_at_ok [OF assms] nth_append byte_simps join64)

lemma read_int16_le_law:
  assumes "holds b (le_bytes 2 v @ bs)"
  shows "\<exists>b'. bytebuf_read_int16_le b = Some (v, b') \<and> holds b' bs \<and> free b' = free b"
  using holds_skip [OF assms]
  by (simp add: bytebuf_read_int16_le_def get_at_ok [OF assms] nth_append byte_simps join16)

lemma read_int32_le_law:
  assumes "holds b (le_bytes 4 v @ bs)"
  shows "\<exists>b'. bytebuf_read_int32_le b = Some (v, b') \<and> holds b' bs \<and> free b' = free b"
  using holds_skip [OF assms]
  by (simp add: bytebuf_read_int32_le_def get_at_ok [OF assms] nth_append byte_simps join32)

lemma read_int64_le_law:
  assumes "holds b (le_bytes 8 v @ bs)"
  shows "\<exists>b'. bytebuf_read_int64_le b = Some (v, b') \<and> holds b' bs \<and> free b' = free b"
  using holds_skip [OF assms]
  by (simp add: bytebuf_read_int64_le_def get_at_ok [OF assms] nth_append byte_simps join64)

section \<open>The contract of a codec\<close>

fun write_all :: "('b \<Rightarrow> 'v \<Rightarrow> 'b option) \<Rightarrow> 'b \<Rightarrow> 'v list \<Rightarrow> 'b option" where
  "write_all wrt b [] = Some b"
| "write_all wrt b (v # vs) = do { b \<leftarrow> wrt b v; write_all wrt b vs }"

fun read_n :: "('b \<Rightarrow> ('v \<times> 'b) option) \<Rightarrow> nat \<Rightarrow> 'b \<Rightarrow> ('v list \<times> 'b) option" where
  "read_n rdr 0 b = Some ([], b)"
| "read_n rdr (Suc n) b = do { (v, b) \<leftarrow> rdr b; (vs, b) \<leftarrow> read_n rdr n b; Some (v # vs, b) }"

locale int_codec =
  fixes wrt :: "bytebuf \<Rightarrow> 'v \<Rightarrow> bytebuf option"
    and rdr :: "bytebuf \<Rightarrow> ('v \<times> bytebuf) option"
    and enc :: "'v \<Rightarrow> u8 list"
    and width :: nat
  assumes enc_width: "length (enc v) = width"
    and write_law: "holds b bs \<Longrightarrow> width \<le> free b \<Longrightarrow>
      \<exists>b'. wrt b v = Some b' \<and> holds b' (bs @ enc v) \<and> free b' = free b - width"
    and read_law: "holds b (enc v @ bs) \<Longrightarrow> \<exists>b'. rdr b = Some (v, b') \<and> holds b' bs \<and> free b' = free b"
begin

lemma write_all_holds:
  "holds b bs \<Longrightarrow> length vs * width \<le> free b \<Longrightarrow>
     \<exists>b'. write_all wrt b vs = Some b' \<and> holds b' (bs @ concat (map enc vs))"
proof (induction vs arbitrary: b bs)
  case (Cons v vs)
  from write_law [OF Cons.prems(1), of v] Cons.prems(2) obtain b1 where
    "wrt b v = Some b1" "holds b1 (bs @ enc v)" "free b1 = free b - width" by auto
  with Cons.IH [of b1 "bs @ enc v"] Cons.prems(2) show ?case by auto
qed simp

lemma read_n_holds:
  "holds b (concat (map enc vs) @ bs) \<Longrightarrow> \<exists>b'. read_n rdr (length vs) b = Some (vs, b') \<and> holds b' bs"
proof (induction vs arbitrary: b)
  case (Cons v vs)
  from read_law [of b v "concat (map enc vs) @ bs"] Cons.prems obtain b1 where
    "rdr b = Some (v, b1)" "holds b1 (concat (map enc vs) @ bs)" by auto
  with Cons.IH [of b1] show ?case by auto
qed simp

theorem fifo:
  assumes "holds b []" "length vs * width \<le> free b"
  shows "\<exists>b1 b2. write_all wrt b vs = Some b1 \<and> read_n rdr (length vs) b1 = Some (vs, b2) \<and> holds b2 []"
proof -
  from write_all_holds [OF assms] obtain b1 where "write_all wrt b vs = Some b1"
    "holds b1 (concat (map enc vs) @ [])" by auto
  with read_n_holds [OF this(2)] show ?thesis by blast
qed

end

interpretation int8: int_codec bytebuf_write_int8 bytebuf_read_int8 "le_bytes 1" 1
  by unfold_locales (simp, erule (1) write_int8_law, erule read_int8_law)

interpretation int16: int_codec bytebuf_write_int16 bytebuf_read_int16 "\<lambda>v. rev (le_bytes 2 v)" 2
  by unfold_locales (simp, erule (1) write_int16_law, erule read_int16_law)

interpretation int32: int_codec bytebuf_write_int32 bytebuf_read_int32 "\<lambda>v. rev (le_bytes 4 v)" 4
  by unfold_locales (simp, erule (1) write_int32_law, erule read_int32_law)

interpretation int64: int_codec bytebuf_write_int64 bytebuf_read_int64 "\<lambda>v. rev (le_bytes 8 v)" 8
  by unfold_locales (simp, erule (1) write_int64_law, erule read_int64_law)

interpretation int16_le: int_codec bytebuf_write_int16_le bytebuf_read_int16_le "le_bytes 2" 2
  by unfold_locales (simp, erule (1) write_int16_le_law, erule read_int16_le_law)

interpretation int32_le: int_codec bytebuf_write_int32_le bytebuf_read_int32_le "le_bytes 4" 4
  by unfold_locales (simp, erule (1) write_int32_le_law, erule read_int32_le_law)

interpretation int64_le: int_codec bytebuf_write_int64_le bytebuf_read_int64_le "le_bytes 8" 8
  by unfold_locales (simp, erule (1) write_int64_le_law, erule read_int64_le_law)

section \<open>Creation, reset, resize\<close>

lemma new_bytebuf_holds:
  "unat (EZ_ALIGN sz) < 2 ^ 32 \<Longrightarrow> holds (new_bytebuf sz) [] \<and> free (new_bytebuf sz) = unat (EZ_ALIGN sz)"
  by (simp add: holds_def free_def new_bytebuf_def)

lemma bytebuf_resize_holds:
  assumes "holds b bs" "unat (bw b) \<le> unat (EZ_ALIGN sz)" "unat (EZ_ALIGN sz) < 2 ^ 32"
  shows "holds (bytebuf_resize b sz) bs \<and> free (bytebuf_resize b sz) = unat (EZ_ALIGN sz) - unat (bw b)"
  using assms by (auto simp: holds_def free_def bytebuf_resize_def Let_def nth_append)

lemma unat_ucast_index: "unat (ucast (w :: u32) :: u64) = unat w"
proof -
  have "unat w < 2 ^ LENGTH(32)" by (rule unsigned_less)
  then have "unat w < 2 ^ 64" by simp
  then show ?thesis by (simp add: unsigned_ucast_eq take_bit_nat_eq_self)
qed

section \<open>Mixed items\<close>

datatype item = I8 "8 word" | I16 "16 word" | I32 "32 word" | I64 "64 word"
  | I16le "16 word" | I32le "32 word" | I64le "64 word"

fun write_item :: "bytebuf \<Rightarrow> item \<Rightarrow> bytebuf option" where
  "write_item b (I8 v) = bytebuf_write_int8 b v"
| "write_item b (I16 v) = bytebuf_write_int16 b v"
| "write_item b (I32 v) = bytebuf_write_int32 b v"
| "write_item b (I64 v) = bytebuf_write_int64 b v"
| "write_item b (I16le v) = bytebuf_write_int16_le b v"
| "write_item b (I32le v) = bytebuf_write_int32_le b v"
| "write_item b (I64le v) = bytebuf_write_int64_le b v"

text \<open>Reading the kind of item that \<open>write_item\<close> wrote.\<close>

fun read_item :: "item \<Rightarrow> bytebuf \<Rightarrow> (item \<times> bytebuf) option" where
  "read_item (I8 _) b = map_option (apfst I8) (bytebuf_read_int8 b)"
| "read_item (I16 _) b = map_option (apfst I16) (bytebuf_read_int16 b)"
| "read_item (I32 _) b = map_option (apfst I32) (bytebuf_read_int32 b)"
| "read_item (I64 _) b = map_option (apfst I64) (bytebuf_read_int64 b)"
| "read_item (I16le _) b = map_option (apfst I16le) (bytebuf_read_int16_le b)"
| "read_item (I32le _) b = map_option (apfst I32le) (bytebuf_read_int32_le b)"
| "read_item (I64le _) b = map_option (apfst I64le) (bytebuf_read_int64_le b)"

fun item_bytes :: "item \<Rightarrow> u8 list" where
  "item_bytes (I8 v) = le_bytes 1 v"
| "item_bytes (I16 v) = rev (le_bytes 2 v)"
| "item_bytes (I32 v) = rev (le_bytes 4 v)"
| "item_bytes (I64 v) = rev (le_bytes 8 v)"
| "item_bytes (I16le v) = le_bytes 2 v"
| "item_bytes (I32le v) = le_bytes 4 v"
| "item_bytes (I64le v) = le_bytes 8 v"

fun read_items :: "item list \<Rightarrow> bytebuf \<Rightarrow> (item list \<times> bytebuf) option" where
  "read_items [] b = Some ([], b)"
| "read_items (k # ks) b = do { (v, b) \<leftarrow> read_item k b; (vs, b) \<leftarrow> read_items ks b; Some (v # vs, b) }"

lemma write_item_law:
  assumes "holds b bs" "length (item_bytes it) \<le> free b"
  shows "\<exists>b'. write_item b it = Some b' \<and> holds b' (bs @ item_bytes it)
    \<and> free b' = free b - length (item_bytes it)"
  using assms int8.write_law int16.write_law int32.write_law int64.write_law int16_le.write_law
    int32_le.write_law int64_le.write_law by (cases it) simp_all

lemma read_item_law:
  assumes "holds b (item_bytes it @ bs)"
  shows "\<exists>b'. read_item it b = Some (it, b') \<and> holds b' bs \<and> free b' = free b"
proof (cases it)
  case (I8 v)
  with int8.read_law [of b v bs] assms show ?thesis by auto
next
  case (I16 v)
  with int16.read_law [of b v bs] assms show ?thesis by auto
next
  case (I32 v)
  with int32.read_law [of b v bs] assms show ?thesis by auto
next
  case (I64 v)
  with int64.read_law [of b v bs] assms show ?thesis by auto
next
  case (I16le v)
  with int16_le.read_law [of b v bs] assms show ?thesis by auto
next
  case (I32le v)
  with int32_le.read_law [of b v bs] assms show ?thesis by auto
next
  case (I64le v)
  with int64_le.read_law [of b v bs] assms show ?thesis by auto
qed

lemma write_items_holds:
  "holds b bs \<Longrightarrow> length (concat (map item_bytes its)) \<le> free b \<Longrightarrow>
     \<exists>b'. write_all write_item b its = Some b' \<and> holds b' (bs @ concat (map item_bytes its))"
proof (induction its arbitrary: b bs)
  case (Cons it its)
  from write_item_law [OF Cons.prems(1), of it] Cons.prems(2) obtain b1 where
    "write_item b it = Some b1" "holds b1 (bs @ item_bytes it)" "free b1 = free b - length (item_bytes it)" by auto
  with Cons.IH [of b1 "bs @ item_bytes it"] Cons.prems(2) show ?case by auto
qed simp

lemma read_items_holds:
  "holds b (concat (map item_bytes its) @ bs) \<Longrightarrow> \<exists>b'. read_items its b = Some (its, b') \<and> holds b' bs"
proof (induction its arbitrary: b)
  case (Cons it its)
  from read_item_law [of b it "concat (map item_bytes its) @ bs"] Cons.prems obtain b1 where
    "read_item it b = Some (it, b1)" "holds b1 (concat (map item_bytes its) @ bs)" by auto
  with Cons.IH [of b1] show ?case by auto
qed simp

section \<open>Properties\<close>

text \<open>
  C12: Any mixture of 8, 16, 32 and 64 bit integers, big or little endian, that fits into a new buffer
  is read back unchanged and in the order it was written; no access leaves the buffer, and nothing is
  left to read.
\<close>

theorem bytebuf_mixed_roundtrip:
  assumes "unat (EZ_ALIGN sz) < 2 ^ 32" "length (concat (map item_bytes its)) \<le> unat (EZ_ALIGN sz)"
  shows "\<exists>b1 b2. write_all write_item (new_bytebuf sz) its = Some b1 \<and> read_items its b1 = Some (its, b2)
    \<and> bytebuf_readable_size b2 = 0"
proof -
  note new = new_bytebuf_holds [OF assms(1)]
  with write_items_holds [of "new_bytebuf sz" "[]" its] assms(2) obtain b1 where
    "write_all write_item (new_bytebuf sz) its = Some b1" "holds b1 (concat (map item_bytes its) @ [])" by auto
  moreover from read_items_holds [OF this(2)] obtain b2 where "read_items its b1 = Some (its, b2)" "holds b2 []"
    by blast
  moreover from this(2) have "unat (bw b2) = unat (br b2)" by (auto simp: holds_def)
  then have "bw b2 = br b2" by (simp add: word_unat_eq_iff)
  then have "bytebuf_readable_size b2 = 0" by (simp add: bytebuf_readable_size_def)
  ultimately show ?thesis by blast
qed

theorem bytebuf_mixed_roundtrip_witness:
  "\<exists>b1 b2. write_all write_item (new_bytebuf 16) [I32 0xDEADBEEF, I8 7, I64le (- 1), I16 0x8000] = Some b1
    \<and> read_items [I32 0xDEADBEEF, I8 7, I64le (- 1), I16 0x8000] b1
      = Some ([I32 0xDEADBEEF, I8 7, I64le (- 1), I16 0x8000], b2) \<and> bytebuf_readable_size b2 = 0"
  by (rule bytebuf_mixed_roundtrip)
    (simp_all add: EZ_ALIGN_def ez_align_to_def EZ_MARK_def)

text \<open>
  The 32-bit and 64-bit writers store the bytes of the value in the order their names promise, most
  significant first or least significant first, and append them to the unread bytes.
\<close>

theorem bytebuf_byte_order:
  assumes "holds b bs" "8 \<le> free b"
  shows "(\<exists>b'. bytebuf_write_int32 b v = Some b' \<and> holds b' (bs @ rev (le_bytes 4 v)))
    \<and> (\<exists>b'. bytebuf_write_int32_le b v = Some b' \<and> holds b' (bs @ le_bytes 4 v))
    \<and> (\<exists>b'. bytebuf_write_int64 b w = Some b' \<and> holds b' (bs @ rev (le_bytes 8 w)))
    \<and> (\<exists>b'. bytebuf_write_int64_le b w = Some b' \<and> holds b' (bs @ le_bytes 8 w))"
  using int32.write_law [OF assms(1), of v] int32_le.write_law [OF assms(1), of v]
    int64.write_law [OF assms, of w] int64_le.write_law [OF assms, of w] assms(2) by fastforce

theorem bytebuf_byte_order_witness:
  "\<exists>b'. bytebuf_write_int32 (new_bytebuf 8) 0x01020304 = Some b' \<and> holds b' (rev (le_bytes 4 (0x01020304 :: 32 word)))"
  using bytebuf_byte_order [of "new_bytebuf 8" "[]" "0x01020304" 0] new_bytebuf_holds [of 8]
  by (simp add: EZ_ALIGN_def ez_align_to_def EZ_MARK_def)

text \<open>
  While the reader is behind the writer and the writer inside the block, the macros report exactly
  the free space and the number of unread bytes.
\<close>

theorem bytebuf_macros_correct:
  assumes "holds b bs"
  shows "unat (bytebuf_writeable_size b) = free b \<and> (bytebuf_is_writeable b \<longleftrightarrow> 0 < free b)
    \<and> unat (bytebuf_readable_size b) = length bs \<and> (bytebuf_is_readable b \<longleftrightarrow> bs \<noteq> [])"
proof -
  have b: "unat (br b) + length bs = unat (bw b)" "unat (bw b) \<le> unat (bcap b)"
    using assms by (auto simp: holds_def)
  then show ?thesis
    by (cases bs) (auto simp: bytebuf_writeable_size_def bytebuf_is_writeable_def bytebuf_readable_size_def
        bytebuf_is_readable_def free_def unat_sub_if' unat_ucast_index word_less_nat_alt)
qed

theorem bytebuf_macros_correct_witness:
  "unat (bytebuf_writeable_size (new_bytebuf 10)) = 16 \<and> \<not> bytebuf_is_readable (new_bytebuf 10)"
  using bytebuf_macros_correct [of "new_bytebuf 10" "[]"] new_bytebuf_holds [of 10]
  by (simp add: EZ_ALIGN_def ez_align_to_def EZ_MARK_def)

text \<open>
  \<^verbatim>\<open>bytebuf_resize\<close> to a size that does not cut into the written bytes keeps everything that is
  still to be read.
\<close>

theorem bytebuf_resize_keeps:
  assumes "holds b bs" "unat (bw b) \<le> unat (EZ_ALIGN sz)" "unat (EZ_ALIGN sz) < 2 ^ 32"
  shows "holds (bytebuf_resize b sz) bs \<and> free (bytebuf_resize b sz) = unat (EZ_ALIGN sz) - unat (bw b)
    \<and> bytebuf_writer_index (bytebuf_resize b sz) = bytebuf_writer_index b"
  using bytebuf_resize_holds [OF assms] by (simp add: bytebuf_resize_def bytebuf_writer_index_def Let_def)

theorem bytebuf_resize_keeps_witness:
  "holds (bytebuf_resize (new_bytebuf 8) 30) [] \<and> free (bytebuf_resize (new_bytebuf 8) 30) = 32"
  using bytebuf_resize_keeps [of "new_bytebuf 8" "[]" 30] new_bytebuf_holds [of 8]
  by (simp add: EZ_ALIGN_def ez_align_to_def EZ_MARK_def new_bytebuf_def)

text \<open>
  After a resize below the writer index \<^verbatim>\<open>bytebuf_writeable_size\<close> wraps around to more than
  \<open>2 ^ 63\<close> bytes, although \<^verbatim>\<open>bytebuf_is_writeable\<close> is false and the next write is outside the block.
\<close>

theorem bytebuf_shrink_underflows:
  assumes "unat (EZ_ALIGN sz) < unat (bw b)"
  shows "unat (bytebuf_writeable_size (bytebuf_resize b sz)) \<ge> 2 ^ 63
    \<and> \<not> bytebuf_is_writeable (bytebuf_resize b sz) \<and> bytebuf_write_int8 (bytebuf_resize b sz) v = None"
proof -
  have "unat (bw b) < 2 ^ LENGTH(32)" by (rule unsigned_less)
  then show ?thesis using assms
    by (auto simp: min_def bytebuf_resize_def Let_def bytebuf_writeable_size_def bytebuf_is_writeable_def
        bytebuf_write_int8_def put_at_def unat_sub_if' unat_ucast_index word_less_nat_alt)
qed

theorem bytebuf_shrink_underflows_witness:
  "unat (bytebuf_writeable_size (bytebuf_resize ((new_bytebuf 16)\<lparr>bw := 12\<rparr>) 8)) \<ge> 2 ^ 63"
  using bytebuf_shrink_underflows [of 8 "(new_bytebuf 16)\<lparr>bw := 12\<rparr>"]
  by (simp add: EZ_ALIGN_def ez_align_to_def EZ_MARK_def)

text \<open>
  \<^verbatim>\<open>bytebuf_reset\<close> empties a buffer and frees all its bytes, but on a buffer created with size 0
  it writes outside the block.
\<close>

theorem bytebuf_reset_correct:
  assumes "holds b bs"
  shows "if bcap b = 0 then bytebuf_reset b = None
    else \<exists>b'. bytebuf_reset b = Some b' \<and> holds b' [] \<and> free b' = unat (bcap b)"
  using assms by (auto simp: bytebuf_reset_def Let_def holds_def free_def unat_eq_0)

theorem bytebuf_reset_correct_witness:
  "bytebuf_reset (new_bytebuf 0) = None \<and> (\<exists>b'. bytebuf_reset (new_bytebuf 8) = Some b' \<and> free b' = 8)"
  using bytebuf_reset_correct [of "new_bytebuf 0" "[]"] bytebuf_reset_correct [of "new_bytebuf 8" "[]"]
    new_bytebuf_holds [of 0] new_bytebuf_holds [of 8]
  by (auto simp: EZ_ALIGN_def ez_align_to_def EZ_MARK_def new_bytebuf_def)

end
