(* ===== verification/Ez_Murmur.thy ===== *)
theory Ez_Murmur
  imports Ez_Prelude "HOL-Library.Signed_Division"
begin

text \<open>
  The three MurmurHash3 functions of \<^verbatim>\<open>src/ez_hash.c\<close>. A key is the list of the bytes that are
  readable at the key pointer; a read outside of it is undefined (\<open>None\<close>). The machine is the one
  the code is written for: little endian, with unaligned loads, and with the wrap-around of
  \<^verbatim>\<open>tail[3] << 24\<close> that the compiler gives a promoted byte. The loops count an \<^verbatim>\<open>int\<close> up to zero, as
  the code does, so a negative length runs off the key.

  Each function is proved equal to a reference definition that consumes the bytes in order: it reads
  exactly the first \<open>len\<close> bytes, and the switch with its fall-through cases mixes the last bytes as a
  block padded with zeros.
\<close>

unbundle bit_operations_syntax

section \<open>Rotations, block reads and finalization\<close>

definition rotl32 :: "u32 \<Rightarrow> nat \<Rightarrow> u32" where
  "rotl32 x r = push_bit r x OR drop_bit (32 - r) x"

definition rotl64 :: "u64 \<Rightarrow> nat \<Rightarrow> u64" where
  "rotl64 x r = push_bit r x OR drop_bit (64 - r) x"

definition get_byte :: "u8 list \<Rightarrow> int \<Rightarrow> u8 option" where
  "get_byte data i = (if 0 \<le> i \<and> nat i < length data then Some (data ! nat i) else None)"

definition getblock32 :: "u8 list \<Rightarrow> int \<Rightarrow> int \<Rightarrow> u32 option" where
  "getblock32 data p i = do {
     b0 \<leftarrow> get_byte data (p + 4 * i);
     b1 \<leftarrow> get_byte data (p + 4 * i + 1);
     b2 \<leftarrow> get_byte data (p + 4 * i + 2);
     b3 \<leftarrow> get_byte data (p + 4 * i + 3);
     Some (ucast b0 OR push_bit 8 (ucast b1) OR push_bit 16 (ucast b2) OR push_bit 24 (ucast b3))
   }"

definition getblock64 :: "u8 list \<Rightarrow> int \<Rightarrow> int \<Rightarrow> u64 option" where
  "getblock64 data p i = do {
     lo \<leftarrow> getblock32 data p (2 * i);
     hi \<leftarrow> getblock32 data p (2 * i + 1);
     Some (ucast lo OR push_bit 32 (ucast hi))
   }"

definition fmix32 :: "u32 \<Rightarrow> u32" where
  "fmix32 h =
     (let h = h XOR drop_bit 16 h;
          h = h * 0x85ebca6b;
          h = h XOR drop_bit 13 h;
          h = h * 0xc2b2ae35
      in h XOR drop_bit 16 h)"

definition fmix64 :: "u64 \<Rightarrow> u64" where
  "fmix64 k =
     (let k = k XOR drop_bit 33 k;
          k = k * 0xff51afd7ed558ccd;
          k = k XOR drop_bit 33 k;
          k = k * 0xc4ceb9fe1a85ec53
      in k XOR drop_bit 33 k)"

text \<open>
  One label of a \<^verbatim>\<open>switch\<close> whose cases fall through, \<^verbatim>\<open>case j + 1: k ^= tail[j] << sh\<close>: the label
  runs when the switch was entered at it or above it.
\<close>

definition case_byte :: "u8 list \<Rightarrow> int \<Rightarrow> nat \<Rightarrow> nat \<Rightarrow> nat \<Rightarrow> 'w::len word \<Rightarrow> 'w word option" where
  "case_byte data tail n j sh k =
     (if j < n then do { b \<leftarrow> get_byte data (tail + int j); Some (k XOR push_bit sh (ucast b)) }
      else Some k)"

section \<open>MurmurHash3, 32 bits\<close>

definition mix_x86_32 :: "u32 \<Rightarrow> u32" where
  "mix_x86_32 k1 = rotl32 (k1 * 0xcc9e2d51) 15 * 0x1b873593"

definition round_x86_32 :: "u32 \<Rightarrow> u32 \<Rightarrow> u32" where
  "round_x86_32 h1 k1 = rotl32 (h1 XOR mix_x86_32 k1) 13 * 5 + 0xe6546b64"

partial_function (option) body_x86_32 :: "u8 list \<Rightarrow> int \<Rightarrow> int \<Rightarrow> u32 \<Rightarrow> u32 option" where
  "body_x86_32 data blocks i h1 =
     (if i = 0 then Some h1
      else do {
        k1 \<leftarrow> getblock32 data blocks i;
        body_x86_32 data blocks (i + 1) (round_x86_32 h1 k1)
      })"

definition tail_x86_32 :: "u8 list \<Rightarrow> int \<Rightarrow> nat \<Rightarrow> u32 \<Rightarrow> u32 option" where
  "tail_x86_32 data tail n h1 = do {
     let k1 = 0;
     k1 \<leftarrow> case_byte data tail n 2 16 k1;
     k1 \<leftarrow> case_byte data tail n 1 8 k1;
     k1 \<leftarrow> case_byte data tail n 0 0 k1;
     Some (if 1 \<le> n then h1 XOR mix_x86_32 k1 else h1)
   }"

definition MurmurHash3_x86_32 :: "u8 list \<Rightarrow> int \<Rightarrow> u32 \<Rightarrow> u32 option" where
  "MurmurHash3_x86_32 key len seed = do {
     let nblocks = len sdiv 4;
     h1 \<leftarrow> body_x86_32 key (nblocks * 4) (- nblocks) seed;
     h1 \<leftarrow> tail_x86_32 key (nblocks * 4) (nat (len AND 3)) h1;
     let h1 = h1 XOR word_of_int len;
     Some (fmix32 h1)
   }"

section \<open>MurmurHash3, 128 bits in four lanes of 32\<close>

type_synonym lanes = "u32 \<times> u32 \<times> u32 \<times> u32"

definition mix_x86_128 :: "u32 \<Rightarrow> nat \<Rightarrow> u32 \<Rightarrow> u32 \<Rightarrow> u32" where
  "mix_x86_128 c r c' k = rotl32 (k * c) r * c'"

abbreviation c1_x86 :: u32 where "c1_x86 \<equiv> 0x239b961b"
abbreviation c2_x86 :: u32 where "c2_x86 \<equiv> 0xab0e9789"
abbreviation c3_x86 :: u32 where "c3_x86 \<equiv> 0x38b34ae5"
abbreviation c4_x86 :: u32 where "c4_x86 \<equiv> 0xa1e38b93"

definition round_x86_128 :: "lanes \<Rightarrow> lanes \<Rightarrow> lanes" where
  "round_x86_128 h k =
     (let (h1, h2, h3, h4) = h; (k1, k2, k3, k4) = k;
          h1 = h1 XOR mix_x86_128 c1_x86 15 c2_x86 k1;
          h1 = (rotl32 h1 19 + h2) * 5 + 0x561ccd1b;
          h2 = h2 XOR mix_x86_128 c2_x86 16 c3_x86 k2;
          h2 = (rotl32 h2 17 + h3) * 5 + 0x0bcaa747;
          h3 = h3 XOR mix_x86_128 c3_x86 17 c4_x86 k3;
          h3 = (rotl32 h3 15 + h4) * 5 + 0x96cd1c35;
          h4 = h4 XOR mix_x86_128 c4_x86 18 c1_x86 k4;
          h4 = (rotl32 h4 13 + h1) * 5 + 0x32ac3b17
      in (h1, h2, h3, h4))"

partial_function (option) body_x86_128 :: "u8 list \<Rightarrow> int \<Rightarrow> int \<Rightarrow> lanes \<Rightarrow> lanes option" where
  "body_x86_128 data blocks i h =
     (if i = 0 then Some h
      else do {
        k1 \<leftarrow> getblock32 data blocks (i * 4 + 0);
        k2 \<leftarrow> getblock32 data blocks (i * 4 + 1);
        k3 \<leftarrow> getblock32 data blocks (i * 4 + 2);
        k4 \<leftarrow> getblock32 data blocks (i * 4 + 3);
        body_x86_128 data blocks (i + 1) (round_x86_128 h (k1, k2, k3, k4))
      })"

definition tail_x86_128 :: "u8 list \<Rightarrow> int \<Rightarrow> nat \<Rightarrow> lanes \<Rightarrow> lanes option" where
  "tail_x86_128 data tail n h = do {
     let (h1, h2, h3, h4) = h;
     k4 \<leftarrow> case_byte data tail n 14 16 0;
     k4 \<leftarrow> case_byte data tail n 13 8 k4;
     k4 \<leftarrow> case_byte data tail n 12 0 k4;
     let h4 = (if 13 \<le> n then h4 XOR mix_x86_128 c4_x86 18 c1_x86 k4 else h4);
     k3 \<leftarrow> case_byte data tail n 11 24 0;
     k3 \<leftarrow> case_byte data tail n 10 16 k3;
     k3 \<leftarrow> case_byte data tail n 9 8 k3;
     k3 \<leftarrow> case_byte data tail n 8 0 k3;
     let h3 = (if 9 \<le> n then h3 XOR mix_x86_128 c3_x86 17 c4_x86 k3 else h3);
     k2 \<leftarrow> case_byte data tail n 7 24 0;
     k2 \<leftarrow> case_byte data tail n 6 16 k2;
     k2 \<leftarrow> case_byte data tail n 5 8 k2;
     k2 \<leftarrow> case_byte data tail n 4 0 k2;
     let h2 = (if 5 \<le> n then h2 XOR mix_x86_128 c2_x86 16 c3_x86 k2 else h2);
     k1 \<leftarrow> case_byte data tail n 3 24 0;
     k1 \<leftarrow> case_byte data tail n 2 16 k1;
     k1 \<leftarrow> case_byte data tail n 1 8 k1;
     k1 \<leftarrow> case_byte data tail n 0 0 k1;
     let h1 = (if 1 \<le> n then h1 XOR mix_x86_128 c1_x86 15 c2_x86 k1 else h1);
     Some (h1, h2, h3, h4)
   }"

definition spread_x86_128 :: "lanes \<Rightarrow> lanes" where
  "spread_x86_128 h =
     (let (h1, h2, h3, h4) = h;
          h1 = h1 + h2; h1 = h1 + h3; h1 = h1 + h4;
          h2 = h2 + h1; h3 = h3 + h1; h4 = h4 + h1
      in (h1, h2, h3, h4))"

definition finish_x86_128 :: "u32 \<Rightarrow> lanes \<Rightarrow> lanes" where
  "finish_x86_128 len h =
     (let (h1, h2, h3, h4) = h;
          (h1, h2, h3, h4) = spread_x86_128 (h1 XOR len, h2 XOR len, h3 XOR len, h4 XOR len)
      in spread_x86_128 (fmix32 h1, fmix32 h2, fmix32 h3, fmix32 h4))"

definition MurmurHash3_x86_128 :: "u8 list \<Rightarrow> int \<Rightarrow> u32 \<Rightarrow> u32 list option" where
  "MurmurHash3_x86_128 key len seed = do {
     let nblocks = len sdiv 16;
     h \<leftarrow> body_x86_128 key (nblocks * 16) (- nblocks) (seed, seed, seed, seed);
     h \<leftarrow> tail_x86_128 key (nblocks * 16) (nat (len AND 15)) h;
     let (h1, h2, h3, h4) = finish_x86_128 (word_of_int len) h;
     Some [h1, h2, h3, h4]
   }"

section \<open>MurmurHash3, 128 bits in two lanes of 64\<close>

abbreviation c1_x64 :: u64 where "c1_x64 \<equiv> 0x87c37b91114253d5"
abbreviation c2_x64 :: u64 where "c2_x64 \<equiv> 0x4cf5ad432745937f"

definition mix_x64_128 :: "u64 \<Rightarrow> nat \<Rightarrow> u64 \<Rightarrow> u64 \<Rightarrow> u64" where
  "mix_x64_128 c r c' k = rotl64 (k * c) r * c'"

definition round_x64_128 :: "u64 \<times> u64 \<Rightarrow> u64 \<times> u64 \<Rightarrow> u64 \<times> u64" where
  "round_x64_128 h k =
     (let (h1, h2) = h; (k1, k2) = k;
          h1 = h1 XOR mix_x64_128 c1_x64 31 c2_x64 k1;
          h1 = (rotl64 h1 27 + h2) * 5 + 0x52dce729;
          h2 = h2 XOR mix_x64_128 c2_x64 33 c1_x64 k2;
          h2 = (rotl64 h2 31 + h1) * 5 + 0x38495ab5
      in (h1, h2))"

partial_function (option) body_x64_128 ::
    "u8 list \<Rightarrow> int \<Rightarrow> int \<Rightarrow> u64 \<times> u64 \<Rightarrow> (u64 \<times> u64) option" where
  "body_x64_128 data nblocks i h =
     (if i < nblocks then do {
        k1 \<leftarrow> getblock64 data 0 (i * 2 + 0);
        k2 \<leftarrow> getblock64 data 0 (i * 2 + 1);
        body_x64_128 data nblocks (i + 1) (round_x64_128 h (k1, k2))
      }
      else Some h)"

definition tail_x64_128 :: "u8 list \<Rightarrow> int \<Rightarrow> nat \<Rightarrow> u64 \<times> u64 \<Rightarrow> (u64 \<times> u64) option" where
  "tail_x64_128 data tail n h = do {
     let (h1, h2) = h;
     k2 \<leftarrow> case_byte data tail n 14 48 0;
     k2 \<leftarrow> case_byte data tail n 13 40 k2;
     k2 \<leftarrow> case_byte data tail n 12 32 k2;
     k2 \<leftarrow> case_byte data tail n 11 24 k2;
     k2 \<leftarrow> case_byte data tail n 10 16 k2;
     k2 \<leftarrow> case_byte data tail n 9 8 k2;
     k2 \<leftarrow> case_byte data tail n 8 0 k2;
     let h2 = (if 9 \<le> n then h2 XOR mix_x64_128 c2_x64 33 c1_x64 k2 else h2);
     k1 \<leftarrow> case_byte data tail n 7 56 0;
     k1 \<leftarrow> case_byte data tail n 6 48 k1;
     k1 \<leftarrow> case_byte data tail n 5 40 k1;
     k1 \<leftarrow> case_byte data tail n 4 32 k1;
     k1 \<leftarrow> case_byte data tail n 3 24 k1;
     k1 \<leftarrow> case_byte data tail n 2 16 k1;
     k1 \<leftarrow> case_byte data tail n 1 8 k1;
     k1 \<leftarrow> case_byte data tail n 0 0 k1;
     let h1 = (if 1 \<le> n then h1 XOR mix_x64_128 c1_x64 31 c2_x64 k1 else h1);
     Some (h1, h2)
   }"

definition finish_x64_128 :: "u64 \<Rightarrow> u64 \<times> u64 \<Rightarrow> u64 \<times> u64" where
  "finish_x64_128 len h =
     (let (h1, h2) = h;
          h1 = h1 XOR len; h2 = h2 XOR len;
          h1 = h1 + h2; h2 = h2 + h1;
          h1 = fmix64 h1; h2 = fmix64 h2;
          h1 = h1 + h2; h2 = h2 + h1
      in (h1, h2))"

definition MurmurHash3_x64_128 :: "u8 list \<Rightarrow> int \<Rightarrow> u32 \<Rightarrow> u64 list option" where
  "MurmurHash3_x64_128 key len seed = do {
     let nblocks = len sdiv 16;
     h \<leftarrow> body_x64_128 key nblocks 0 (ucast seed, ucast seed);
     h \<leftarrow> tail_x64_128 key (nblocks * 16) (nat (len AND 15)) h;
     let (h1, h2) = finish_x64_128 (word_of_int len) h;
     Some [h1, h2]
   }"

declare body_x86_32.simps [code] body_x86_128.simps [code] body_x64_128.simps [code]


section \<open>The reference\<close>

text \<open>A list of bytes as a little-endian number; missing bytes are zero.\<close>

primrec le_word :: "u8 list \<Rightarrow> 'w::len word" where
  "le_word [] = 0"
| "le_word (b # bs) = ucast b OR push_bit 8 (le_word bs)"

text \<open>Consume blocks of \<open>w\<close> bytes in order, then finish with what is left, less than a block.\<close>

function absorb :: "nat \<Rightarrow> (u8 list \<Rightarrow> 'h \<Rightarrow> 'h) \<Rightarrow> (u8 list \<Rightarrow> 'h \<Rightarrow> 'h) \<Rightarrow> u8 list \<Rightarrow> 'h \<Rightarrow> 'h" where
  "absorb w step fin bs h =
     (if w = 0 \<or> length bs < w then fin bs h else absorb w step fin (drop w bs) (step (take w bs) h))"
  by pat_completeness auto
termination by (relation "measure (\<lambda>(w, step, fin, bs, h). length bs)") auto

declare absorb.simps [simp del]

definition murmur32 :: "u8 list \<Rightarrow> u32 \<Rightarrow> u32" where
  "murmur32 bs seed =
     fmix32 (absorb 4 (\<lambda>b h. round_x86_32 h (le_word b)) (\<lambda>b h. h XOR mix_x86_32 (le_word b)) bs seed
       XOR of_nat (length bs))"

definition lanes_of :: "u8 list \<Rightarrow> lanes" where
  "lanes_of b = (le_word (take 4 b), le_word (take 4 (drop 4 b)),
     le_word (take 4 (drop 8 b)), le_word (take 4 (drop 12 b)))"

definition last_x86_128 :: "lanes \<Rightarrow> lanes \<Rightarrow> lanes" where
  "last_x86_128 h k =
     (let (h1, h2, h3, h4) = h; (k1, k2, k3, k4) = k
      in (h1 XOR mix_x86_128 c1_x86 15 c2_x86 k1, h2 XOR mix_x86_128 c2_x86 16 c3_x86 k2,
          h3 XOR mix_x86_128 c3_x86 17 c4_x86 k3, h4 XOR mix_x86_128 c4_x86 18 c1_x86 k4))"

definition murmur128_x86 :: "u8 list \<Rightarrow> u32 \<Rightarrow> u32 list" where
  "murmur128_x86 bs seed =
     (let (h1, h2, h3, h4) = finish_x86_128 (of_nat (length bs))
        (absorb 16 (\<lambda>b h. round_x86_128 h (lanes_of b)) (\<lambda>b h. last_x86_128 h (lanes_of b)) bs
          (seed, seed, seed, seed))
      in [h1, h2, h3, h4])"

definition halves_of :: "u8 list \<Rightarrow> u64 \<times> u64" where
  "halves_of b = (le_word (take 8 b), le_word (take 8 (drop 8 b)))"

definition last_x64_128 :: "u64 \<times> u64 \<Rightarrow> u64 \<times> u64 \<Rightarrow> u64 \<times> u64" where
  "last_x64_128 h k =
     (fst h XOR mix_x64_128 c1_x64 31 c2_x64 (fst k), snd h XOR mix_x64_128 c2_x64 33 c1_x64 (snd k))"

definition murmur128_x64 :: "u8 list \<Rightarrow> u32 \<Rightarrow> u64 list" where
  "murmur128_x64 bs seed =
     (let (h1, h2) = finish_x64_128 (of_nat (length bs))
        (absorb 16 (\<lambda>b h. round_x64_128 h (halves_of b)) (\<lambda>b h. last_x64_128 h (halves_of b)) bs
          (ucast seed, ucast seed))
      in [h1, h2])"

section \<open>Block reads\<close>

lemma bit_le_word:
  "bit (le_word bs :: 'w::len word) i \<longleftrightarrow>
     i < LENGTH('w) \<and> i div 8 < length bs \<and> bit (bs ! (i div 8)) (i mod 8)"
proof (induction bs arbitrary: i)
  case (Cons b bs)
  show ?case
  proof (cases "i < 8")
    case True
    then show ?thesis by (simp add: bit_simps)
  next
    case False
    have "\<not> bit b i" using False bit_imp_le_length [of b i] by auto
    moreover have "i div 8 = Suc ((i - 8) div 8)" "i mod 8 = (i - 8) mod 8"
      using False by (simp_all add: le_div_geq le_mod_geq)
    ultimately show ?thesis using False Cons.IH [of "i - 8"] by (auto simp: bit_simps)
  qed
qed simp

lemma le_word_snoc:
  "le_word (bs @ [b]) = (le_word bs :: 'w::len word) XOR push_bit (8 * length bs) (ucast b)"
proof (rule bit_word_eqI)
  fix i assume i: "i < LENGTH('w)"
  consider "i div 8 < length bs" "\<not> 8 * length bs \<le> i"
    | "i div 8 = length bs" "8 * length bs \<le> i" "i mod 8 = i - 8 * length bs" "i - 8 * length bs < 8"
    | "length bs < i div 8" "8 * length bs \<le> i" "8 \<le> i - 8 * length bs"
  proof (cases rule: linorder_cases [of "i div 8" "length bs"])
    case less
    then show ?thesis by (intro that(1)) linarith+
  next
    case equal
    then have "i = 8 * length bs + i mod 8" by (metis mult_div_mod_eq)
    moreover have "i mod 8 < 8" by simp
    ultimately show ?thesis using equal by (intro that(2)) linarith+
  next
    case greater
    then show ?thesis by (intro that(3)) linarith+
  qed
  then show "bit (le_word (bs @ [b]) :: 'w word) i =
      bit ((le_word bs :: 'w word) XOR push_bit (8 * length bs) (ucast b)) i"
  proof cases
    case 3
    then have "\<not> bit b (i - 8 * length bs)" using bit_imp_le_length [of b "i - 8 * length bs"] by auto
    with 3 i show ?thesis by (simp add: bit_simps bit_le_word)
  qed (use i in \<open>auto simp add: bit_simps bit_le_word nth_append\<close>)
qed

lemma take_bytes: "p < length l \<Longrightarrow> take (Suc k) (drop p l) = l ! p # take k (drop (Suc p) l)"
  by (simp add: Cons_nth_drop_Suc [symmetric])

lemma getblock32_at:
  assumes "p + 4 * i = int q"
  shows "getblock32 data p i =
    (if q + 4 \<le> length data then Some (le_word (take 4 (drop q data))) else None)"
proof -
  have n: "nat (int q + 1) = Suc q" "nat (int q + 2) = Suc (Suc q)" "nat (int q + 3) = Suc (Suc (Suc q))"
    by auto
  have "take 4 (drop q data) = [data ! q, data ! Suc q, data ! Suc (Suc q), data ! Suc (Suc (Suc q))]"
    if "q + 4 \<le> length data"
    using that take_bytes [of q data 3] take_bytes [of "Suc q" data 2]
      take_bytes [of "Suc (Suc q)" data 1] take_bytes [of "Suc (Suc (Suc q))" data 0]
    by (simp add: eval_nat_numeral)
  then show ?thesis
    using assms by (auto simp: getblock32_def get_byte_def n push_bit_or or.assoc)
qed

lemma le_word_split:
  "(le_word (take 8 bs) :: u64) =
     ucast (le_word (take 4 bs) :: u32) OR push_bit 32 (ucast (le_word (take 4 (drop 4 bs)) :: u32))"
proof (rule bit_word_eqI)
  fix i assume i: "i < LENGTH(64)"
  show "bit (le_word (take 8 bs) :: u64) i =
    bit (ucast (le_word (take 4 bs) :: u32) OR push_bit 32 (ucast (le_word (take 4 (drop 4 bs)) :: u32)) :: u64) i"
  proof (cases "32 \<le> i")
    case True
    then obtain j where j: "i = 32 + j" using le_Suc_ex by blast
    then have "i div 8 = 4 + j div 8" "i mod 8 = j mod 8" by presburger+
    with i j show ?thesis by (auto simp: bit_simps bit_le_word)
  next
    case False
    with i show ?thesis by (auto simp: bit_simps bit_le_word)
  qed
qed


section \<open>The loops over the blocks\<close>

text \<open>What the three loops have in common: \<open>n\<close> blocks of \<open>w\<close> bytes, each of them inside the key.\<close>

primrec sweep :: "nat \<Rightarrow> (u8 list \<Rightarrow> 'h \<Rightarrow> 'h) \<Rightarrow> nat \<Rightarrow> nat \<Rightarrow> u8 list \<Rightarrow> 'h \<Rightarrow> 'h option" where
  "sweep w step 0 pos data h = Some h"
| "sweep w step (Suc n) pos data h =
     (if pos + w \<le> length data
      then sweep w step n (pos + w) data (step (take w (drop pos data)) h) else None)"

lemma sweep_absorb:
  assumes "r < w" "pos \<le> length data"
    and last: "\<And>h. pos + w * n \<le> length data \<Longrightarrow> rest h =
      (if pos + w * n + r \<le> length data then Some (fin (take r (drop (pos + w * n) data)) h) else None)"
  shows "Option.bind (sweep w step n pos data h) rest
    = (if pos + w * n + r \<le> length data
       then Some (absorb w step fin (take (w * n + r) (drop pos data)) h) else None)"
  using assms(2-)
proof (induction n arbitrary: pos h)
  case 0
  then show ?case using \<open>r < w\<close> by (subst absorb.simps) auto
next
  case (Suc n)
  show ?case
  proof (cases "pos + w \<le> length data")
    case True
    have IH: "Option.bind (sweep w step n (pos + w) data h) rest =
        (if pos + w * Suc n + r \<le> length data
         then Some (absorb w step fin (take (w * n + r) (drop (pos + w) data)) h) else None)" for h
      using Suc.IH [of "pos + w"] True Suc.prems(2) by (simp add: ac_simps)
    have "absorb w step fin (take (w * Suc n + r) (drop pos data)) h =
      absorb w step fin (take (w * n + r) (drop (pos + w) data)) (step (take w (drop pos data)) h)"
      if "pos + w * Suc n + r \<le> length data"
    proof -
      have "length (take (w * Suc n + r) (drop pos data)) = w * Suc n + r" using that by simp
      then have "absorb w step fin (take (w * Suc n + r) (drop pos data)) h =
        absorb w step fin (drop w (take (w * Suc n + r) (drop pos data)))
          (step (take w (take (w * Suc n + r) (drop pos data))) h)"
        using \<open>r < w\<close> by (subst absorb.simps) simp
      then show ?thesis by (simp add: drop_take add.commute min_def)
    qed
    then show ?thesis using True by (simp add: IH)
  qed simp
qed

lemma body_x86_32_sweep:
  "body_x86_32 data (int (4 * (m + n))) (- int n) h =
     sweep 4 (\<lambda>b h. round_x86_32 h (le_word b)) n (4 * m) data h"
proof (induction n arbitrary: m h)
  case 0
  then show ?case by (simp add: body_x86_32.simps)
next
  case (Suc n)
  have "getblock32 data (int (4 * (m + Suc n))) (- int (Suc n)) =
      (if 4 * m + 4 \<le> length data then Some (le_word (take 4 (drop (4 * m) data))) else None)"
    by (rule getblock32_at) simp
  then show ?case using Suc.IH [of "Suc m"] by (subst body_x86_32.simps) (simp add: add.commute)
qed

lemma lanes_of_block:
  "lanes_of (take 16 b) = (le_word (take 4 b), le_word (take 4 (drop 4 b)),
     le_word (take 4 (drop 8 b)), le_word (take 4 (drop 12 b)))"
  by (simp add: lanes_of_def drop_take)

lemma body_x86_128_sweep:
  "body_x86_128 data (int (16 * (m + n))) (- int n) h =
     sweep 16 (\<lambda>b h. round_x86_128 h (lanes_of b)) n (16 * m) data h"
proof (induction n arbitrary: m h)
  case 0
  then show ?case by (simp add: body_x86_128.simps)
next
  case (Suc n)
  have "getblock32 data (int (16 * (m + Suc n))) (- int (Suc n) * 4 + int j) =
      (if 16 * m + 4 * j + 4 \<le> length data then Some (le_word (take 4 (drop (16 * m + 4 * j) data)))
       else None)" for j
    by (rule getblock32_at) simp
  from this [of 0] this [of 1] this [of 2] this [of 3] show ?case
    using Suc.IH [of "Suc m"]
    by (subst body_x86_128.simps) (simp add: lanes_of_block add.commute)
qed

lemma getblock64_at:
  assumes "p + 8 * i = int q"
  shows "getblock64 data p i =
    (if q + 8 \<le> length data then Some (le_word (take 8 (drop q data))) else None)"
proof -
  have "p + 4 * (2 * i) = int q" "p + 4 * (2 * i + 1) = int (q + 4)" using assms by simp_all
  from this [THEN getblock32_at, of data] show ?thesis
    by (simp add: getblock64_def le_word_split add.commute)
qed

lemma body_x64_128_sweep:
  "body_x64_128 data (int (m + n)) (int m) h =
     sweep 16 (\<lambda>b h. round_x64_128 h (halves_of b)) n (16 * m) data h"
proof (induction n arbitrary: m h)
  case 0
  then show ?case by (simp add: body_x64_128.simps)
next
  case (Suc n)
  have "getblock64 data 0 (int m * 2 + int j) =
      (if 16 * m + 8 * j + 8 \<le> length data then Some (le_word (take 8 (drop (16 * m + 8 * j) data)))
       else None)" for j
    by (rule getblock64_at) simp
  from this [of 0] this [of 1] show ?case
    using Suc.IH [of "Suc m"]
    by (subst body_x64_128.simps) (simp add: halves_of_def drop_take add.commute)
qed


section \<open>The switches over the last bytes\<close>

text \<open>A run of labels that fill one lane, from the byte \<open>j + m - 1\<close> down to the byte \<open>j\<close>.\<close>

primrec lane_bytes :: "u8 list \<Rightarrow> int \<Rightarrow> nat \<Rightarrow> nat \<Rightarrow> nat \<Rightarrow> 'w::len word \<Rightarrow> 'w word option" where
  "lane_bytes data tail n j 0 k = Some k"
| "lane_bytes data tail n j (Suc m) k =
     do { k \<leftarrow> case_byte data tail n (j + m) (8 * m) k; lane_bytes data tail n j m k }"

lemma get_byte_nat:
  "get_byte data (int p + int j) = (if p + j < length data then Some (data ! (p + j)) else None)"
  by (simp add: get_byte_def flip: of_nat_add)

lemma take_Suc_bytes:
  assumes "j + m < n" "p + (j + m) < length data"
  shows "take (Suc m) (drop j (take n (drop p data)))
    = take m (drop j (take n (drop p data))) @ [data ! (p + (j + m))]"
  using assms by (simp add: take_Suc_conv_app_nth)

lemma lane_bytes_eq:
  "lane_bytes data (int p) n j m k =
     (if n \<le> j \<or> m = 0 \<or> p + min n (j + m) \<le> length data
      then Some (k XOR le_word (take m (drop j (take n (drop p data))))) else None)"
proof (induction m arbitrary: k)
  case (Suc m)
  let ?bs = "drop j (take n (drop p data))"
  consider "j + m < n" "p + (j + m) < length data" | "n \<le> j + m" | "j + m < n" "length data \<le> p + (j + m)"
    by linarith
  then show ?case
  proof cases
    case 1
    have "length (take m ?bs) = m" using 1 by simp
    then have "(le_word (take (Suc m) ?bs) :: 'a word) =
        le_word (take m ?bs) XOR push_bit (8 * m) (ucast (data ! (p + (j + m))))"
      by (simp only: take_Suc_bytes [OF 1] le_word_snoc)
    with 1 Suc.IH show ?thesis
      by (simp add: case_byte_def get_byte_nat min_def ac_simps del: of_nat_add)
  next
    case 2
    then have "take (Suc m) ?bs = take m ?bs" by simp
    with 2 Suc.IH show ?thesis by (simp add: case_byte_def min_def)
  next
    case 3
    then show ?thesis by (simp add: case_byte_def get_byte_nat min_def del: of_nat_add)
  qed
qed simp

lemma rotl_0 [simp]: "rotl32 0 r = 0" "rotl64 0 r = 0"
  by (simp_all add: rotl32_def rotl64_def)

lemma mix_0 [simp]:
  "mix_x86_32 0 = 0" "mix_x86_128 c r c' 0 = 0" "mix_x64_128 d r d' 0 = 0"
  by (simp_all add: mix_x86_32_def mix_x86_128_def mix_x64_128_def)

text \<open>Nothing is read when no byte is left, and mixing a zero lane does not act.\<close>

lemma tail_x86_32_eq:
  assumes "n < 4" "p \<le> length data"
  shows "tail_x86_32 data (int p) n h =
    (if p + n \<le> length data then Some (h XOR mix_x86_32 (le_word (take n (drop p data)))) else None)"
proof -
  have "tail_x86_32 data (int p) n h =
      do { k1 \<leftarrow> lane_bytes data (int p) n 0 3 0; Some (if 1 \<le> n then h XOR mix_x86_32 k1 else h) }"
    by (simp add: tail_x86_32_def eval_nat_numeral)
  with assms show ?thesis by (cases "n = 0") (simp_all add: lane_bytes_eq)
qed

lemma tail_x86_128_eq:
  assumes "n < 16" "p \<le> length data"
  shows "tail_x86_128 data (int p) n h =
    (if p + n \<le> length data then Some (last_x86_128 h (lanes_of (take n (drop p data)))) else None)"
proof -
  obtain h1 h2 h3 h4 where h: "h = (h1, h2, h3, h4)" by (cases h)
  let ?bs = "take n (drop p data)"
  have eq: "tail_x86_128 data (int p) n h = do {
      k4 \<leftarrow> lane_bytes data (int p) n 12 3 0;
      k3 \<leftarrow> lane_bytes data (int p) n 8 4 0;
      k2 \<leftarrow> lane_bytes data (int p) n 4 4 0;
      k1 \<leftarrow> lane_bytes data (int p) n 0 4 0;
      Some (if 1 \<le> n then h1 XOR mix_x86_128 c1_x86 15 c2_x86 k1 else h1,
            if 5 \<le> n then h2 XOR mix_x86_128 c2_x86 16 c3_x86 k2 else h2,
            if 9 \<le> n then h3 XOR mix_x86_128 c3_x86 17 c4_x86 k3 else h3,
            if 13 \<le> n then h4 XOR mix_x86_128 c4_x86 18 c1_x86 k4 else h4) }"
    by (simp add: tail_x86_128_def eval_nat_numeral h Let_def)
  have k4: "take 4 (drop 12 ?bs) = take 3 (drop 12 ?bs)" "min n 15 = n" using assms by simp_all
  show ?thesis
  proof (cases "p + n \<le> length data")
    case True
    then show ?thesis
      unfolding eq lane_bytes_eq by (cases "n = 0") (simp_all add: last_x86_128_def lanes_of_def h k4)
  next
    case False
    with assms have "0 < n" by auto
    with False assms show ?thesis unfolding eq lane_bytes_eq by (auto simp: min_def)
  qed
qed

lemma tail_x64_128_eq:
  assumes "n < 16" "p \<le> length data"
  shows "tail_x64_128 data (int p) n h =
    (if p + n \<le> length data then Some (last_x64_128 h (halves_of (take n (drop p data)))) else None)"
proof -
  obtain h1 h2 where h: "h = (h1, h2)" by (cases h)
  let ?bs = "take n (drop p data)"
  have eq: "tail_x64_128 data (int p) n h = do {
      k2 \<leftarrow> lane_bytes data (int p) n 8 7 0;
      k1 \<leftarrow> lane_bytes data (int p) n 0 8 0;
      Some (if 1 \<le> n then h1 XOR mix_x64_128 c1_x64 31 c2_x64 k1 else h1,
            if 9 \<le> n then h2 XOR mix_x64_128 c2_x64 33 c1_x64 k2 else h2) }"
    by (simp add: tail_x64_128_def eval_nat_numeral h Let_def)
  have k2: "take 8 (drop 8 ?bs) = take 7 (drop 8 ?bs)" "min n 15 = n" using assms by simp_all
  show ?thesis
  proof (cases "p + n \<le> length data")
    case True
    then show ?thesis
      unfolding eq lane_bytes_eq by (cases "n = 0") (simp_all add: last_x64_128_def halves_of_def h k2)
  next
    case False
    with assms have "0 < n" by auto
    with False assms show ?thesis unfolding eq lane_bytes_eq by (auto simp: min_def)
  qed
qed


section \<open>The three functions are their references\<close>

text \<open>A length that an \<^verbatim>\<open>int\<close> holds, split into blocks and a remainder.\<close>

lemma len_split:
  assumes "0 \<le> len" "0 < (w :: nat)"
  obtains n r where "nat len = w * n + r" "r < w" "len sdiv int w = int n" "len mod int w = int r"
proof
  show "nat len = w * (nat len div w) + nat len mod w" by simp
  show "nat len mod w < w" using assms(2) by simp
  show "len sdiv int w = int (nat len div w)"
    using assms by (simp add: signed_divide_int_def zdiv_int sgn_if)
  show "len mod int w = int (nat len mod w)" using assms by (simp add: zmod_int)
qed

lemma len_and: "(len :: int) AND 3 = len mod 4" "len AND 15 = len mod 16"
  using take_bit_eq_mask [of 2 len] take_bit_eq_mask [of 4 len]
  by (simp_all add: take_bit_eq_mod mask_eq_exp_minus_1)

lemma of_int_len: "0 \<le> len \<Longrightarrow> word_of_int len = of_nat (nat len)"
  by simp

lemma x86_32_blocks:
  assumes "r < 4"
  shows "Option.bind (body_x86_32 key (int (4 * n)) (- int n) seed) (tail_x86_32 key (int (4 * n)) r) =
    (if 4 * n + r \<le> length key
     then Some (absorb 4 (\<lambda>b h. round_x86_32 h (le_word b)) (\<lambda>b h. h XOR mix_x86_32 (le_word b))
       (take (4 * n + r) key) seed) else None)"
  using body_x86_32_sweep [of key 0 n seed] tail_x86_32_eq [OF assms, of "4 * n" key] assms
    sweep_absorb [of r 4 0 key n "tail_x86_32 key (int (4 * n)) r"
      "\<lambda>b h. h XOR mix_x86_32 (le_word b)" "\<lambda>b h. round_x86_32 h (le_word b)" seed]
  by (simp del: of_nat_mult)

lemma x86_32_refines:
  assumes "0 \<le> len"
  shows "MurmurHash3_x86_32 key len seed =
    (if nat len \<le> length key then Some (murmur32 (take (nat len) key) seed) else None)"
proof -
  obtain n r where nr: "nat len = 4 * n + r" "r < 4" "len sdiv 4 = int n" "len mod 4 = int r"
    using len_split [OF assms, of 4] by auto
  have "MurmurHash3_x86_32 key len seed =
    Option.bind (Option.bind (body_x86_32 key (int (4 * n)) (- int n) seed) (tail_x86_32 key (int (4 * n)) r))
      (\<lambda>h1. Some (fmix32 (h1 XOR of_nat (nat len))))"
    unfolding MurmurHash3_x86_32_def len_and nr(3,4) of_int_len [OF assms]
    by (simp add: Let_def mult.commute)
  then show ?thesis unfolding x86_32_blocks [OF nr(2)] nr(1) by (simp add: murmur32_def)
qed


lemma x86_128_blocks:
  assumes "r < 16"
  shows "Option.bind (body_x86_128 key (int (16 * n)) (- int n) h) (tail_x86_128 key (int (16 * n)) r) =
    (if 16 * n + r \<le> length key
     then Some (absorb 16 (\<lambda>b h. round_x86_128 h (lanes_of b)) (\<lambda>b h. last_x86_128 h (lanes_of b))
       (take (16 * n + r) key) h) else None)"
  using body_x86_128_sweep [of key 0 n h] tail_x86_128_eq [OF assms, of "16 * n" key] assms
    sweep_absorb [of r 16 0 key n "tail_x86_128 key (int (16 * n)) r"
      "\<lambda>b h. last_x86_128 h (lanes_of b)" "\<lambda>b h. round_x86_128 h (lanes_of b)" h]
  by (simp del: of_nat_mult)

lemma x86_128_refines:
  assumes "0 \<le> len"
  shows "MurmurHash3_x86_128 key len seed =
    (if nat len \<le> length key then Some (murmur128_x86 (take (nat len) key) seed) else None)"
proof -
  obtain n r where nr: "nat len = 16 * n + r" "r < 16" "len sdiv 16 = int n" "len mod 16 = int r"
    using len_split [OF assms, of 16] by auto
  have "MurmurHash3_x86_128 key len seed =
    Option.bind (Option.bind (body_x86_128 key (int (16 * n)) (- int n) (seed, seed, seed, seed))
        (tail_x86_128 key (int (16 * n)) r))
      (\<lambda>h. let (h1, h2, h3, h4) = finish_x86_128 (of_nat (nat len)) h in Some [h1, h2, h3, h4])"
    unfolding MurmurHash3_x86_128_def len_and nr(3,4) of_int_len [OF assms]
    by (simp add: Let_def mult.commute)
  then show ?thesis
    unfolding x86_128_blocks [OF nr(2)] nr(1) by (simp add: murmur128_x86_def Let_def split: prod.split)
qed

lemma x64_128_blocks:
  assumes "r < 16"
  shows "Option.bind (body_x64_128 key (int n) 0 h) (tail_x64_128 key (int (16 * n)) r) =
    (if 16 * n + r \<le> length key
     then Some (absorb 16 (\<lambda>b h. round_x64_128 h (halves_of b)) (\<lambda>b h. last_x64_128 h (halves_of b))
       (take (16 * n + r) key) h) else None)"
  using body_x64_128_sweep [of key 0 n h] tail_x64_128_eq [OF assms, of "16 * n" key] assms
    sweep_absorb [of r 16 0 key n "tail_x64_128 key (int (16 * n)) r"
      "\<lambda>b h. last_x64_128 h (halves_of b)" "\<lambda>b h. round_x64_128 h (halves_of b)" h]
  by (simp del: of_nat_mult)

lemma x64_128_refines:
  assumes "0 \<le> len"
  shows "MurmurHash3_x64_128 key len seed =
    (if nat len \<le> length key then Some (murmur128_x64 (take (nat len) key) seed) else None)"
proof -
  obtain n r where nr: "nat len = 16 * n + r" "r < 16" "len sdiv 16 = int n" "len mod 16 = int r"
    using len_split [OF assms, of 16] by auto
  have "MurmurHash3_x64_128 key len seed =
    Option.bind (Option.bind (body_x64_128 key (int n) 0 (ucast seed, ucast seed))
        (tail_x64_128 key (int (16 * n)) r))
      (\<lambda>h. let (h1, h2) = finish_x64_128 (of_nat (nat len)) h in Some [h1, h2])"
    unfolding MurmurHash3_x64_128_def len_and nr(3,4) of_int_len [OF assms]
    by (simp add: Let_def mult.commute)
  then show ?thesis
    unfolding x64_128_blocks [OF nr(2)] nr(1) by (simp add: murmur128_x64_def Let_def split: prod.split)
qed

section \<open>Finalization can be undone\<close>

lemma xorshift_16 [simp]: "(let g = h XOR drop_bit 16 h in g XOR drop_bit 16 g) = (h :: u32)"
  by (rule bit_word_eqI) (auto simp: Let_def bit_simps dest: bit_imp_le_length)

lemma xorshift_33 [simp]: "(let g = k XOR drop_bit 33 k in g XOR drop_bit 33 g) = (k :: u64)"
  by (rule bit_word_eqI) (auto simp: Let_def bit_simps dest: bit_imp_le_length)

definition unshift_13 :: "u32 \<Rightarrow> u32" where
  "unshift_13 h = h XOR drop_bit 13 h XOR drop_bit 26 h"

lemma xorshift_13 [simp]:
  "unshift_13 (h XOR drop_bit 13 h) = h" "unshift_13 h XOR drop_bit 13 (unshift_13 h) = h"
  by (rule bit_word_eqI, auto simp: unshift_13_def bit_simps dest: bit_imp_le_length)+

definition unfmix32 :: "u32 \<Rightarrow> u32" where
  "unfmix32 h =
     (let h = h XOR drop_bit 16 h;
          h = h * 0x7ed1b41d;
          h = unshift_13 h;
          h = h * 0xa5cb9243
      in h XOR drop_bit 16 h)"

definition unfmix64 :: "u64 \<Rightarrow> u64" where
  "unfmix64 k =
     (let k = k XOR drop_bit 33 k;
          k = k * 0x9cb4b2f8129337db;
          k = k XOR drop_bit 33 k;
          k = k * 0x4f74430c22a54005
      in k XOR drop_bit 33 k)"

text \<open>Multiplication by an odd constant is undone by its inverse.\<close>

lemma mult_undo:
  fixes c :: "'w::len word"
  shows "c * d = 1 \<Longrightarrow> x * c * d = x"
  by (simp add: mult.assoc)

lemma mult_inject:
  fixes c :: "'w::len word"
  assumes "c * d = 1"
  shows "x * c = y * c \<longleftrightarrow> x = y"
  using assms by (metis mult_undo)

lemma xor_inject: "h XOR x = h XOR y \<longleftrightarrow> x = (y :: 'w::len word)"
  by (metis xor.assoc xor_self_eq xor.left_neutral)

lemma odd_undo_32:
  "x * 0x85ebca6b * 0xa5cb9243 = (x :: u32)" "x * 0xa5cb9243 * 0x85ebca6b = (x :: u32)"
  "x * 0xc2b2ae35 * 0x7ed1b41d = (x :: u32)" "x * 0x7ed1b41d * 0xc2b2ae35 = (x :: u32)"
  by (rule mult_undo, simp)+

lemma odd_undo_64:
  "x * 0xff51afd7ed558ccd * 0x4f74430c22a54005 = (x :: u64)"
  "x * 0x4f74430c22a54005 * 0xff51afd7ed558ccd = (x :: u64)"
  "x * 0xc4ceb9fe1a85ec53 * 0x9cb4b2f8129337db = (x :: u64)"
  "x * 0x9cb4b2f8129337db * 0xc4ceb9fe1a85ec53 = (x :: u64)"
  by (rule mult_undo, simp)+

lemma fmix32_inverse: "unfmix32 (fmix32 h) = h" "fmix32 (unfmix32 h) = h"
  using xorshift_16 unfolding fmix32_def unfmix32_def Let_def by (simp_all only: odd_undo_32 xorshift_13)

lemma fmix64_inverse: "unfmix64 (fmix64 k) = k" "fmix64 (unfmix64 k) = k"
  using xorshift_33 unfolding fmix64_def unfmix64_def Let_def by (simp_all only: odd_undo_64)

lemma rotl32_undo:
  assumes "0 < r" "r < 32"
  shows "rotl32 (rotl32 x r) (32 - r) = x"
proof (rule bit_word_eqI)
  fix i assume "i < LENGTH(32)"
  moreover have "\<not> bit x j" if "32 \<le> j" for j using that bit_imp_le_length [of x j] by auto
  ultimately show "bit (rotl32 (rotl32 x r) (32 - r)) i = bit x i"
    using assms by (cases "i + r < 32") (auto simp: rotl32_def bit_simps)
qed

lemma rotl32_inject: "0 < r \<Longrightarrow> r < 32 \<Longrightarrow> rotl32 x r = rotl32 y r \<longleftrightarrow> x = y"
  using rotl32_undo by metis

lemma mix_x86_32_inject: "mix_x86_32 x = mix_x86_32 y \<longleftrightarrow> x = y"
  unfolding mix_x86_32_def by (simp add: mult_inject [of _ "0x56ed309b"] mult_inject [of _ "0xdee13bb1"] rotl32_inject)

lemma round_x86_32_inject: "round_x86_32 h x = round_x86_32 h y \<longleftrightarrow> x = y"
  unfolding round_x86_32_def
  by (simp add: mult_inject [of _ "0xcccccccd"] rotl32_inject mix_x86_32_inject xor_inject)

lemma le_word_inject:
  assumes "length xs = length ys" "8 * length xs \<le> LENGTH('w::len)" "(le_word xs :: 'w word) = le_word ys"
  shows "xs = ys"
proof (rule nth_equalityI)
  fix i assume i: "i < length xs"
  show "xs ! i = ys ! i"
  proof (rule bit_word_eqI)
    fix j assume j: "j < LENGTH(8)"
    have d: "(8 * i + j) div 8 = i" "(8 * i + j) mod 8 = j" "8 * i + j < LENGTH('w)"
      using i j assms(2) by auto
    show "bit (xs ! i) j = bit (ys ! i) j"
      using arg_cong [OF assms(3), of "\<lambda>w. bit w (8 * i + j)"] i assms(1) d by (simp add: bit_le_word)
  qed
qed (rule assms(1))


section \<open>Properties\<close>

text \<open>
  C7: each of the three MurmurHash3 functions, on a key pointer with \<open>length key\<close> readable bytes and any
  length that is not negative, reads the first \<open>len\<close> bytes and nothing else (the call is undefined as soon as
  \<open>len\<close> is larger than the key) and returns the value of a reference that consumes the bytes in order and
  mixes the last, partial block padded with zeros: the pointer arithmetic of the backward block index and
  the fall-through switches are right for every remainder.
\<close>

theorem murmur_equals_reference:
  assumes "0 \<le> len"
  shows "MurmurHash3_x86_32 key len seed =
      (if nat len \<le> length key then Some (murmur32 (take (nat len) key) seed) else None)
    \<and> MurmurHash3_x86_128 key len seed =
      (if nat len \<le> length key then Some (murmur128_x86 (take (nat len) key) seed) else None)
    \<and> MurmurHash3_x64_128 key len seed =
      (if nat len \<le> length key then Some (murmur128_x64 (take (nat len) key) seed) else None)"
  using x86_32_refines [OF assms] x86_128_refines [OF assms] x64_128_refines [OF assms] by simp

theorem murmur_equals_reference_witness:
  "MurmurHash3_x86_32 [116, 101, 115, 116, 33] 5 0 = Some (murmur32 [116, 101, 115, 116, 33] 0)
   \<and> MurmurHash3_x86_32 [116, 101, 115, 116] 4 0 = Some 0xba6bd213
   \<and> MurmurHash3_x64_128 [116] 2 7 = None"
proof -
  have "MurmurHash3_x86_32 [116, 101, 115, 116] 4 0 = Some 0xba6bd213" by code_simp
  then show ?thesis
    using murmur_equals_reference [of 5 "[116, 101, 115, 116, 33]" 0]
      murmur_equals_reference [of 2 "[116]" 7] by simp
qed

text \<open>
  The finalizers \<open>fmix32\<close> and \<open>fmix64\<close> lose no information: the inverses \<open>unfmix32\<close> and \<open>unfmix64\<close> undo
  them on every word, from both sides.
\<close>

theorem fmix_bijective:
  "unfmix32 (fmix32 h) = h \<and> fmix32 (unfmix32 h) = h \<and> unfmix64 (fmix64 k) = k \<and> fmix64 (unfmix64 k) = k"
  using fmix32_inverse fmix64_inverse by simp

text \<open>
  Under one seed, two different keys of four bytes never have the same \<open>MurmurHash3_x86_32\<close> hash.
\<close>

theorem murmur_x86_32_no_collision:
  assumes "length k1 = 4" "length k2 = 4"
    and "MurmurHash3_x86_32 k1 4 seed = MurmurHash3_x86_32 k2 4 seed"
  shows "k1 = k2"
proof -
  have one_block: "murmur32 k seed = fmix32 (round_x86_32 seed (le_word k) XOR 4)" if "length k = 4" for k
    using that by (simp add: murmur32_def absorb.simps)
  have "murmur32 k1 seed = murmur32 k2 seed"
    using assms x86_32_refines [of 4 k1 seed] x86_32_refines [of 4 k2 seed] by simp
  then have "round_x86_32 seed (le_word k1) XOR 4 = round_x86_32 seed (le_word k2) XOR 4"
    unfolding one_block [OF assms(1)] one_block [OF assms(2)] by (metis fmix32_inverse(1))
  then have "(le_word k1 :: u32) = le_word k2"
    by (metis round_x86_32_inject xor_inject xor.commute)
  then show ?thesis using assms by (intro le_word_inject [where 'w = 32]) simp_all
qed

theorem murmur_x86_32_no_collision_witness:
  "MurmurHash3_x86_32 [1, 2, 3, 4] 4 9 \<noteq> MurmurHash3_x86_32 [1, 2, 3, 5] 4 9"
  using murmur_x86_32_no_collision [of "[1, 2, 3, 4]" "[1, 2, 3, 5]" 9] by fastforce

end
