(* ===== verification/Ez_Hash.thy ===== *)
theory Ez_Hash
  imports Ez_List
begin

text \<open>
  The hash table of \<^verbatim>\<open>src/ez_hash.c\<close>: an array of buckets, each the head of a ring of \<^verbatim>\<open>ez_list\<close>, whose
  elements are the \<^verbatim>\<open>listNode\<close> members of items. Addresses are laid out as a 64-bit compiler lays out the
  two structs, so that \<^verbatim>\<open>EZ_CONTAINER_OF\<close> is the subtraction it is in the code. The hash and the comparison
  function are the caller's, fields of the table. Keys and values are the caller's pointers. Each allocation takes the pointer
  that \<^verbatim>\<open>ez_malloc\<close> returns (which is zeroed memory); a write through \<open>NULL\<close> is undefined.
\<close>

unbundle bit_operations_syntax

section \<open>State\<close>

record hash_item =
  item_key :: addr
  item_len :: int
  item_val :: addr

record hash_tab =
  base :: addr
  compare_func :: "addr \<Rightarrow> addr \<Rightarrow> int"
  k_hash :: "addr \<Rightarrow> u32"
  bucket :: u32

record hash_mem =
  items :: "addr \<rightharpoonup> hash_item"
  links :: lmem

definition HASH_MIN_ITEM_SIZE :: u32 where "HASH_MIN_ITEM_SIZE = 16"
definition HASH_MAX_ITEM_SIZE :: u32 where "HASH_MAX_ITEM_SIZE = 1024"

text \<open>\<^verbatim>\<open>offsetof(hash_item_t, listNode)\<close>, \<^verbatim>\<open>sizeof(hash_item_t)\<close> and \<^verbatim>\<open>offsetof(struct hash_s, array)\<close>.\<close>

definition off_listNode :: nat where "off_listNode = 24"
definition sizeof_item :: nat where "sizeof_item = 40"
definition off_array :: nat where "off_array = 24"

definition EZ_CONTAINER_OF :: "addr \<Rightarrow> nat \<Rightarrow> addr" where
  "EZ_CONTAINER_OF p off = p - off"

definition array_item :: "addr \<Rightarrow> nat \<Rightarrow> addr" where
  "array_item h i = h + off_array + sizeof_item * i"

definition zero_item :: hash_item where
  "zero_item = \<lparr>item_key = NULL, item_len = 0, item_val = NULL\<rparr>"

definition zero_link :: list_head where
  "zero_link = \<lparr>nxt = NULL, prv = NULL\<rparr>"

definition new_item :: "hash_mem \<Rightarrow> addr \<Rightarrow> hash_mem" where
  "new_item st p =
     st\<lparr>items := (items st)(p \<mapsto> zero_item), links := (links st)(p + off_listNode \<mapsto> zero_link)\<rparr>"

section \<open>The operations\<close>

primrec init_buckets :: "addr \<Rightarrow> nat list \<Rightarrow> lmem \<Rightarrow> lmem option" where
  "init_buckets h [] m = Some m"
| "init_buckets h (i # is) m =
     do { m \<leftarrow> init_list_head m (array_item h i + off_listNode); init_buckets h is m }"

text \<open>
  \<^verbatim>\<open>MAX\<close> and \<^verbatim>\<open>MIN\<close> compare an unsigned constant with the \<^verbatim>\<open>int\<close>, which is converted: a negative count is
  a huge one.
\<close>

definition clamp_buckets :: "int \<Rightarrow> u32" where
  "clamp_buckets buckets =
     (let b = (if HASH_MIN_ITEM_SIZE > word_of_int buckets then HASH_MIN_ITEM_SIZE else word_of_int buckets)
      in if HASH_MAX_ITEM_SIZE < b then HASH_MAX_ITEM_SIZE else b)"

definition hash_create ::
    "hash_mem \<Rightarrow> (addr \<Rightarrow> addr \<Rightarrow> int) \<Rightarrow> (addr \<Rightarrow> u32) \<Rightarrow> int \<Rightarrow> addr \<Rightarrow> (hash_mem \<times> hash_tab) option" where
  "hash_create st func key_func buckets p =
     (let b = clamp_buckets buckets in
      if p = NULL then None
      else do {
        let st = fold (\<lambda>i st. new_item st (array_item p i)) [0..<unat b] st;
        let h = \<lparr>base = p, compare_func = func, k_hash = key_func, bucket = b\<rparr>;
        m \<leftarrow> init_buckets p [0..<unat (bucket h)] (links st);
        Some (st\<lparr>links := m\<rparr>, h)
      })"

definition bucket_index :: "hash_tab \<Rightarrow> addr \<Rightarrow> nat" where
  "bucket_index h k = unat (k_hash h k AND (bucket h - 1))"

definition bucket_node :: "hash_tab \<Rightarrow> nat \<Rightarrow> addr" where
  "bucket_node h i = array_item (base h) i + off_listNode"

definition hash_put :: "hash_mem \<Rightarrow> hash_tab \<Rightarrow> addr \<Rightarrow> addr \<Rightarrow> addr \<Rightarrow> (hash_mem \<times> int) option" where
  "hash_put st h k v p =
     (let e = bucket_node h (bucket_index h k) in
      if p = NULL then None
      else do {
        let st = new_item st p;
        it \<leftarrow> wr (items st) p (\<lambda>n. n\<lparr>item_key := k\<rparr>);
        it \<leftarrow> wr it p (\<lambda>n. n\<lparr>item_val := v\<rparr>);
        m \<leftarrow> list_add (links st) (p + off_listNode) e;
        Some (st\<lparr>items := it, links := m\<rparr>, 0)
      })"

definition hash_get :: "hash_mem \<Rightarrow> hash_tab \<Rightarrow> addr \<Rightarrow> addr option" where
  "hash_get st h k = do {
     let e = bucket_node h (bucket_index h k);
     (m, v) \<leftarrow> LIST_FOR (\<lambda>i m v. do {
         let te = EZ_CONTAINER_OF i off_listNode;
         tk \<leftarrow> rd item_key (items st) te;
         (if compare_func h tk k \<noteq> 0 then do { tv \<leftarrow> rd item_val (items st) te; Some (m, tv, True) }
          else Some (m, v, False))
       }) e (links st) NULL;
     Some v
   }"

definition hash_del :: "hash_mem \<Rightarrow> hash_tab \<Rightarrow> addr \<Rightarrow> (hash_mem \<times> addr) option" where
  "hash_del st h k = do {
     let e = bucket_node h (bucket_index h k);
     (m, v) \<leftarrow> LIST_FOR (\<lambda>i m v. do {
         let te = EZ_CONTAINER_OF i off_listNode;
         tk \<leftarrow> rd item_key (items st) te;
         (if compare_func h tk k \<noteq> 0 then do {
            tv \<leftarrow> rd item_val (items st) te;
            m \<leftarrow> list_del m (te + off_listNode);
            Some (m, tv, True)
          }
          else Some (m, v, False))
       }) e (links st) NULL;
     Some (st\<lparr>links := m\<rparr>, v)
   }"

section \<open>What a table holds\<close>

text \<open>
  The specification is an association list, newest entry first. Bucket \<open>i\<close> holds the entries whose key
  hashes to \<open>i\<close>, in the same order.
\<close>

type_synonym assoc = "(addr \<times> addr) list"

definition node_of :: "addr \<Rightarrow> addr" where
  "node_of p = p + off_listNode"

definition ring_of :: "hash_tab \<Rightarrow> (nat \<Rightarrow> addr list) \<Rightarrow> nat \<Rightarrow> addr set" where
  "ring_of h bs i = set (bucket_node h i # map node_of (bs i))"

definition stores :: "(addr \<rightharpoonup> hash_item) \<Rightarrow> addr \<Rightarrow> addr \<times> addr \<Rightarrow> bool" where
  "stores it p e \<longleftrightarrow> rd item_key it p = Some (fst e) \<and> rd item_val it p = Some (snd e)"

definition in_bucket :: "hash_tab \<Rightarrow> nat \<Rightarrow> assoc \<Rightarrow> assoc" where
  "in_bucket h i es = filter (\<lambda>e. bucket_index h (fst e) = i) es"

definition table :: "hash_mem \<Rightarrow> hash_tab \<Rightarrow> assoc \<Rightarrow> bool" where
  "table st h es \<longleftrightarrow> bucket h \<noteq> 0 \<and> (\<exists>bs.
     (\<forall>i < unat (bucket h). dlist (links st) (bucket_node h i) (map node_of (bs i))
        \<and> list_all2 (stores (items st)) (bs i) (in_bucket h i es))
     \<and> (\<forall>i < unat (bucket h). \<forall>j < unat (bucket h). i \<noteq> j \<longrightarrow> ring_of h bs i \<inter> ring_of h bs j = {}))"

text \<open>The caller's comparison never says that keys with different hashes are equal.\<close>

definition compatible :: "hash_tab \<Rightarrow> bool" where
  "compatible h \<longleftrightarrow> (\<forall>a b. compare_func h a b \<noteq> 0 \<longrightarrow> k_hash h a = k_hash h b)"

definition matches :: "hash_tab \<Rightarrow> addr \<Rightarrow> addr \<times> addr \<Rightarrow> bool" where
  "matches h k e \<longleftrightarrow> compare_func h (fst e) k \<noteq> 0"

definition assoc_get :: "hash_tab \<Rightarrow> assoc \<Rightarrow> addr \<Rightarrow> addr" where
  "assoc_get h es k = (case List.find (matches h k) es of None \<Rightarrow> NULL | Some e \<Rightarrow> snd e)"

fun drop_first :: "('a \<Rightarrow> bool) \<Rightarrow> 'a list \<Rightarrow> 'a list" where
  "drop_first P [] = []"
| "drop_first P (x # xs) = (if P x then xs else x # drop_first P xs)"

definition unused :: "hash_mem \<Rightarrow> addr \<Rightarrow> bool" where
  "unused st p \<longleftrightarrow> p \<noteq> NULL \<and> items st p = None \<and> links st (node_of p) = None"

section \<open>Layout and index\<close>

lemma node_of_inject [simp]: "node_of p = node_of q \<longleftrightarrow> p = q"
  by (simp add: node_of_def)

lemma container_of_node [simp]: "EZ_CONTAINER_OF (node_of p) off_listNode = p"
  by (simp add: EZ_CONTAINER_OF_def node_of_def)

lemma array_item_inject [simp]: "array_item h i = array_item h j \<longleftrightarrow> i = j"
  by (simp add: array_item_def sizeof_item_def)

lemma bucket_node_eq: "bucket_node h i = node_of (array_item (base h) i)"
  by (simp add: bucket_node_def node_of_def)

lemma node_of_pos [simp]: "node_of p \<noteq> NULL"
  by (simp add: node_of_def off_listNode_def)

lemma clamp_bounds: "16 \<le> unat (clamp_buckets b) \<and> unat (clamp_buckets b) \<le> 1024"
  by (auto simp: clamp_buckets_def HASH_MIN_ITEM_SIZE_def HASH_MAX_ITEM_SIZE_def word_less_nat_alt
      Let_def not_less)

lemma bucket_index_bound:
  assumes "bucket h \<noteq> 0"
  shows "bucket_index h k < unat (bucket h)"
proof -
  have "k_hash h k AND (bucket h - 1) \<le> bucket h - 1" by (simp add: word_and_le1)
  moreover have "bucket h - 1 < bucket h" 
    using unat_minus_one [OF assms] assms by (simp add: word_less_nat_alt unat_gt_0)
  ultimately show ?thesis unfolding bucket_index_def by (metis le_less_trans unat_mono)
qed

section \<open>Creation\<close>

lemma init_buckets_spec:
  assumes "distinct is" "\<And>i. i \<in> set is \<Longrightarrow> m (node_of (array_item h i)) \<noteq> None"
  shows "\<exists>m'. init_buckets h is m = Some m'
    \<and> (\<forall>i \<in> set is. dlist m' (node_of (array_item h i)) [])
    \<and> agree_on (- (\<lambda>i. node_of (array_item h i)) ` set is) m m'"
  using assms
proof (induction "is" arbitrary: m)
  case Nil
  then show ?case by simp
next
  case (Cons i "is")
  let ?n = "\<lambda>i. node_of (array_item h i)"
  obtain m1 where m1: "init_list_head m (?n i) = Some m1" "dlist m1 (?n i) []"
    and ag1: "agree_on (- {?n i}) m m1"
    using init_list_head_spec [of m "?n i"] Cons.prems(2) [of i] by auto
  have "m1 (?n j) \<noteq> None" if "j \<in> set is" for j
  proof -
    have "j \<noteq> i" using that Cons.prems(1) by auto
    then show ?thesis using that agree_onD [OF ag1, of "?n j"] Cons.prems(2) [of j] by simp
  qed
  with Cons.IH [of m1] Cons.prems(1) obtain m2 where m2: "init_buckets h is m1 = Some m2"
    "\<forall>i \<in> set is. dlist m2 (?n i) []" and ag2: "agree_on (- ?n ` set is) m1 m2"
    by auto
  have "dlist m2 (?n i) []"
    by (rule dlist_frame [OF m1(2)], rule agree_on_mono [OF ag2]) (use Cons.prems(1) in auto)
  moreover have "agree_on (- ?n ` set (i # is)) m m2"
    by (rule agree_on_trans) (auto intro: agree_on_mono [OF ag1] agree_on_mono [OF ag2])
  ultimately show ?case using m1(1) m2 by (auto simp: node_of_def)
qed

lemma new_items_links:
  "links (fold (\<lambda>i st. new_item st (array_item p i)) is st) q =
     (if q \<in> (\<lambda>i. node_of (array_item p i)) ` set is then Some zero_link else links st q)"
  by (induction "is" arbitrary: st) (auto simp: new_item_def node_of_def)

lemma new_items_items:
  "items (fold (\<lambda>i st. new_item st (array_item p i)) is st) q =
     (if q \<in> array_item p ` set is then Some zero_item else items st q)"
  by (induction "is" arbitrary: st) (auto simp: new_item_def)

lemma hash_create_spec:
  assumes "p \<noteq> NULL"
  shows "\<exists>st' h. hash_create st func key_func n p = Some (st', h) \<and> table st' h []
    \<and> h = \<lparr>base = p, compare_func = func, k_hash = key_func, bucket = clamp_buckets n\<rparr>
    \<and> (\<forall>q. unused st q \<and> q \<notin> array_item p ` {..<unat (clamp_buckets n)} \<longrightarrow> unused st' q)"
proof -
  let ?b = "clamp_buckets n" and ?n = "\<lambda>i. node_of (array_item p i)"
  let ?st = "fold (\<lambda>i st. new_item st (array_item p i)) [0..<unat ?b] st"
  obtain m where m: "init_buckets p [0..<unat ?b] (links ?st) = Some m"
    "\<forall>i < unat ?b. dlist m (?n i) []"
    and ag: "agree_on (- ?n ` {..<unat ?b}) (links ?st) m"
    using init_buckets_spec [of "[0..<unat ?b]" "links ?st" p] by (auto simp: new_items_links atLeast0LessThan)
  let ?h = "\<lparr>base = p, compare_func = func, k_hash = key_func, bucket = ?b\<rparr>"
  have "hash_create st func key_func n p = Some (?st\<lparr>links := m\<rparr>, ?h)"
    using assms m(1) by (simp add: hash_create_def Let_def)
  moreover have "table (?st\<lparr>links := m\<rparr>) ?h []"
    using m(2) clamp_bounds [of n]
    by (auto simp: table_def bucket_node_eq in_bucket_def ring_of_def intro!: exI [of _ "\<lambda>_. []"])
  moreover have "unused (?st\<lparr>links := m\<rparr>) q" if "unused st q" "q \<notin> array_item p ` {..<unat ?b}" for q
    using that agree_onD [OF ag, of "node_of q"]
    by (auto simp: unused_def new_items_links new_items_items image_iff atLeast0LessThan)
  ultimately show ?thesis by blast
qed

section \<open>Put\<close>

lemma table_ring_live:
  assumes "dlist m h xs" "m q = None"
  shows "q \<notin> set (h # xs)"
  using assms dlist_live by fastforce

lemma hash_put_spec:
  assumes t: "table st h es" and p: "unused st p"
  shows "\<exists>st'. hash_put st h k v p = Some (st', 0) \<and> table st' h ((k, v) # es)
    \<and> (\<forall>q. unused st q \<and> q \<noteq> p \<longrightarrow> unused st' q)"
proof -
  let ?i = "bucket_index h k" and ?n = "unat (bucket h)" and ?np = "node_of p"
  obtain bs where rings: "\<And>i. i < ?n \<Longrightarrow> dlist (links st) (bucket_node h i) (map node_of (bs i))"
    and vals: "\<And>i. i < ?n \<Longrightarrow> list_all2 (stores (items st)) (bs i) (in_bucket h i es)"
    and disj: "\<And>i j. i < ?n \<Longrightarrow> j < ?n \<Longrightarrow> i \<noteq> j \<Longrightarrow> ring_of h bs i \<inter> ring_of h bs j = {}"
    and b: "bucket h \<noteq> 0"
    using t unfolding table_def by blast
  have i: "?i < ?n" using bucket_index_bound [OF b] .
  have out: "?np \<notin> ring_of h bs j" if "j < ?n" for j
    using table_ring_live [OF rings [OF that]] p by (simp add: ring_of_def unused_def)
  let ?m = "(links st)(?np \<mapsto> zero_link)"
  have "dlist ?m (bucket_node h j) (map node_of (bs j))" if "j < ?n" for j
    using out [OF that] by (intro dlist_frame [OF rings [OF that]]) (auto simp: ring_of_def agree_on_def)
  note rings1 = this
  obtain m' where m': "list_add ?m ?np (bucket_node h ?i) = Some m'"
    "dlist m' (bucket_node h ?i) (?np # map node_of (bs ?i))"
    and ag: "agree_on (- insert ?np (ring_of h bs ?i)) ?m m'"
    using ring.ins_front [OF rings1 [OF i], of ?np] out [OF i] by (auto simp: ring_of_def)
  let ?it = "(items st)(p \<mapsto> \<lparr>item_key = k, item_len = 0, item_val = v\<rparr>)"
  let ?st = "st\<lparr>items := ?it, links := m'\<rparr>" and ?bs = "bs(?i := p # bs ?i)"
  have "hash_put st h k v p = Some (?st, 0)"
    using p m'(1) by (simp add: hash_put_def unused_def new_item_def mem_simps node_of_def zero_item_def)
  moreover have "table ?st h ((k, v) # es)"
    unfolding table_def
  proof (intro conjI exI [of _ ?bs] allI impI)
    fix j assume j: "j < ?n"
    show "dlist (links ?st) (bucket_node h j) (map node_of (?bs j))"
    proof (cases "j = ?i")
      case False
      then have "agree_on (ring_of h bs j) ?m m'"
        using out [OF j] disj [OF j i] by (intro agree_on_mono [OF ag]) auto
      with dlist_frame [OF rings1 [OF j]] False show ?thesis by (simp add: ring_of_def)
    qed (use m'(2) in simp)
    have "stores ?it q e" if "stores (items st) q e" for q e
      using that p by (cases "q = p") (auto simp: stores_def unused_def rd_def)
    then have "list_all2 (stores ?it) (bs j) (in_bucket h j es)"
      by (rule list_all2_mono [OF vals [OF j]])
    then show "list_all2 (stores (items ?st)) (?bs j) (in_bucket h j ((k, v) # es))"
      by (auto simp: in_bucket_def stores_def)
  next
    fix j l assume "j < ?n" "l < ?n" "j \<noteq> l"
    with disj [OF this] out [of j] out [of l] show "ring_of h ?bs j \<inter> ring_of h ?bs l = {}"
      by (auto simp: ring_of_def)
  qed (rule b)
  moreover have "unused ?st q" if "unused st q" "q \<noteq> p" for q
  proof -
    have "node_of q \<notin> insert ?np (ring_of h bs ?i)"
      using table_ring_live [OF rings [OF i], of "node_of q"] that by (simp add: ring_of_def unused_def)
    with that agree_onD [OF ag, of "node_of q"] show ?thesis by (simp add: unused_def)
  qed
  ultimately show ?thesis by blast
qed

section \<open>Get and delete\<close>

lemma find_filter:
  "(\<And>x. x \<in> set xs \<Longrightarrow> P x \<Longrightarrow> Q x) \<Longrightarrow> List.find P (filter Q xs) = List.find P xs"
  by (induction xs) auto

lemma drop_first_filter:
  "(\<And>x. x \<in> set xs \<Longrightarrow> P x \<Longrightarrow> Q x) \<Longrightarrow> drop_first P (filter Q xs) = filter Q (drop_first P xs)"
  by (induction xs) (auto simp: filter_id_conv)

lemma drop_first_filter_other:
  "(\<And>x. x \<in> set xs \<Longrightarrow> P x \<Longrightarrow> \<not> Q x) \<Longrightarrow> filter Q (drop_first P xs) = filter Q xs"
  by (induction xs) auto

text \<open>What the loop body tests at a node, and the entry it finds.\<close>

definition node_matches :: "(addr \<rightharpoonup> hash_item) \<Rightarrow> hash_tab \<Rightarrow> addr \<Rightarrow> addr \<Rightarrow> bool" where
  "node_matches it h k x \<longleftrightarrow> (case it (EZ_CONTAINER_OF x off_listNode) of
     None \<Rightarrow> False | Some n \<Rightarrow> compare_func h (item_key n) k \<noteq> 0)"

lemma find_chain:
  assumes "list_all2 (stores it) ps es"
  shows "case List.find (matches h k) es of
      None \<Rightarrow> List.find (node_matches it h k) (map node_of ps) = None
    | Some e \<Rightarrow> \<exists>us p vs. ps = us @ p # vs
        \<and> List.find (node_matches it h k) (map node_of ps) = Some (node_of p) \<and> stores it p e
        \<and> list_all2 (stores it) (us @ vs) (drop_first (matches h k) es)"
  using assms
proof (induction rule: list_all2_induct)
  case (Cons p ps e es)
  then have m: "node_matches it h k (node_of p) = matches h k e"
    by (auto simp: node_matches_def matches_def stores_def rd_eq_Some_conv)
  show ?case
  proof (cases "matches h k e")
    case True
    with m Cons show ?thesis by (auto intro: exI [of _ "[]"])
  next
    case False
    show ?thesis
    proof (cases "List.find (matches h k) es")
      case (Some e')
      with Cons.IH obtain us q vs where "ps = us @ q # vs"
        "List.find (node_matches it h k) (map node_of ps) = Some (node_of q)" "stores it q e'"
        "list_all2 (stores it) (us @ vs) (drop_first (matches h k) es)" by auto
      then have found: "p # ps = (p # us) @ q # vs \<and>
          List.find (node_matches it h k) (map node_of (p # ps)) = Some (node_of q) \<and> stores it q e' \<and>
          list_all2 (stores it) ((p # us) @ vs) (drop_first (matches h k) (e # es))"
        using False m Cons.hyps by simp
      have "List.find (matches h k) (e # es) = Some e'" using False Some by simp
      then show ?thesis
        by (simp only: option.case) (rule exI [of _ "p # us"], rule exI [of _ q], rule exI [of _ vs], rule found)
    qed (use False m Cons.IH in auto)
  qed
qed simp

lemma stores_body:
  assumes "list_all2 (stores it) ps es" "x \<in> set (map node_of ps)"
  shows "\<exists>n. it (EZ_CONTAINER_OF x off_listNode) = Some n \<and> x = node_of (EZ_CONTAINER_OF x off_listNode)"
proof -
  obtain p where p: "p \<in> set ps" "x = node_of p" using assms(2) by auto
  then obtain i where "i < length ps" "p = ps ! i" by (auto simp: in_set_conv_nth)
  then have "stores it p (es ! i)" using list_all2_nthD [OF assms(1)] by simp
  then show ?thesis using p by (auto simp: stores_def rd_eq_Some_conv)
qed

lemma match_bucket:
  "compatible h \<Longrightarrow> matches h k e \<Longrightarrow> bucket_index h (fst e) = bucket_index h k"
  by (simp add: compatible_def matches_def bucket_index_def)

lemma find_in_bucket:
  assumes "compatible h"
  shows "List.find (matches h k) (in_bucket h (bucket_index h k) es) = List.find (matches h k) es"
  unfolding in_bucket_def by (rule find_filter) (use match_bucket [OF assms] in blast)

lemma hash_get_spec:
  assumes t: "table st h es" and c: "compatible h"
  shows "hash_get st h k = Some (assoc_get h es k)"
proof -
  let ?i = "bucket_index h k" and ?it = "items st"
  obtain ps where ring: "dlist (links st) (bucket_node h ?i) (map node_of ps)"
    and vals: "list_all2 (stores ?it) ps (in_bucket h ?i es)"
    using t bucket_index_bound [of h k] unfolding table_def by blast
  let ?body = "\<lambda>i m v. do {
         let te = EZ_CONTAINER_OF i off_listNode;
         tk \<leftarrow> rd item_key ?it te;
         (if compare_func h tk k \<noteq> 0 then do { tv \<leftarrow> rd item_val ?it te; Some (m, tv, True) }
          else Some (m, v, False))
       }"
  have "LIST_FOR ?body (bucket_node h ?i) (links st) NULL =
    (case List.find (node_matches ?it h k) (map node_of ps) of None \<Rightarrow> Some (links st, NULL)
     | Some x \<Rightarrow> map_option (\<lambda>v. (links st, v)) (rd item_val ?it (EZ_CONTAINER_OF x off_listNode)))"
    using stores_body [OF vals]
    by (intro LIST_FOR_search [OF ring]) (fastforce simp: node_matches_def rd_def)+
  then show ?thesis
    using find_chain [OF vals, of h k] unfolding find_in_bucket [OF c]
    by (auto simp: hash_get_def assoc_get_def stores_def split: option.splits)
qed

lemma hash_del_spec:
  assumes t: "table st h es" and c: "compatible h"
  shows "\<exists>st'. hash_del st h k = Some (st', assoc_get h es k) \<and> table st' h (drop_first (matches h k) es)
    \<and> items st' = items st \<and> (\<forall>q. unused st q \<longrightarrow> unused st' q)"
proof -
  let ?i = "bucket_index h k" and ?it = "items st" and ?n = "unat (bucket h)" and ?m = "links st"
  obtain bs where rings: "\<And>i. i < ?n \<Longrightarrow> dlist ?m (bucket_node h i) (map node_of (bs i))"
    and vals: "\<And>i. i < ?n \<Longrightarrow> list_all2 (stores ?it) (bs i) (in_bucket h i es)"
    and disj: "\<And>i j. i < ?n \<Longrightarrow> j < ?n \<Longrightarrow> i \<noteq> j \<Longrightarrow> ring_of h bs i \<inter> ring_of h bs j = {}"
    and b: "bucket h \<noteq> 0"
    using t unfolding table_def by blast
  have i: "?i < ?n" using bucket_index_bound [OF b] .
  let ?body = "\<lambda>i m v. do {
         let te = EZ_CONTAINER_OF i off_listNode;
         tk \<leftarrow> rd item_key ?it te;
         (if compare_func h tk k \<noteq> 0 then do {
            tv \<leftarrow> rd item_val ?it te;
            m \<leftarrow> list_del m (te + off_listNode);
            Some (m, tv, True)
          }
          else Some (m, v, False))
       }"
  let ?found = "\<lambda>x. do { tv \<leftarrow> rd item_val ?it (EZ_CONTAINER_OF x off_listNode); m \<leftarrow> list_del ?m x; Some (m, tv) }"
  have search: "LIST_FOR ?body (bucket_node h ?i) ?m NULL =
    (case List.find (node_matches ?it h k) (map node_of (bs ?i)) of None \<Rightarrow> Some (?m, NULL) | Some x \<Rightarrow> ?found x)"
  proof (rule LIST_FOR_search [OF rings [OF i]])
    fix x assume x: "x \<in> set (map node_of (bs ?i))"
    then obtain n where n: "?it (EZ_CONTAINER_OF x off_listNode) = Some n"
      and node: "EZ_CONTAINER_OF x off_listNode + off_listNode = x"
      using stores_body [OF vals [OF i]] by (fastforce simp: node_of_def)
    show "?body x ?m NULL = Some (?m, NULL, False)" if "\<not> node_matches ?it h k x"
      using that n by (simp add: node_matches_def mem_simps)
    show "?body x ?m NULL = map_option (\<lambda>(m, s). (m, s, True)) (?found x)" if "node_matches ?it h k x"
      using that n node by (cases "list_del ?m x") (simp_all add: node_matches_def mem_simps)
  qed
  show ?thesis
  proof (cases "List.find (matches h k) es")
    case None
    then have "drop_first (matches h k) es = es" by (induction es) (auto split: if_splits)
    with None search find_chain [OF vals [OF i], of h k] t show ?thesis
      unfolding find_in_bucket [OF c] by (simp add: hash_del_def assoc_get_def)
  next
    case (Some e)
    with find_chain [OF vals [OF i], of h k] obtain us p vs where
      bs: "bs ?i = us @ p # vs" "List.find (node_matches ?it h k) (map node_of (bs ?i)) = Some (node_of p)"
      and p: "stores ?it p e"
      and left_over: "list_all2 (stores ?it) (us @ vs) (drop_first (matches h k) (in_bucket h ?i es))"
      unfolding find_in_bucket [OF c] by auto
    have "dlist ?m (bucket_node h ?i) (map node_of us @ node_of p # map node_of vs)"
      using rings [OF i] bs(1) by simp
    from ring.del_law [OF this] obtain m' where m': "list_del ?m (node_of p) = Some m'"
      "dlist m' (bucket_node h ?i) (map node_of us @ map node_of vs)"
      and ag: "agree_on (- ring_of h bs ?i) ?m m'"
      using bs(1) by (auto simp: ring_of_def)
    let ?st = "st\<lparr>links := m'\<rparr>" and ?bs = "bs(?i := us @ vs)"
    have "hash_del st h k = Some (?st, assoc_get h es k)"
      using search bs(2) m'(1) p Some by (simp add: hash_del_def assoc_get_def stores_def)
    moreover have "table ?st h (drop_first (matches h k) es)"
      unfolding table_def
    proof (intro conjI exI [of _ ?bs] allI impI)
      fix j assume j: "j < ?n"
      show "dlist (links ?st) (bucket_node h j) (map node_of (?bs j))"
      proof (cases "j = ?i")
        case False
        then have "agree_on (ring_of h bs j) ?m m'"
          using disj [OF j i] by (intro agree_on_mono [OF ag]) auto
        with dlist_frame [OF rings [OF j]] False show ?thesis by (simp add: ring_of_def)
      qed (use m'(2) in simp)
      show "list_all2 (stores (items ?st)) (?bs j) (in_bucket h j (drop_first (matches h k) es))"
      proof (cases "j = ?i")
        case True
        have "drop_first (matches h k) (in_bucket h ?i es) = in_bucket h ?i (drop_first (matches h k) es)"
          unfolding in_bucket_def by (rule drop_first_filter) (use match_bucket [OF c] in blast)
        with left_over True show ?thesis by simp
      next
        case False
        have "in_bucket h j (drop_first (matches h k) es) = in_bucket h j es"
          unfolding in_bucket_def
          by (rule drop_first_filter_other) (use match_bucket [OF c] False in blast)
        with vals [OF j] False show ?thesis by simp
      qed
    next
      fix j l assume "j < ?n" "l < ?n" "j \<noteq> l"
      moreover have "ring_of h ?bs x \<subseteq> ring_of h bs x" for x using bs(1) by (auto simp: ring_of_def)
      ultimately show "ring_of h ?bs j \<inter> ring_of h ?bs l = {}" using disj by blast
    qed (rule b)
    moreover have "unused ?st q" if "unused st q" for q
    proof -
      have "node_of q \<notin> ring_of h bs ?i"
        using table_ring_live [OF rings [OF i], of "node_of q"] that by (simp add: ring_of_def unused_def)
      with that agree_onD [OF ag, of "node_of q"] show ?thesis by (simp add: unused_def)
    qed
    ultimately show ?thesis by auto
  qed
qed

section \<open>The contract of a table\<close>

text \<open>
  A store whose newest entry of a key hides the older ones: \<open>rel s es\<close> relates a state to an association
  list, \<open>get\<close> answers the first match, \<open>del\<close> takes the first match out. A history is a sequence of calls;
  each insertion comes with the block that its allocation returned.
\<close>

datatype hash_op = Put addr addr addr | Get addr | Del addr

primrec op_block :: "hash_op \<Rightarrow> addr list" where
  "op_block (Put k v p) = [p]"
| "op_block (Get k) = []"
| "op_block (Del k) = []"

fun assoc_step :: "(addr \<Rightarrow> addr \<times> addr \<Rightarrow> bool) \<Rightarrow> hash_op \<Rightarrow> assoc \<Rightarrow> assoc \<times> addr list" where
  "assoc_step eq (Put k v p) es = ((k, v) # es, [])"
| "assoc_step eq (Get k) es = (es, [case List.find (eq k) es of None \<Rightarrow> NULL | Some e \<Rightarrow> snd e])"
| "assoc_step eq (Del k) es =
     (drop_first (eq k) es, [case List.find (eq k) es of None \<Rightarrow> NULL | Some e \<Rightarrow> snd e])"

primrec assoc_run :: "(addr \<Rightarrow> addr \<times> addr \<Rightarrow> bool) \<Rightarrow> hash_op list \<Rightarrow> assoc \<Rightarrow> assoc \<times> addr list" where
  "assoc_run eq [] es = (es, [])"
| "assoc_run eq (c # cs) es =
     (let (es, out) = assoc_step eq c es; (es, outs) = assoc_run eq cs es in (es, out @ outs))"

fun call :: "('s \<Rightarrow> addr \<Rightarrow> addr \<Rightarrow> addr \<Rightarrow> ('s \<times> int) option) \<Rightarrow> ('s \<Rightarrow> addr \<Rightarrow> addr option) \<Rightarrow>
    ('s \<Rightarrow> addr \<Rightarrow> ('s \<times> addr) option) \<Rightarrow> hash_op \<Rightarrow> 's \<Rightarrow> ('s \<times> addr list) option" where
  "call put get del (Put k v p) s = map_option (\<lambda>(s, r). (s, [])) (put s k v p)"
| "call put get del (Get k) s = map_option (\<lambda>v. (s, [v])) (get s k)"
| "call put get del (Del k) s = map_option (\<lambda>(s, v). (s, [v])) (del s k)"

primrec calls :: "('s \<Rightarrow> addr \<Rightarrow> addr \<Rightarrow> addr \<Rightarrow> ('s \<times> int) option) \<Rightarrow> ('s \<Rightarrow> addr \<Rightarrow> addr option) \<Rightarrow>
    ('s \<Rightarrow> addr \<Rightarrow> ('s \<times> addr) option) \<Rightarrow> hash_op list \<Rightarrow> 's \<Rightarrow> ('s \<times> addr list) option" where
  "calls put get del [] s = Some (s, [])"
| "calls put get del (c # cs) s = do {
     (s, out) \<leftarrow> call put get del c s;
     (s, outs) \<leftarrow> calls put get del cs s;
     Some (s, out @ outs)
   }"

definition hash_run :: "hash_tab \<Rightarrow> hash_op list \<Rightarrow> hash_mem \<Rightarrow> (hash_mem \<times> addr list) option" where
  "hash_run h = calls (\<lambda>st. hash_put st h) (\<lambda>st. hash_get st h) (\<lambda>st. hash_del st h)"

locale shadowing_store =
  fixes rel :: "'s \<Rightarrow> assoc \<Rightarrow> bool"
    and fresh :: "'s \<Rightarrow> addr \<Rightarrow> bool"
    and put :: "'s \<Rightarrow> addr \<Rightarrow> addr \<Rightarrow> addr \<Rightarrow> ('s \<times> int) option"
    and get :: "'s \<Rightarrow> addr \<Rightarrow> addr option"
    and del :: "'s \<Rightarrow> addr \<Rightarrow> ('s \<times> addr) option"
    and eq :: "addr \<Rightarrow> addr \<times> addr \<Rightarrow> bool"
  assumes put_law: "rel s es \<Longrightarrow> fresh s p \<Longrightarrow>
      \<exists>s'. put s k v p = Some (s', 0) \<and> rel s' ((k, v) # es) \<and> (\<forall>q. fresh s q \<and> q \<noteq> p \<longrightarrow> fresh s' q)"
    and get_law: "rel s es \<Longrightarrow>
      get s k = Some (case List.find (eq k) es of None \<Rightarrow> NULL | Some e \<Rightarrow> snd e)"
    and del_law: "rel s es \<Longrightarrow>
      \<exists>s'. del s k = Some (s', case List.find (eq k) es of None \<Rightarrow> NULL | Some e \<Rightarrow> snd e)
        \<and> rel s' (drop_first (eq k) es) \<and> (\<forall>q. fresh s q \<longrightarrow> fresh s' q)"
begin

lemma call_refines:
  assumes "rel s es" "\<forall>p \<in> set (op_block c). fresh s p"
  shows "\<exists>s'. call put get del c s = Some (s', snd (assoc_step eq c es)) \<and> rel s' (fst (assoc_step eq c es))
    \<and> (\<forall>q. fresh s q \<and> q \<notin> set (op_block c) \<longrightarrow> fresh s' q)"
proof (cases c)
  case (Put k v p)
  then show ?thesis using put_law [OF assms(1), of p k v] assms(2) by auto
next
  case (Get k)
  then show ?thesis using get_law [OF assms(1), of k] assms(1) by simp
next
  case (Del k)
  then show ?thesis using del_law [OF assms(1), of k] by auto
qed

lemma calls_refine:
  assumes "rel s es" "distinct (concat (map op_block cs))" "\<forall>p \<in> set (concat (map op_block cs)). fresh s p"
  shows "\<exists>s'. calls put get del cs s = Some (s', snd (assoc_run eq cs es)) \<and> rel s' (fst (assoc_run eq cs es))"
  using assms
proof (induction cs arbitrary: s es)
  case (Cons c cs)
  obtain s1 where s1: "call put get del c s = Some (s1, snd (assoc_step eq c es))"
    "rel s1 (fst (assoc_step eq c es))" and fr: "\<forall>q. fresh s q \<and> q \<notin> set (op_block c) \<longrightarrow> fresh s1 q"
    using call_refines [OF Cons.prems(1), of c] Cons.prems(3) by auto
  have "\<forall>p \<in> set (concat (map op_block cs)). fresh s1 p" using fr Cons.prems(2,3) by auto
  with Cons.IH [OF s1(2)] Cons.prems(2) s1(1) show ?case
    by (auto simp: Let_def split: prod.splits)
qed simp

lemma put_then_del:
  assumes "rel s es" "fresh s p" "eq k (k, v)"
  shows "\<exists>s' s''. put s k v p = Some (s', 0) \<and> get s' k = Some v \<and> del s' k = Some (s'', v)
    \<and> (\<forall>k'. get s'' k' = get s k')"
proof -
  obtain s' where s': "put s k v p = Some (s', 0)" "rel s' ((k, v) # es)"
    using put_law [OF assms(1,2)] by blast
  obtain s'' where "del s' k = Some (s'', v)" "rel s'' es"
    using del_law [OF s'(2), of k] assms(3) by auto
  then show ?thesis using s' get_law assms by fastforce
qed

end

text \<open>The states that share one table.\<close>

interpretation tab: shadowing_store
  "\<lambda>st es. table st h es \<and> compatible h" unused "\<lambda>st. hash_put st h" "\<lambda>st. hash_get st h" "\<lambda>st. hash_del st h"
  "matches h" for h
proof unfold_locales
  show "\<exists>s'. hash_put s h k v p = Some (s', 0) \<and> (table s' h ((k, v) # es) \<and> compatible h)
      \<and> (\<forall>q. unused s q \<and> q \<noteq> p \<longrightarrow> unused s' q)"
    if "table s h es \<and> compatible h" "unused s p" for s es p k v
    using hash_put_spec that by blast
  show "hash_get s h k = Some (case List.find (matches h k) es of None \<Rightarrow> NULL | Some e \<Rightarrow> snd e)"
    if "table s h es \<and> compatible h" for s es k
    using hash_get_spec that by (simp add: assoc_get_def)
  show "\<exists>s'. hash_del s h k = Some (s', case List.find (matches h k) es of None \<Rightarrow> NULL | Some e \<Rightarrow> snd e)
      \<and> (table s' h (drop_first (matches h k) es) \<and> compatible h) \<and> (\<forall>q. unused s q \<longrightarrow> unused s' q)"
    if "table s h es \<and> compatible h" for s es k
    using hash_del_spec [of s h es k] that by (auto simp: assoc_get_def)
qed

section \<open>Properties\<close>

text \<open>A table whose keys are compared as numbers and hashed by their low bits.\<close>

definition demo_eq :: "addr \<Rightarrow> addr \<Rightarrow> int" where
  "demo_eq a b = (if a = b then 1 else 0)"

definition demo_hash :: "addr \<Rightarrow> u32" where
  "demo_hash k = of_nat k"

definition no_mem :: hash_mem where
  "no_mem = \<lparr>items = Map.empty, links = Map.empty\<rparr>"

lemma below_array: "q < p \<Longrightarrow> q \<notin> array_item p ` A"
  by (auto simp: array_item_def)

text \<open>
  C4: a table created by \<^verbatim>\<open>hash_create\<close> and then driven by any sequence of \<^verbatim>\<open>hash_put\<close>, \<^verbatim>\<open>hash_get\<close> and
  \<^verbatim>\<open>hash_del\<close> calls, with a comparison that is compatible with the hash and allocations that return unused
  memory, never touches memory that is not its own, its loops end, and every answer is that of an
  association list in which the newest entry of a key hides the older ones.
\<close>

theorem hash_history_refines:
  assumes "p \<noteq> NULL" and "\<And>a b. func a b \<noteq> 0 \<Longrightarrow> key_func a = key_func b"
    and "distinct (concat (map op_block cs))"
    and "\<And>q. q \<in> set (concat (map op_block cs)) \<Longrightarrow> unused st q \<and> q \<notin> array_item p ` {..<1024}"
  shows "\<exists>st1 h st2. hash_create st func key_func n p = Some (st1, h)
    \<and> hash_run h cs st1 = Some (st2, snd (assoc_run (\<lambda>k e. func (fst e) k \<noteq> 0) cs []))"
proof -
  obtain st1 h where create: "hash_create st func key_func n p = Some (st1, h)" "table st1 h []"
    and h: "h = \<lparr>base = p, compare_func = func, k_hash = key_func, bucket = clamp_buckets n\<rparr>"
    and fr: "\<forall>q. unused st q \<and> q \<notin> array_item p ` {..<unat (clamp_buckets n)} \<longrightarrow> unused st1 q"
    using hash_create_spec [OF assms(1)] by metis
  have "unused st1 q" if q: "q \<in> set (concat (map op_block cs))" for q
  proof -
    have "q \<notin> array_item p ` {..<unat (clamp_buckets n)}"
      using assms(4) [OF q] clamp_bounds [of n] by force
    with fr assms(4) [OF q] show ?thesis by metis
  qed
  then have "\<forall>q \<in> set (concat (map op_block cs)). unused st1 q" by metis
  moreover have "compatible h" using assms(2) unfolding compatible_def h by simp
  ultimately obtain st2 where "hash_run h cs st1 = Some (st2, snd (assoc_run (matches h) cs []))"
    using tab.calls_refine [OF conjI [OF create(2)] assms(3)] unfolding hash_run_def by metis
  moreover have "matches h = (\<lambda>k e. func (fst e) k \<noteq> 0)" by (simp add: matches_def fun_eq_iff h)
  ultimately show ?thesis using create(1) by metis
qed

theorem hash_history_refines_witness:
  "\<exists>st1 h st2. hash_create no_mem demo_eq demo_hash 20 1000 = Some (st1, h)
    \<and> hash_run h [Put 5 50 7, Put 21 60 8, Put 5 70 9, Get 5, Del 5, Get 5, Get 6] st1
        = Some (st2, [70, 70, 50, NULL])"
proof -
  let ?cs = "[Put 5 50 7, Put 21 60 8, Put 5 70 9, Get 5, Del 5, Get 5, Get 6]"
  have "\<exists>st1 h st2. hash_create no_mem demo_eq demo_hash 20 1000 = Some (st1, h)
    \<and> hash_run h ?cs st1 = Some (st2, snd (assoc_run (\<lambda>k e. demo_eq (fst e) k \<noteq> 0) ?cs []))"
  proof (rule hash_history_refines)
    fix q assume "q \<in> set (concat (map op_block ?cs))"
    then have q: "q < 1000" "q \<noteq> NULL" by auto
    show "unused no_mem q \<and> q \<notin> array_item 1000 ` {..<1024}"
      using q(2) below_array [OF q(1)] unfolding unused_def no_mem_def hash_mem.simps by blast
  qed (simp_all add: demo_eq_def split: if_splits)
  moreover have "snd (assoc_run (\<lambda>k e. demo_eq (fst e) k \<noteq> 0) ?cs []) = [70, 70, 50, NULL]"
    by (simp add: demo_eq_def)
  ultimately show ?thesis by (simp only:)
qed

text \<open>
  On any well-formed table, an entry that is put is found; deleting its key answers its value and brings
  back, for every key, what the table answered before the put, also when the key had an older entry.
\<close>

theorem hash_put_del_restores:
  assumes "table st h es" and "compatible h" and "unused st p" and "compare_func h k k \<noteq> 0"
  shows "\<exists>st' st''. hash_put st h k v p = Some (st', 0) \<and> hash_get st' h k = Some v
    \<and> hash_del st' h k = Some (st'', v) \<and> (\<forall>k'. hash_get st'' h k' = hash_get st h k')"
  using tab.put_then_del [of st h es p k v] assms by (simp add: matches_def)

theorem hash_put_del_restores_witness:
  "\<exists>st h st' st''. hash_create no_mem demo_eq demo_hash (- 1) 1000 = Some (st, h)
    \<and> hash_put st h 5 50 7 = Some (st', 0) \<and> hash_get st' h 5 = Some 50 \<and> hash_del st' h 5 = Some (st'', 50)
    \<and> (\<forall>k'. hash_get st'' h k' = hash_get st h k')"
proof -
  obtain st h where create: "hash_create no_mem demo_eq demo_hash (- 1) 1000 = Some (st, h)" "table st h []"
    and h: "h = \<lparr>base = 1000, compare_func = demo_eq, k_hash = demo_hash, bucket = clamp_buckets (- 1)\<rparr>"
    and fr: "\<forall>q. unused no_mem q \<and> q \<notin> array_item 1000 ` {..<unat (clamp_buckets (- 1))} \<longrightarrow> unused st q"
    using hash_create_spec [of 1000 no_mem demo_eq demo_hash "- 1"] by auto
  have "unused st 7" using fr [rule_format, of 7] below_array [of 7 1000] by (simp add: unused_def no_mem_def)
  moreover have "compatible h" "compare_func h 5 5 \<noteq> 0"
    by (auto simp: compatible_def h demo_eq_def split: if_splits)
  ultimately show ?thesis using hash_put_del_restores [OF create(2), of 7 5 50] create(1) by blast
qed

text \<open>
  The index is the hash masked with the bucket count less one, which is not a power of two in general: a
  table created with 17 buckets only ever uses two of them.
\<close>

lemma hash_17_buckets_use_two:
  assumes "bucket h = clamp_buckets 17"
  shows "bucket_index h k \<in> {0, 16}"
proof -
  have "bucket h - 1 = push_bit 4 1"
    using assms by (simp add: clamp_buckets_def HASH_MIN_ITEM_SIZE_def HASH_MAX_ITEM_SIZE_def Let_def)
  moreover have "w AND push_bit 4 1 = (if bit w 4 then 16 else 0)" for w :: u32
  proof -
    have "w AND push_bit 4 1 = (if bit w 4 then push_bit 4 1 :: u32 else 0)"
    proof (rule bit_word_eqI)
      fix n assume "n < LENGTH(32)"
      moreover have "4 \<le> n \<and> n - 4 = 0 \<longleftrightarrow> n = 4" by auto
      ultimately show "bit (w AND push_bit 4 (1 :: u32)) n = bit (if bit w 4 then push_bit 4 1 :: u32 else 0) n"
        by (auto simp only: bit_and_iff bit_push_bit_iff bit_1_iff bit_0_eq bot_apply bot_bool_def split: if_splits)
    qed
    then show ?thesis by simp
  qed
  ultimately show ?thesis by (simp add: bucket_index_def)
qed

text \<open>
  For every \<^verbatim>\<open>int\<close> bucket count, the table has between 16 and 1024 buckets, the count itself where it is
  in that range, and 1024 for a negative count; the index of a key is always inside the array, but a count that is
  not a power of two leaves buckets unused: with 17 buckets only two are ever taken.
\<close>

theorem hash_create_bounds:
  assumes "- (2 ^ 31) \<le> n" "n < 2 ^ 31" and "hash_create st func key_func n p = Some (st', h)"
  shows "unat (bucket h) = (if n < 0 then 1024 else if n < 16 then 16 else if 1024 < n then 1024 else nat n)
    \<and> bucket_index h k < unat (bucket h) \<and> (n = 17 \<longrightarrow> bucket_index h k \<in> {0, 16})"
proof -
  have b: "bucket h = clamp_buckets n"
    using assms(3) by (auto simp: hash_create_def Let_def bind_eq_Some_conv split: if_splits)
  have u: "unat (word_of_int n :: u32) = nat (if n < 0 then n + 2 ^ 32 else n)"
    using assms(1,2) mod_pos_pos_trivial [of n "2 ^ 32"] mod_pos_pos_trivial [of "n + 2 ^ 32" "2 ^ 32"]
    by (simp add: unat_eq_nat_uint uint_word_of_int)
  have "unat (clamp_buckets n) =
      (if n < 0 then 1024 else if n < 16 then 16 else if 1024 < n then 1024 else nat n)"
    using u assms(1,2)
    by (auto simp: clamp_buckets_def HASH_MIN_ITEM_SIZE_def HASH_MAX_ITEM_SIZE_def Let_def
        word_less_nat_alt split: if_splits)
  moreover have "bucket h \<noteq> 0" using clamp_bounds [of n] b by (auto simp: unat_eq_0 [symmetric])
  then have "bucket_index h k < unat (bucket h)" by (rule bucket_index_bound)
  moreover have "bucket_index h k \<in> {0, 16}" if "n = 17" using hash_17_buckets_use_two b that by blast
  ultimately show ?thesis using b by metis
qed

theorem hash_create_bounds_witness:
  "\<exists>st' h. hash_create no_mem demo_eq demo_hash (- 1) 1000 = Some (st', h)
    \<and> unat (bucket h) = 1024 \<and> bucket_index h 5000 < 1024"
proof -
  obtain st' h where h: "hash_create no_mem demo_eq demo_hash (- 1) 1000 = Some (st', h)"
    using hash_create_spec [of 1000 no_mem demo_eq demo_hash "- 1"] by auto
  with hash_create_bounds [OF _ _ h, of 5000] show ?thesis by auto
qed


end
