(* ===== verification/Ez_String.thy ===== *)
theory Ez_String
  imports Ez_Prelude
begin

text \<open>
  \<^verbatim>\<open>src/ez_string.c\<close>: the bounded copy, the formatted print and the UTF-8 coder. A buffer is the list of
  its cells; an access past its end is undefined (\<open>None\<close>). \<^verbatim>\<open>wchar_t\<close> is a signed 32-bit integer, as on
  Linux. \<^verbatim>\<open>vsnprintf\<close> belongs to the C library: its return value is an argument.
\<close>

unbundle bit_operations_syntax

type_synonym wchar = u32

section \<open>Buffers\<close>

definition at :: "'a list \<Rightarrow> nat \<Rightarrow> 'a option" where
  "at buf i = (if i < length buf then Some (buf ! i) else None)"

definition put_at :: "'a list \<Rightarrow> nat \<Rightarrow> 'a \<Rightarrow> 'a list option" where
  "put_at buf i x = (if i < length buf then Some (buf[i := x]) else None)"

lemma put_at_append: "put_at (out @ buf) (length out) x =
    (case buf of [] \<Rightarrow> None | y # ys \<Rightarrow> Some ((out @ [x]) @ ys))"
  by (auto simp: put_at_def split: list.splits)

section \<open>Copy and print\<close>

text \<open>The loop has \<open>k\<close> rounds left, the last cell is for the terminating zero.\<close>

primrec ez_strncpy_loop :: "nat \<Rightarrow> u8 list \<Rightarrow> u8 list \<Rightarrow> nat \<Rightarrow> nat \<Rightarrow> (u8 list \<times> nat) option" where
  "ez_strncpy_loop 0 dst src d s = do { dst \<leftarrow> put_at dst d 0; Some (dst, d) }"
| "ez_strncpy_loop (Suc k) dst src d s = do {
     x \<leftarrow> at src s;
     dst \<leftarrow> put_at dst d x;
     (if x = 0 then Some (dst, d) else ez_strncpy_loop k dst src (d + 1) (s + 1))
   }"

text \<open>The result is the buffer and the offset of the returned pointer.\<close>

definition ez_strncpy :: "u8 list \<Rightarrow> u8 list \<Rightarrow> nat \<Rightarrow> (u8 list \<times> nat) option" where
  "ez_strncpy dst src n = (if n = 0 then Some (dst, 0) else ez_strncpy_loop (n - 1) dst src 0 0)"

definition ez_vsnprintf :: "u64 \<Rightarrow> int \<Rightarrow> int" where
  "ez_vsnprintf sz i =
     (if i \<le> 0 then 0
      else if word_of_int i < sz then i
      else sint (ucast (sz - 1) :: u32))"

definition ez_snprintf :: "u64 \<Rightarrow> int \<Rightarrow> int" where
  "ez_snprintf sz i = ez_vsnprintf sz i"

section \<open>UTF-8\<close>

primrec put_all :: "'a list \<Rightarrow> nat \<Rightarrow> 'a list \<Rightarrow> ('a list \<times> nat) option" where
  "put_all dst c [] = Some (dst, c)"
| "put_all dst c (x # xs) = do { dst \<leftarrow> put_at dst c x; put_all dst (c + 1) xs }"

text \<open>The bytes that one round of \<^verbatim>\<open>ez_utf8_encode\<close> writes, and how far it moves the index.\<close>

definition encode_round :: "wchar \<Rightarrow> u8 list \<times> nat" where
  "encode_round x =
     (if x <=s 0x7f then ([ucast x], 1)
      else if 0x80 <=s x \<and> x <=s 0x07FF then
        ([ucast (0xC0 OR (signed_drop_bit 6 x AND 0x1F)), ucast (0x80 OR (x AND 0x3F))], 0)
      else if 0x800 <=s x \<and> x <=s 0xFFFF then
        ([ucast (0xE0 OR (signed_drop_bit 12 x AND 0xF)), ucast (0x80 OR (signed_drop_bit 6 x AND 0x3F)),
          ucast (0x80 OR (x AND 0x3F))], 0)
      else if 0x10000 <=s x \<and> x <=s 0x10FFFF then
        ([ucast (0xF0 OR (signed_drop_bit 18 x AND 0x7)), ucast (0x80 OR (signed_drop_bit 12 x AND 0x3F)),
          ucast (0x80 OR (signed_drop_bit 6 x AND 0x3F)), ucast (0x80 OR (x AND 0x3F))], 0)
      else ([], 0))"

function encode_loop :: "wchar list \<Rightarrow> nat \<Rightarrow> nat \<Rightarrow> u8 list \<Rightarrow> nat \<Rightarrow> (u8 list \<times> nat) option" where
  "encode_loop src n i dst c =
     (if i < n then do {
        x \<leftarrow> at src i;
        (dst, c) \<leftarrow> put_all dst c (fst (encode_round x));
        encode_loop src n (i + snd (encode_round x) + 1) dst c
      }
      else Some (dst, c))"
  by pat_completeness auto
termination by (relation "measure (\<lambda>(src, n, i, dst, c). n - i)") auto

declare encode_loop.simps [simp del]

definition ez_utf8_encode :: "u8 list \<Rightarrow> wchar list \<Rightarrow> nat \<Rightarrow> (u8 list \<times> nat) option" where
  "ez_utf8_encode dst src n = encode_loop src n 0 dst 0"

definition left_bits :: "u8 \<Rightarrow> u32" where
  "left_bits x =
     (if x AND 0xE0 = 0xC0 then 2
      else if x AND 0xF0 = 0xE0 then 3
      else if x AND 0xF8 = 0xF0 then 4
      else 0)"

function decode_loop :: "u8 list \<Rightarrow> nat \<Rightarrow> nat \<Rightarrow> wchar list \<Rightarrow> nat \<Rightarrow> (wchar list \<times> nat) option" where
  "decode_loop src n i dst c =
     (if i < n then do {
        b0 \<leftarrow> at src i;
        (if b0 \<le> 0x7f then do {
           dst \<leftarrow> put_at dst c (ucast b0);
           decode_loop src n (i + 1) dst (c + 1)
         }
         else if left_bits b0 = 2 then do {
           dst \<leftarrow> put_at dst c (ucast (b0 AND 0x1F));
           b1 \<leftarrow> at src (i + 1);
           dst \<leftarrow> put_at dst c (push_bit 5 (dst ! c) OR ucast (b1 AND 0x3F));
           decode_loop src n (i + 2) dst (c + 1)
         }
         else if left_bits b0 = 3 then do {
           dst \<leftarrow> put_at dst c (ucast (b0 AND 0xF));
           b1 \<leftarrow> at src (i + 1);
           dst \<leftarrow> put_at dst c (push_bit 6 (dst ! c) OR ucast (b1 AND 0x3F));
           b2 \<leftarrow> at src (i + 2);
           dst \<leftarrow> put_at dst c (push_bit 6 (dst ! c) OR ucast (b2 AND 0x3F));
           decode_loop src n (i + 3) dst (c + 1)
         }
         else if left_bits b0 = 4 then do {
           dst \<leftarrow> put_at dst c (ucast (b0 AND 0x7));
           b1 \<leftarrow> at src (i + 1);
           dst \<leftarrow> put_at dst c (push_bit 6 (dst ! c) OR ucast (b1 AND 0x3F));
           b2 \<leftarrow> at src (i + 2);
           dst \<leftarrow> put_at dst c (push_bit 6 (dst ! c) OR ucast (b2 AND 0x3F));
           b3 \<leftarrow> at src (i + 3);
           dst \<leftarrow> put_at dst c (push_bit 6 (dst ! c) OR ucast (b3 AND 0x3F));
           decode_loop src n (i + 4) dst (c + 1)
         }
         else decode_loop src n (i + 1) dst c)
      }
      else Some (dst, c))"
  by pat_completeness auto
termination by (relation "measure (\<lambda>(src, n, i, dst, c). n - i)") auto

declare decode_loop.simps [simp del]

definition ez_utf8_decode :: "wchar list \<Rightarrow> u8 list \<Rightarrow> nat \<Rightarrow> (wchar list \<times> nat) option" where
  "ez_utf8_decode dst src n = decode_loop src n 0 dst 0"

section \<open>The reference: UTF-8 by arithmetic on code points\<close>

definition utf8 :: "nat \<Rightarrow> nat list" where
  "utf8 x =
     (if x < 0x80 then [x]
      else if x < 0x800 then [192 + x div 64, 128 + x mod 64]
      else if x < 0x10000 then [224 + x div 4096, 128 + x div 64 mod 64, 128 + x mod 64]
      else [240 + x div 262144, 128 + x div 4096 mod 64, 128 + x div 64 mod 64, 128 + x mod 64])"

definition utf8_bytes :: "wchar \<Rightarrow> u8 list" where
  "utf8_bytes x = map of_nat (utf8 (unat x))"

text \<open>What is left of a text when the character after an ASCII character is skipped.\<close>

fun survivors :: "wchar list \<Rightarrow> wchar list" where
  "survivors [] = []"
| "survivors (x # xs) = (if x \<le> 0x7f then x # (case xs of [] \<Rightarrow> [] | y # ys \<Rightarrow> survivors ys) else x # survivors xs)"

section \<open>Copy\<close>

lemma strncpy_loop_spec:
  assumes "0 \<notin> set str" "min k (length str) < length buf"
  shows "ez_strncpy_loop k (out @ buf) (pre @ str @ 0 # junk) (length out) (length pre) =
    Some (out @ take k str @ 0 # drop (Suc (min k (length str))) buf, length out + min k (length str))"
  using assms
proof (induction k arbitrary: out buf pre str)
  case 0
  then show ?case by (cases buf) (simp_all add: put_at_append)
next
  case (Suc k)
  obtain y ys where buf: "buf = y # ys" using Suc.prems(2) by (cases buf) auto
  show ?case
  proof (cases str)
    case Nil
    then show ?thesis by (simp add: at_def put_at_append buf)
  next
    case (Cons x xs)
    then have "min k (length xs) < length ys" using Suc.prems(2) buf by simp
    with Suc.IH [of xs ys "out @ [x]" "pre @ [x]"] Suc.prems(1) Cons show ?thesis
      by (simp add: at_def put_at_append buf nth_append)
  qed
qed

section \<open>Encoding\<close>

lemma put_all_append:
  "length xs \<le> length buf \<Longrightarrow>
    put_all (out @ buf) (length out) xs = Some (out @ xs @ drop (length xs) buf, length out + length xs)"
proof (induction xs arbitrary: out buf)
  case (Cons x xs)
  then obtain y ys where "buf = y # ys" by (cases buf) auto
  with Cons.prems Cons.IH [of ys "out @ [x]"] show ?case by (simp add: put_at_append)
qed simp

lemma high_bits:
  fixes w :: "'w::len word"
  assumes "unat w < 2 ^ n" "n \<le> m"
  shows "\<not> bit w m"
proof
  assume "bit w m"
  then have "bit (unat w) m" by (simp add: bit_unsigned_iff bit_imp_possible_bit)
  moreover have "unat w < 2 ^ m" using assms by (meson less_le_trans one_le_numeral power_increasing)
  ultimately show False by (simp add: bit_iff_odd)
qed

lemma small_bits: "x \<le> 0x10FFFF \<Longrightarrow> 21 \<le> n \<Longrightarrow> \<not> bit (x :: u32) n"
  by (rule high_bits [of _ 21]) (simp_all add: word_le_nat_alt)

lemma small_sle:
  fixes x :: u32
  assumes "x \<le> 0x10FFFF" "k \<le> 0x10FFFF"
  shows "x <=s k \<longleftrightarrow> x \<le> k" "k <=s x \<longleftrightarrow> k \<le> x"
proof -
  have *: "sint w = int (unat w)" if "w \<le> 0x10FFFF" for w :: u32
    by (rule sint_unat) (use that in \<open>simp add: word_le_nat_alt\<close>)
  show "x <=s k \<longleftrightarrow> x \<le> k" "k <=s x \<longleftrightarrow> k \<le> x"
    unfolding word_sle_eq * [OF assms(1)] * [OF assms(2)] by (simp_all only: of_nat_le_iff word_le_nat_alt)
qed

lemma small_shift:
  assumes "x \<le> 0x10FFFF"
  shows "signed_drop_bit m x = drop_bit m (x :: u32)"
  using small_bits [OF assms] bit_imp_le_length [of x]
  by (intro bit_word_eqI) (force simp: bit_signed_drop_bit_iff bit_drop_bit_eq)

text \<open>A byte of a code: fixed high bits, \<open>k\<close> payload bits.\<close>

lemma code_byte:
  fixes w :: u32
  assumes "take_bit k c = 0" "unat c + 2 ^ k \<le> 256"
  shows "(ucast (c OR (w AND mask k)) :: u8) = of_nat (unat c + unat w mod 2 ^ k)"
proof -
  have sum: "c OR take_bit k w = c + take_bit k w"
  proof (rule disjunctive_add [symmetric])
    show "\<not> bit c n \<or> \<not> bit (take_bit k w) n" for n
      using assms(1) by (metis bit_take_bit_iff bit_0_eq bot_apply bot_bool_def)
  qed
  have t: "unat (take_bit k w) = unat w mod 2 ^ k"
    unfolding unsigned_take_bit_eq by (rule take_bit_eq_mod)
  have "unat c + unat w mod 2 ^ k < unat c + 2 ^ k" by simp
  then have "unat c + unat w mod 2 ^ k < 256" using assms(2) by linarith
  then have "unat (c + take_bit k w) = unat c + unat w mod 2 ^ k"
    by (subst unat_word_ariths) (simp add: t)
  then have "(ucast (c + take_bit k w) :: u8) = of_nat (unat c + unat w mod 2 ^ k)"
    by (metis of_nat_unat)
  then show ?thesis by (simp only: take_bit_eq_mask [symmetric] sum)
qed

lemma payload_masks: "(0x3F :: u32) = mask 6" "(0x1F :: u32) = mask 5" "(0xF :: u32) = mask 4" "(0x7 :: u32) = mask 3"
  by (simp_all add: mask_eq_exp_minus_1)

lemma unat_shift: "unat (drop_bit n w :: u32) = unat w div 2 ^ n"
  unfolding unsigned_drop_bit_eq
  by (simp only: take_bit_nat_eq_self [OF unsigned_less] drop_bit_eq_div [where a = "unat w"])

lemma encode_bytes:
  fixes x :: u32
  shows "(ucast (0x80 OR (x AND 0x3F)) :: u8) = of_nat (128 + unat x mod 64)"
    and "(ucast (0x80 OR (drop_bit 6 x AND 0x3F)) :: u8) = of_nat (128 + unat x div 64 mod 64)"
    and "(ucast (0x80 OR (drop_bit 12 x AND 0x3F)) :: u8) = of_nat (128 + unat x div 4096 mod 64)"
    and "(ucast (0xC0 OR (drop_bit 6 x AND 0x1F)) :: u8) = of_nat (192 + unat x div 64 mod 32)"
    and "(ucast (0xE0 OR (drop_bit 12 x AND 0xF)) :: u8) = of_nat (224 + unat x div 4096 mod 16)"
    and "(ucast (0xF0 OR (drop_bit 18 x AND 0x7)) :: u8) = of_nat (240 + unat x div 262144 mod 8)"
  unfolding payload_masks
  by (subst code_byte; simp add: unat_shift del: of_nat_add)+

lemma encode_round_utf8:
  assumes "x \<le> 0x10FFFF"
  shows "encode_round x = (utf8_bytes x, if x \<le> 0x7f then 1 else 0)"
proof -
  have small: "unat x < 1114112" using assms by (simp add: word_le_nat_alt)
  consider "unat x < 0x80" | "0x80 \<le> unat x" "unat x < 0x800" | "0x800 \<le> unat x" "unat x < 0x10000"
    | "0x10000 \<le> unat x" by linarith
  then show ?thesis
  proof cases
    case 1
    then show ?thesis
      by (simp add: encode_round_def small_sle assms word_le_nat_alt utf8_bytes_def utf8_def)
  next
    case 2
    then show ?thesis
      by (simp add: encode_round_def small_sle small_shift assms word_le_nat_alt encode_bytes utf8_bytes_def
          utf8_def unat_shift del: of_nat_add)
  next
    case 3
    then show ?thesis
      by (simp add: encode_round_def small_sle small_shift assms word_le_nat_alt encode_bytes utf8_bytes_def
          utf8_def unat_shift del: of_nat_add)
  next
    case 4
    then show ?thesis using small
      by (simp add: encode_round_def small_sle small_shift assms word_le_nat_alt encode_bytes utf8_bytes_def
          utf8_def unat_shift del: of_nat_add)
  qed
qed

lemma survivors_head: "survivors (x # xs) = x # survivors (drop (if x \<le> 0x7f then 1 else 0) xs)"
  by (cases xs) auto

lemma encode_loop_spec:
  assumes "n \<le> length src" "\<forall>x \<in> set src. x \<le> 0x10FFFF" "i \<le> n"
    and "length (concat (map utf8_bytes (survivors (drop i (take n src))))) \<le> length buf"
  shows "encode_loop src n i (out @ buf) (length out) =
    (let bs = concat (map utf8_bytes (survivors (drop i (take n src))))
     in Some (out @ bs @ drop (length bs) buf, length out + length bs))"
  using assms
proof (induction "n - i" arbitrary: i out buf rule: less_induct)
  case less
  show ?case
  proof (cases "i < n")
    case False
    then show ?thesis using less.prems by (subst encode_loop.simps) simp
  next
    case True
    let ?x = "src ! i" and ?k = "if src ! i \<le> 0x7f then 1 else 0 :: nat"
    have x: "?x \<le> 0x10FFFF" using less.prems(1,2) True by simp
    have rest: "survivors (drop i (take n src)) = ?x # survivors (drop (i + ?k + 1) (take n src))"
      using True less.prems(1) by (subst Cons_nth_drop_Suc [symmetric]) (simp_all add: survivors_head add.commute del: survivors.simps)
    have end_of: "drop (i + ?k + 1) (take n src) = drop (min n (i + ?k + 1)) (take n src)"
      by (simp add: min_def)
    let ?bs = "concat (map utf8_bytes (survivors (drop (i + ?k + 1) (take n src))))"
    have fits: "length (utf8_bytes ?x) \<le> length buf" "length ?bs \<le> length (drop (length (utf8_bytes ?x)) buf)"
      using less.prems(4) unfolding rest by simp_all
    have step: "encode_loop src n i (out @ buf) (length out) =
        encode_loop src n (i + ?k + 1) ((out @ utf8_bytes ?x) @ drop (length (utf8_bytes ?x)) buf)
          (length (out @ utf8_bytes ?x))"
      using True less.prems(1) x
      by (subst encode_loop.simps) (simp add: at_def encode_round_utf8 put_all_append fits(1))
    show ?thesis
    proof (cases "i + ?k + 1 \<le> n")
      case le: True
      show ?thesis
        unfolding step rest
        using less.hyps [of "i + ?k + 1" "drop (length (utf8_bytes ?x)) buf" "out @ utf8_bytes ?x"]
          True le less.prems(1,2) fits(2)
        by (simp add: Let_def add.commute add.left_commute)
    next
      case False
      then have "drop (i + ?k + 1) (take n src) = []" by simp
      then show ?thesis unfolding step rest using False by (subst encode_loop.simps) (simp add: Let_def)
    qed
  qed
qed

section \<open>Decoding\<close>

text \<open>
  One round of the decoder on the bytes of a code of three or four bytes: the payload comes back. On a code
  of two bytes the first byte is shifted by five places, not six.
\<close>

lemma at_append: "at (us @ b # c # d # vs) (Suc (Suc (length us))) = Some d"
  "at (us @ b # c # d # e # vs) (Suc (Suc (Suc (length us)))) = Some e" "at (us @ b # vs) (length us) = Some b" "at (us @ b # c # vs) (Suc (length us)) = Some c"
  "at (us @ b # c # d # vs) (length us + 2) = Some d" "at (us @ b # c # d # e # vs) (length us + 3) = Some e"
  by (simp_all add: at_def nth_append)

lemma put_at_same: "put_at (out @ y # ys) (length out) x = Some (out @ x # ys)"
  by (simp add: put_at_append)

lemma payload:
  fixes w :: u32
  assumes "take_bit k c = 0" "k \<le> 8"
  shows "ucast ((ucast (c OR (w AND mask k)) :: u8) AND mask k) = w AND mask k"
proof (rule bit_word_eqI)
  fix n
  have "\<not> bit c n" if "n < k" using assms(1) that by (metis bit_take_bit_iff bit_0_eq bot_apply bot_bool_def)
  then show "bit (ucast ((ucast (c OR (w AND mask k)) :: u8) AND mask k) :: u32) n = bit (w AND mask k) n"
    using assms(2) bit_imp_le_length [of w n] by (auto simp: bit_simps)
qed

lemma high_part:
  fixes w :: u32
  assumes "take_bit k m = 0"
  shows "(ucast (c OR (w AND mask k)) :: u8) AND m = ucast c AND m"
proof (rule bit_word_eqI)
  fix n
  have "\<not> bit m n" if "n < k" using assms that by (metis bit_take_bit_iff bit_0_eq bot_apply bot_bool_def)
  then show "bit ((ucast (c OR (w AND mask k)) :: u8) AND m) n = bit (ucast c AND m) n"
    by (auto simp: bit_simps)
qed

lemma payloads:
  fixes w :: u32
  shows "ucast ((ucast (0x80 OR (w AND 0x3F)) :: u8) AND 0x3F) = w AND 0x3F"
    "ucast ((ucast (0xC0 OR (w AND 0x1F)) :: u8) AND 0x1F) = w AND 0x1F"
    "ucast ((ucast (0xE0 OR (w AND 0xF)) :: u8) AND 0xF) = w AND 0xF"
    "ucast ((ucast (0xF0 OR (w AND 0x7)) :: u8) AND 0x7) = w AND 0x7"
  using payload [of 6 "0x80" w] payload [of 5 "0xC0" w] payload [of 4 "0xE0" w] payload [of 3 "0xF0" w]
  by (simp_all add: mask_eq_exp_minus_1)

lemma lead_bytes:
  fixes w :: u32
  shows "left_bits (ucast (0xC0 OR (w AND 0x1F))) = 2" "left_bits (ucast (0xE0 OR (w AND 0xF))) = 3"
    "left_bits (ucast (0xF0 OR (w AND 0x7))) = 4"
  using high_part [of 5 "0xE0" "0xC0" w]
    high_part [of 4 "0xE0" "0xE0" w] high_part [of 4 "0xF0" "0xE0" w]
    high_part [of 3 "0xE0" "0xF0" w] high_part [of 3 "0xF0" "0xF0" w] high_part [of 3 "0xF8" "0xF0" w]
  by (simp_all add: mask_eq_exp_minus_1 left_bits_def)

lemma lead_not_ascii:
  fixes w :: u32
  assumes "bit c 7"
  shows "\<not> (ucast (c OR w) :: u8) \<le> 0x7f"
proof
  assume "(ucast (c OR w) :: u8) \<le> 0x7f"
  then have "\<not> bit (ucast (c OR w) :: u8) 7" by (intro high_bits [of _ 7]) (simp_all add: word_le_nat_alt)
  then show False using assms by (simp add: bit_simps)
qed

lemma join_3:
  fixes x :: u32
  assumes "unat x < 0x10000"
  shows "push_bit 6 (push_bit 6 (drop_bit 12 x AND 0xF) OR (drop_bit 6 x AND 0x3F)) OR (x AND 0x3F) = x"
proof (rule bit_word_eqI)
  fix n
  have "\<not> bit x m" if "16 \<le> m" for m using high_bits [of x 16 m] assms that by simp
  then show "bit (push_bit 6 (push_bit 6 (drop_bit 12 x AND 0xF) OR (drop_bit 6 x AND 0x3F)) OR (x AND 0x3F)) n
      = bit x n"
    unfolding payload_masks using bit_imp_le_length [of x n]
    by (cases "n < 6"; cases "n < 12"; cases "n < 16") (auto simp: bit_simps)
qed

lemma join_4:
  fixes x :: u32
  assumes "x \<le> 0x10FFFF"
  shows "push_bit 6 (push_bit 6 (push_bit 6 (drop_bit 18 x AND 0x7) OR (drop_bit 12 x AND 0x3F))
      OR (drop_bit 6 x AND 0x3F)) OR (x AND 0x3F) = x"
proof (rule bit_word_eqI)
  fix n
  show "bit (push_bit 6 (push_bit 6 (push_bit 6 (drop_bit 18 x AND 0x7) OR (drop_bit 12 x AND 0x3F))
      OR (drop_bit 6 x AND 0x3F)) OR (x AND 0x3F)) n = bit x n"
    unfolding payload_masks using bit_imp_le_length [of x n] small_bits [OF assms, of n]
    by (cases "n < 6"; cases "n < 12"; cases "n < 18"; cases "n < 21") (auto simp: bit_simps)
qed

lemma utf8_bytes_2: "0x80 \<le> unat x \<Longrightarrow> unat x < 0x800 \<Longrightarrow> utf8_bytes x =
    [ucast (0xC0 OR (drop_bit 6 x AND 0x1F)), ucast (0x80 OR (x AND 0x3F))]"
  by (simp add: encode_bytes utf8_bytes_def utf8_def unat_shift del: of_nat_add)

lemma utf8_bytes_3: "0x800 \<le> unat x \<Longrightarrow> unat x < 0x10000 \<Longrightarrow> utf8_bytes x =
    [ucast (0xE0 OR (drop_bit 12 x AND 0xF)), ucast (0x80 OR (drop_bit 6 x AND 0x3F)), ucast (0x80 OR (x AND 0x3F))]"
  by (simp add: encode_bytes utf8_bytes_def utf8_def unat_shift del: of_nat_add)

lemma utf8_bytes_4: "0x10000 \<le> unat x \<Longrightarrow> unat x < 0x110000 \<Longrightarrow> utf8_bytes x =
    [ucast (0xF0 OR (drop_bit 18 x AND 0x7)), ucast (0x80 OR (drop_bit 12 x AND 0x3F)),
     ucast (0x80 OR (drop_bit 6 x AND 0x3F)), ucast (0x80 OR (x AND 0x3F))]"
  by (simp add: encode_bytes utf8_bytes_def utf8_def unat_shift del: of_nat_add)

text \<open>What the decoder makes of the code of \<open>x\<close>.\<close>

definition decoded :: "wchar \<Rightarrow> wchar" where
  "decoded x = (if unat x < 0x800 then push_bit 5 (drop_bit 6 x AND 0x1F) OR (x AND 0x3F) else x)"

lemma plus_Suc: "n + 3 = Suc (Suc (Suc n))" "n + 4 = Suc (Suc (Suc (Suc n)))"
  by simp_all

lemma decode_step:
  assumes "x \<le> 0x10FFFF" "0x80 \<le> x" "length us < n"
  shows "decode_loop (us @ utf8_bytes x @ vs) n (length us) (out @ y # ys) (length out) =
    decode_loop (us @ utf8_bytes x @ vs) n (length us + length (utf8_bytes x)) (out @ decoded x # ys) (length out + 1)"
proof -
  have small: "unat x < 0x110000" "0x80 \<le> unat x" using assms by (simp_all add: word_le_nat_alt)
  then consider "unat x < 0x800" | "0x800 \<le> unat x" "unat x < 0x10000" | "0x10000 \<le> unat x" by linarith
  then show ?thesis
  proof cases
    case 1
    then show ?thesis using small assms(3)
      by (subst decode_loop.simps) (simp add: utf8_bytes_2 at_append lead_not_ascii lead_bytes put_at_same
          nth_append payloads decoded_def plus_Suc)
  next
    case 2
    then show ?thesis using small assms(3) join_3 [of x]
      by (subst decode_loop.simps) (simp add: utf8_bytes_3 at_append lead_not_ascii lead_bytes put_at_same
          nth_append payloads decoded_def plus_Suc)
  next
    case 3
    then show ?thesis using small assms(3) join_4 [OF assms(1)]
      by (subst decode_loop.simps) (simp add: utf8_bytes_4 at_append lead_not_ascii lead_bytes put_at_same
          nth_append payloads decoded_def plus_Suc)
  qed
qed

lemma utf8_bytes_nonempty: "utf8_bytes x \<noteq> []"
  by (simp add: utf8_bytes_def utf8_def)

lemma decode_loop_spec:
  assumes "\<forall>x \<in> set xs. x \<le> 0x10FFFF \<and> 0x80 \<le> x" "length xs \<le> length buf"
    and "n = length us + length (concat (map utf8_bytes xs))"
  shows "decode_loop (us @ concat (map utf8_bytes xs) @ junk) n (length us) (out @ buf) (length out) =
    Some (out @ map decoded xs @ drop (length xs) buf, length out + length xs)"
  using assms
proof (induction xs arbitrary: us out buf)
  case Nil
  then show ?case by (subst decode_loop.simps) simp
next
  case (Cons x xs)
  then obtain y ys where buf: "buf = y # ys" by (cases buf) auto
  have "length us < n" using Cons.prems(3) utf8_bytes_nonempty [of x] by simp
  with Cons.prems(1) have "decode_loop (us @ concat (map utf8_bytes (x # xs)) @ junk) n (length us) (out @ buf) (length out) =
    decode_loop ((us @ utf8_bytes x) @ concat (map utf8_bytes xs) @ junk) n (length (us @ utf8_bytes x))
      ((out @ [decoded x]) @ ys) (length (out @ [decoded x]))"
    using decode_step [of x us n "concat (map utf8_bytes xs) @ junk" out y ys] by (simp add: buf)
  also have "\<dots> = Some ((out @ [decoded x]) @ map decoded xs @ drop (length xs) ys, length (out @ [decoded x]) + length xs)"
    by (rule Cons.IH) (use Cons.prems buf in auto)
  finally show ?case by (simp add: buf)
qed

lemma decoded_wrong:
  assumes "0x80 \<le> x" "x < 0x800"
  shows "decoded x \<noteq> x"
proof
  assume eq: "decoded x = x"
  have u: "0x80 \<le> unat x" "unat x < 0x800" using assms by (simp_all add: word_le_nat_alt word_less_nat_alt)
  have "bit x n = (bit x (Suc n) \<and> n < 10)" if "6 \<le> n" "n < 32" for n
  proof -
    have "bit x n = bit (decoded x) n" by (simp add: eq)
    also have "\<dots> = (bit x (Suc n) \<and> n < 10)"
      using u(2) that unfolding decoded_def payload_masks by (auto simp: bit_simps)
    finally show ?thesis .
  qed
  then have "\<not> bit x 10" "\<not> bit x 9" "\<not> bit x 8" "\<not> bit x 7" by auto
  moreover have "\<not> bit x n" if "11 \<le> n" for n using high_bits [of x 11 n] u(2) that by simp
  ultimately have "\<not> bit x n" if "7 \<le> n" for n
    using that by (cases "n = 7 \<or> n = 8 \<or> n = 9 \<or> n = 10") auto
  then have "take_bit 7 x = x" by (intro bit_word_eqI) (metis bit_take_bit_iff not_less)
  then have "unat x = unat (take_bit 7 x)" by simp
  also have "\<dots> = unat x mod 2 ^ 7" unfolding unsigned_take_bit_eq by (rule take_bit_eq_mod)
  finally have "unat x = unat x mod 2 ^ 7" .
  moreover have "unat x mod 2 ^ 7 < 128" by simp
  ultimately show False using u by linarith
qed

section \<open>Properties\<close>

text \<open>
  \<^verbatim>\<open>ez_strncpy\<close> of a terminated string into a buffer that has room for it and for at most \<open>n\<close> bytes
  copies the longest prefix that fits with a terminating zero, changes nothing behind it, and returns the
  position of that zero; a truncated copy is terminated too, and \<open>n = 0\<close> writes nothing.
\<close>

theorem ez_strncpy_correct:
  assumes "0 \<notin> set str" and "min (n - 1) (length str) < length dst"
  shows "ez_strncpy dst (str @ 0 # junk) n =
    (if n = 0 then Some (dst, 0)
     else Some (take (n - 1) str @ 0 # drop (Suc (min (n - 1) (length str))) dst, min (n - 1) (length str)))"
  using strncpy_loop_spec [of str "n - 1" dst "[]" "[]" junk] assms by (simp add: ez_strncpy_def)

theorem ez_strncpy_correct_witness:
  "ez_strncpy [9, 9, 9, 9] [1, 2, 3, 0, 7] 3 = Some ([1, 2, 0, 9], 2)"
  using ez_strncpy_correct [of "[1, 2, 3]" 3 "[9, 9, 9, 9]" "[7]"] by simp



text \<open>
  C23: for a text without ASCII characters, decoding the encoded bytes gives back the length of the text and
  every character from U+0800 on; every character below U+0800 comes back as a different one.
\<close>

theorem utf8_roundtrip:
  assumes "\<forall>x \<in> set xs. 0x80 \<le> x \<and> x \<le> 0x10FFFF"
    and "length (concat (map utf8_bytes xs)) \<le> length ebuf" and "length xs \<le> length dbuf"
  shows "\<exists>bs c ys. ez_utf8_encode ebuf xs (length xs) = Some (bs, c)
    \<and> ez_utf8_decode dbuf bs c = Some (ys @ drop (length xs) dbuf, length xs)
    \<and> length ys = length xs \<and> (\<forall>i < length xs. ys ! i = xs ! i \<longleftrightarrow> 0x800 \<le> xs ! i)"
proof -
  have "survivors xs = xs" using assms(1) by (induction xs) (auto simp: word_le_nat_alt)
  then have e: "ez_utf8_encode ebuf xs (length xs) = Some (concat (map utf8_bytes xs)
      @ drop (length (concat (map utf8_bytes xs))) ebuf, length (concat (map utf8_bytes xs)))"
    using encode_loop_spec [of "length xs" xs 0 ebuf "[]"] assms(1,2) by (simp add: ez_utf8_encode_def Let_def)
  have "decoded x = x \<longleftrightarrow> 0x800 \<le> x" if "x \<in> set xs" for x
    using assms(1) that decoded_wrong [of x] by (auto simp: decoded_def word_le_nat_alt word_less_nat_alt not_less)
  then have "\<forall>i < length xs. map decoded xs ! i = xs ! i \<longleftrightarrow> 0x800 \<le> xs ! i" by simp
  with e decode_loop_spec [of xs dbuf _ "[]" _ "[]"] assms(1,3) show ?thesis
    by (fastforce simp: ez_utf8_decode_def)
qed

theorem utf8_roundtrip_witness:
  "\<exists>bs c ys. ez_utf8_encode (replicate 9 0) [0x20AC, 0x1F600, 0xE9] 3 = Some (bs, c)
    \<and> ez_utf8_decode [0, 0, 0] bs c = Some (ys, 3)
    \<and> ys ! 0 = 0x20AC \<and> ys ! 1 = 0x1F600 \<and> ys ! 2 \<noteq> 0xE9"
proof -
  let ?xs = "[0x20AC, 0x1F600, 0xE9] :: wchar list"
  have "\<forall>x \<in> set ?xs. 0x80 \<le> x \<and> x \<le> 0x10FFFF" by simp
  moreover have "length (concat (map utf8_bytes ?xs)) \<le> length (replicate 9 (0 :: u8))"
    by (simp add: utf8_bytes_def utf8_def)
  moreover have "length ?xs \<le> length [0, 0, 0 :: wchar]" by simp
  ultimately obtain bs c ys where r: "ez_utf8_encode (replicate 9 0) ?xs (length ?xs) = Some (bs, c)"
    "ez_utf8_decode [0, 0, 0] bs c = Some (ys @ drop (length ?xs) [0, 0, 0], length ?xs)"
    and ys: "\<forall>i < length ?xs. ys ! i = ?xs ! i \<longleftrightarrow> 0x800 \<le> ?xs ! i"
    using utf8_roundtrip by blast
  have "ys ! 0 = 0x20AC" "ys ! 1 = 0x1F600" "ys ! 2 \<noteq> 0xE9"
    using ys [rule_format, of 0] ys [rule_format, of 1] ys [rule_format, of 2] by simp_all
  with r show ?thesis by (intro exI [of _ bs] exI [of _ c] exI [of _ ys]) (simp add: numeral_3_eq_3)
qed

text \<open>A code that is cut off makes the decoder read behind the given length.\<close>

lemma utf8_decode_truncated: "ez_utf8_decode [0] [0xE2, 0x82] 1 = None"
  by (simp add: ez_utf8_decode_def decode_loop.simps at_def put_at_def left_bits_def)

lemma int_below_size:
  assumes "0 < i" "i < 2 ^ 31"
  shows "word_of_int i < (sz :: u64) \<longleftrightarrow> i < int (unat sz)"
proof -
  have "unat (word_of_int i :: u64) = nat i"
    using assms mod_pos_pos_trivial [of i "2 ^ 64"] by (simp add: unat_eq_nat_uint uint_word_of_int)
  then show ?thesis using assms(1) nat_less_iff [of i "unat sz"] by (simp only: word_less_nat_alt)
qed

lemma last_position:
  assumes "0 < (sz :: u64)" "unat sz < 2 ^ 31"
  shows "sint (ucast (sz - 1) :: u32) = int (unat sz) - 1"
proof -
  have pos: "0 < unat sz" using assms(1) by (simp add: unat_gt_0 word_neq_0_conv)
  have u: "unat (sz - 1) = unat sz - 1" using assms(1) by (intro unat_minus_one) auto
  have v: "unat (ucast (sz - 1) :: u32) = unat sz - 1"
    unfolding unsigned_ucast_eq u by (rule take_bit_nat_eq_self) (use assms(2) in simp)
  have "sint (ucast (sz - 1) :: u32) = int (unat (ucast (sz - 1) :: u32))"
    by (rule sint_unat) (use assms(2) v in linarith)
  then show ?thesis unfolding v using pos by linarith
qed

lemma ez_vsnprintf_spec:
  assumes "i < 2 ^ 31" "0 < sz" "sz < 2 ^ 31"
  shows "ez_vsnprintf sz i = (if i < 0 then 0 else min i (int (unat sz) - 1))"
proof -
  have u: "unat sz < 2 ^ 31" "0 < unat sz" using assms(2,3) by (simp_all add: word_less_nat_alt unat_gt_0)
  show ?thesis
  proof (cases "0 < i")
    case True
    then show ?thesis
      unfolding ez_vsnprintf_def int_below_size [OF True assms(1)] last_position [OF assms(2) u(1)]
      using True by (auto simp: min_def simp del: int_nat_eq)
  next
    case False
    then have "i < 0 \<or> i = 0 \<and> 0 \<le> int (unat sz) - 1" using u(2) by linarith
    then show ?thesis by (auto simp only: ez_vsnprintf_def min_def if_True if_False order_refl less_imp_le less_irrefl)
  qed
qed

text \<open>
  \<^verbatim>\<open>ez_vsnprintf\<close> turns the answer of the C library into the number of characters that stand in the
  buffer before the zero, for every buffer size from 1 to \<^verbatim>\<open>INT_MAX\<close>; for size 0, where its comment
  promises 0, it returns -1 when there was anything to print.
\<close>

theorem ez_vsnprintf_correct:
  assumes "- (2 ^ 31) \<le> i" "i < 2 ^ 31"
  shows "(0 < sz \<longrightarrow> sz < 2 ^ 31 \<longrightarrow> ez_vsnprintf sz i = (if i < 0 then 0 else min i (int (unat sz) - 1)))
    \<and> ez_vsnprintf 0 i = (if i \<le> 0 then 0 else - 1)"
proof -
  have "ez_vsnprintf sz i = (if i < 0 then 0 else min i (int (unat sz) - 1))" if "0 < sz" "sz < 2 ^ 31"
    by (rule ez_vsnprintf_spec [OF assms(2) that])
  moreover have "ez_vsnprintf 0 i = (if i \<le> 0 then 0 else - 1)"
  proof -
    have "ucast (- 1 :: u64) = (- 1 :: u32)" by (rule bit_word_eqI) (simp add: bit_simps)
    then show ?thesis by (simp add: ez_vsnprintf_def)
  qed
  ultimately show ?thesis by blast
qed

theorem ez_vsnprintf_correct_witness:
  "ez_vsnprintf 8 11 = 7 \<and> ez_vsnprintf 8 5 = 5 \<and> ez_vsnprintf 0 5 = - 1"
  using ez_vsnprintf_correct [of 11 8] ez_vsnprintf_correct [of 5 8] by simp

end
