(* ===== verification/Ez_Rwlock.thy ===== *)
theory Ez_Rwlock
  imports Ez_Prelude
begin

text \<open>
  The spinning reader-writer lock of \<^verbatim>\<open>src/ez_rwlock.c\<close> with the atomic operations of \<^verbatim>\<open>src/ez_atomic.h\<close>, as an
  interleaving of threads. Each access to the shared words is one step, as in the code: the spin loads, the atomic
  increment and decrement, the second look at the writer flag, the test-and-set. A thread is known by the
  point of the code it is at. The memory is sequentially consistent, which the code needs and its
  \<^verbatim>\<open>__ATOMIC_RELAXED\<close> operations only give on machines whose atomic instructions are full barriers.
\<close>

section \<open>State and steps\<close>

record rwlock =
  rw_write :: u32
  rw_read :: u32

definition rwlock_init :: "rwlock \<Rightarrow> rwlock" where
  "rwlock_init l = l\<lparr>rw_write := 0, rw_read := 0\<rparr>"

definition ATOM_INC :: "u32 \<Rightarrow> u32" where "ATOM_INC x = x + 1"
definition ATOM_DEC :: "u32 \<Rightarrow> u32" where "ATOM_DEC x = x - 1"

text \<open>\<^verbatim>\<open>__sync_lock_test_and_set(ptr, 1)\<close>: the old value and the new content.\<close>

definition test_and_set :: "u32 \<Rightarrow> u32 \<times> u32" where
  "test_and_set x = (x, 1)"

text \<open>
  The points: outside; in \<^verbatim>\<open>rwlock_rlock\<close> before the spin load, the increment, the second look and the decrement;
  holding as a reader; in \<^verbatim>\<open>rwlock_wlock\<close> before the test-and-set and before the load of the reader count; holding as a
  writer. From outside and from a holding point the thread goes on with its next call.
\<close>

datatype pc = Outside | R_Spin | R_Inc | R_Look | R_Undo | R_Hold | W_Set | W_Wait | W_Hold

datatype rw_call = RLock | WLock | Unlock

fun rwlock_rlock :: "pc \<Rightarrow> rwlock \<Rightarrow> rwlock \<times> pc" where
  "rwlock_rlock R_Spin l = (if rw_write l \<noteq> 0 then (l, R_Spin) else (l, R_Inc))"
| "rwlock_rlock R_Inc l = (l\<lparr>rw_read := ATOM_INC (rw_read l)\<rparr>, R_Look)"
| "rwlock_rlock R_Look l = (if rw_write l \<noteq> 0 then (l, R_Undo) else (l, R_Hold))"
| "rwlock_rlock R_Undo l = (l\<lparr>rw_read := ATOM_DEC (rw_read l)\<rparr>, R_Spin)"
| "rwlock_rlock p l = (l, p)"

definition rwlock_runlock :: "rwlock \<Rightarrow> rwlock" where
  "rwlock_runlock l = l\<lparr>rw_read := ATOM_DEC (rw_read l)\<rparr>"

fun rwlock_wlock :: "pc \<Rightarrow> rwlock \<Rightarrow> rwlock \<times> pc" where
  "rwlock_wlock W_Set l =
     (let (old, new) = test_and_set (rw_write l); l = l\<lparr>rw_write := new\<rparr>
      in if old \<noteq> 0 then (l, W_Set) else (l, W_Wait))"
| "rwlock_wlock W_Wait l = (if rw_read l \<noteq> 0 then (l, W_Wait) else (l, W_Hold))"
| "rwlock_wlock p l = (l, p)"

definition rwlock_wunlock :: "rwlock \<Rightarrow> rwlock" where
  "rwlock_wunlock l = l\<lparr>rw_write := 0\<rparr>"

definition thread_step :: "rw_call \<Rightarrow> pc \<Rightarrow> rwlock \<Rightarrow> rwlock \<times> pc" where
  "thread_step c p l =
     (case p of
        Outside \<Rightarrow> (case c of RLock \<Rightarrow> (l, R_Spin) | WLock \<Rightarrow> (l, W_Set) | Unlock \<Rightarrow> (l, Outside))
      | R_Hold \<Rightarrow> (case c of Unlock \<Rightarrow> (rwlock_runlock l, Outside) | _ \<Rightarrow> (l, R_Hold))
      | W_Hold \<Rightarrow> (case c of Unlock \<Rightarrow> (rwlock_wunlock l, Outside) | _ \<Rightarrow> (l, W_Hold))
      | W_Set \<Rightarrow> rwlock_wlock p l
      | W_Wait \<Rightarrow> rwlock_wlock p l
      | _ \<Rightarrow> rwlock_rlock p l)"

text \<open>\<open>n\<close> threads; any of them moves.\<close>

type_synonym sys = "rwlock \<times> (nat \<Rightarrow> pc)"

inductive rw_step :: "nat \<Rightarrow> sys \<Rightarrow> sys \<Rightarrow> bool" for n where
  move: "t < n \<Longrightarrow> thread_step c (ps t) l = (l', p') \<Longrightarrow> rw_step n (l, ps) (l', ps(t := p'))"

inductive_cases rw_stepE: "rw_step n (l, ps) s'"

definition start :: "rwlock \<Rightarrow> sys" where
  "start l = (rwlock_init l, \<lambda>t. Outside)"

definition rw_reachable :: "nat \<Rightarrow> rwlock \<Rightarrow> sys \<Rightarrow> bool" where
  "rw_reachable n l s \<longleftrightarrow> (rw_step n)\<^sup>*\<^sup>* (start l) s"

section \<open>The invariant\<close>

text \<open>The threads that the reader count counts, and those that own the writer flag.\<close>

definition counted :: "nat \<Rightarrow> (nat \<Rightarrow> pc) \<Rightarrow> nat set" where
  "counted n ps = {t. t < n \<and> ps t \<in> {R_Look, R_Undo, R_Hold}}"

definition owners :: "nat \<Rightarrow> (nat \<Rightarrow> pc) \<Rightarrow> nat set" where
  "owners n ps = {t. t < n \<and> ps t \<in> {W_Wait, W_Hold}}"

definition rw_inv :: "nat \<Rightarrow> sys \<Rightarrow> bool" where
  "rw_inv n s \<longleftrightarrow> (case s of (l, ps) \<Rightarrow>
     rw_read l = of_nat (card (counted n ps))
     \<and> (if rw_write l = 0 then owners n ps = {} else rw_write l = 1 \<and> (\<exists>t. owners n ps = {t}))
     \<and> (\<forall>t < n. \<forall>u < n. ps t = W_Hold \<longrightarrow> ps u \<noteq> R_Hold))"

lemma counted_finite [simp]: "finite (counted n ps)"
  by (simp add: counted_def)

lemma counted_upd:
  "t < n \<Longrightarrow> counted n (ps(t := p)) =
    (if p \<in> {R_Look, R_Undo, R_Hold} then insert t (counted n ps) else counted n ps - {t})"
  by (auto simp: counted_def)

lemma owners_upd:
  "t < n \<Longrightarrow> owners n (ps(t := p)) = (if p \<in> {W_Wait, W_Hold} then insert t (owners n ps) else owners n ps - {t})"
  by (auto simp: owners_def)

lemma card_counted: "card (counted n ps) \<le> n"
  using card_mono [of "{..<n}" "counted n ps"] by (auto simp: counted_def)

lemma rw_inv_start: "rw_inv n (start l)"
  by (simp add: rw_inv_def start_def rwlock_init_def counted_def owners_def)

lemma read_zero:
  assumes "rw_inv n (l, ps)" "n < 2 ^ 32" "rw_read l = 0"
  shows "counted n ps = {}"
proof -
  have "card (counted n ps) < 2 ^ 32" using card_counted [of n ps] assms(2) by simp
  moreover have "2 ^ 32 dvd card (counted n ps)"
    using assms(1,3) by (simp add: rw_inv_def word_of_nat_eq_0_iff)
  ultimately have "card (counted n ps) = 0" by (metis nat_dvd_not_less gr0I)
  then show ?thesis by simp
qed

lemma card_words:
  assumes "finite A"
  shows "t \<notin> A \<Longrightarrow> (of_nat (card (insert t A)) :: u32) = of_nat (card A) + 1"
    and "t \<in> A \<Longrightarrow> (of_nat (card (A - {t})) :: u32) = of_nat (card A) - 1"
proof -
  show "(of_nat (card (insert t A)) :: u32) = of_nat (card A) + 1" if "t \<notin> A"
    using that assms by (simp add: add.commute)
  show "(of_nat (card (A - {t})) :: u32) = of_nat (card A) - 1" if "t \<in> A"
    using that assms card_Suc_Diff1 [of A t] by (metis add_diff_cancel_right' of_nat_Suc add.commute)
qed

text \<open>One preservation fact for each kind of move, over the two sets and the words.\<close>

lemma rw_inv_cong:
  assumes inv: "rw_inv n (l, ps)" and t: "t < n"
    and rd: "rw_read l' = of_nat (card (counted n (ps(t := p'))))"
    and wr: "if rw_write l' = 0 then owners n (ps(t := p')) = {}
      else rw_write l' = 1 \<and> (\<exists>t'. owners n (ps(t := p')) = {t'})"
    and r: "p' = R_Hold \<Longrightarrow> rw_write l = 0 \<or> ps t = R_Hold"
    and w: "p' = W_Hold \<Longrightarrow> counted n ps = {} \<or> ps t = W_Hold"
  shows "rw_inv n (l', ps(t := p'))"
proof -
  have "(ps(t := p')) v \<noteq> R_Hold" if u: "u < n" "(ps(t := p')) u = W_Hold" and v: "v < n" for u v
  proof
    assume h: "(ps(t := p')) v = R_Hold"
    show False
    proof (cases "u = t")
      case True
      then have "v \<noteq> t" "p' = W_Hold" using u h by auto
      then have "ps v = R_Hold" using h by simp
      then show False using w [OF \<open>p' = W_Hold\<close>] v inv t by (auto simp: counted_def rw_inv_def)
    next
      case False
      then have pu: "ps u = W_Hold" using u by simp
      then have "u \<in> owners n ps" using u by (simp add: owners_def)
      then have "rw_write l \<noteq> 0" using inv by (auto simp: rw_inv_def split: if_splits)
      then show False using h r pu u(1) v inv t by (cases "v = t") (auto simp: rw_inv_def)
    qed
  qed
  then show ?thesis using rd wr by (auto simp: rw_inv_def)
qed

text \<open>The kinds of move.\<close>

lemma thread_cases:
  assumes "thread_step c p l = (l', p')"
  obtains (stay) "l' = l" "p' = p"
  | (call) "p = Outside" "l' = l" "p' = R_Spin \<or> p' = W_Set"
  | (spun) "p = R_Spin" "l' = l" "p' = R_Inc"
  | (inc) "p = R_Inc" "l' = l\<lparr>rw_read := rw_read l + 1\<rparr>" "p' = R_Look"
  | (retreat) "p = R_Look" "rw_write l \<noteq> 0" "l' = l" "p' = R_Undo"
  | (read) "p = R_Look" "rw_write l = 0" "l' = l" "p' = R_Hold"
  | (dec) "p = R_Undo \<or> p = R_Hold" "l' = l\<lparr>rw_read := rw_read l - 1\<rparr>" "p' = R_Spin \<or> p' = Outside"
  | (refused) "p = W_Set" "rw_write l \<noteq> 0" "l' = l\<lparr>rw_write := 1\<rparr>" "p' = W_Set"
  | (flag) "p = W_Set" "rw_write l = 0" "l' = l\<lparr>rw_write := 1\<rparr>" "p' = W_Wait"
  | (enter) "p = W_Wait" "rw_read l = 0" "l' = l" "p' = W_Hold"
  | (leave) "p = W_Hold" "l' = l\<lparr>rw_write := 0\<rparr>" "p' = Outside"
  using assms
  by (cases p; cases c) (auto simp: thread_step_def rwlock_runlock_def rwlock_wunlock_def ATOM_INC_def
      ATOM_DEC_def test_and_set_def Let_def split: if_splits)

lemma rw_inv_thread:
  assumes inv: "rw_inv n (l, ps)" and t: "t < n" and n: "n < 2 ^ 32"
    and step: "thread_step c (ps t) l = (l', p')"
  shows "rw_inv n (l', ps(t := p'))"
proof (rule rw_inv_cong [OF inv t])
  have cnt: "rw_read l = of_nat (card (counted n ps))"
    and own: "if rw_write l = 0 then owners n ps = {} else rw_write l = 1 \<and> (\<exists>t. owners n ps = {t})"
    using inv by (auto simp: rw_inv_def)
  have same: "counted n (ps(t := p')) = counted n ps"
    if "ps t \<in> {R_Look, R_Undo, R_Hold} \<longleftrightarrow> p' \<in> {R_Look, R_Undo, R_Hold}"
    using that t by (auto simp: counted_def)
  have mem: "t \<in> counted n ps \<longleftrightarrow> ps t \<in> {R_Look, R_Undo, R_Hold}" using t by (simp add: counted_def)
  have own_same: "owners n (ps(t := p')) = owners n ps"
    if "ps t \<in> {W_Wait, W_Hold} \<longleftrightarrow> p' \<in> {W_Wait, W_Hold}"
    using that t by (auto simp: owners_def)
  have own_mem: "t \<in> owners n ps \<longleftrightarrow> ps t \<in> {W_Wait, W_Hold}" using t by (simp add: owners_def)
  note words = card_words [OF counted_finite [of n ps], of t]
  show "rw_read l' = of_nat (card (counted n (ps(t := p'))))"
    using step
  proof (cases rule: thread_cases)
    case inc
    then show ?thesis using words(1) mem cnt by (simp add: counted_upd [OF t] del: card_insert_disjoint)
  next
    case dec
    then have "rw_read l' = of_nat (card (counted n ps)) - 1" "t \<in> counted n ps" using cnt mem by auto
    then show ?thesis using words(2) dec(3) by (auto simp only: counted_upd [OF t] pc.distinct simp_thms
      insert_iff empty_iff if_False)
  qed (use same cnt in auto)
  show "if rw_write l' = 0 then owners n (ps(t := p')) = {}
      else rw_write l' = 1 \<and> (\<exists>t'. owners n (ps(t := p')) = {t'})"
    using step
  proof (cases rule: thread_cases)
    case flag
    then show ?thesis using own by (simp add: owners_upd [OF t])
  next
    case leave
    then show ?thesis using own own_mem by (auto simp: owners_upd [OF t] split: if_splits)
  next
    case refused
    then show ?thesis using own own_same by simp
  qed (use own own_same in auto)
  show "rw_write l = 0 \<or> ps t = R_Hold" if "p' = R_Hold"
    using step by (cases rule: thread_cases) (use that in auto)
  show "counted n ps = {} \<or> ps t = W_Hold" if "p' = W_Hold"
    using step by (cases rule: thread_cases) (use that read_zero [OF inv n] in auto)
qed

lemma rw_inv_step:
  assumes "rw_step n s s'" "rw_inv n s" "n < 2 ^ 32"
  shows "rw_inv n s'"
  using assms by (cases rule: rw_step.cases) (auto intro: rw_inv_thread)

lemma rw_inv_reachable:
  assumes "rw_reachable n l s" "n < 2 ^ 32"
  shows "rw_inv n s"
  using assms(1) unfolding rw_reachable_def
  by (induction rule: rtranclp_induct) (auto intro: rw_inv_start rw_inv_step assms(2))

section \<open>Progress of a writer\<close>


lemma step_of: "t < n \<Longrightarrow> thread_step c (ps t) l = (l', p') \<Longrightarrow> (rw_step n)\<^sup>*\<^sup>* (l, ps) (l', ps(t := p'))"
  by (intro r_into_rtranclp rw_step.move)


section \<open>Properties\<close>


text \<open>A run of one writer and one reader: the writer holds, the reader has counted itself and must undo.\<close>

definition demo_ps :: "nat \<Rightarrow> pc" where
  "demo_ps = (\<lambda>t. Outside)(0 := W_Hold, 1 := R_Inc)"

lemma demo_run:
  "rw_reachable 2 \<lparr>rw_write = 0, rw_read = 0\<rparr> (\<lparr>rw_write = 1, rw_read = 0\<rparr>, demo_ps)"
proof -
  let ?l = "\<lparr>rw_write = 0, rw_read = 0 :: u32\<rparr>" and ?l0 = "\<lparr>rw_write = 0, rw_read = 0\<rparr>"
    and ?l1 = "\<lparr>rw_write = 1, rw_read = 0 :: u32\<rparr>" and ?o = "\<lambda>t :: nat. Outside"
  have "(rw_step 2)\<^sup>*\<^sup>* (start ?l) (?l0, ?o(1 := R_Spin))"
    using step_of [of 1 2 RLock ?o ?l0] by (simp add: start_def rwlock_init_def thread_step_def)
  also have "(rw_step 2)\<^sup>*\<^sup>* \<dots> (?l0, ?o(1 := R_Inc))"
    using step_of [of 1 2 RLock "?o(1 := R_Spin)" ?l0] by (simp add: thread_step_def)
  also have "(rw_step 2)\<^sup>*\<^sup>* \<dots> (?l0, ?o(1 := R_Inc, 0 := W_Set))"
    using step_of [of 0 2 WLock "?o(1 := R_Inc)" ?l0] by (simp add: thread_step_def)
  also have "(rw_step 2)\<^sup>*\<^sup>* \<dots> (?l1, ?o(1 := R_Inc, 0 := W_Wait))"
    using step_of [of 0 2 WLock "?o(1 := R_Inc, 0 := W_Set)" ?l0] by (simp add: thread_step_def test_and_set_def)
  also have "(rw_step 2)\<^sup>*\<^sup>* \<dots> (?l1, ?o(1 := R_Inc, 0 := W_Hold))"
    using step_of [of 0 2 WLock "?o(1 := R_Inc, 0 := W_Wait)" ?l1] by (simp add: thread_step_def)
  finally show ?thesis by (simp add: rw_reachable_def demo_ps_def fun_upd_twist)
qed


text \<open>
  C33: the counters are exact: in every reachable state the reader count is the number of threads between their
  increment and their decrement and the writer flag is up exactly when a thread is past its test-and-set; when
  every thread is outside, the lock is as \<^verbatim>\<open>rwlock_init\<close> left it, however the calls were interleaved.
\<close>

theorem rwlock_counts_exact:
  assumes "rw_reachable n l0 (l, ps)" and "n < 2 ^ 32"
  shows "unat (rw_read l) = card (counted n ps) \<and> (rw_write l \<noteq> 0 \<longleftrightarrow> owners n ps \<noteq> {})
    \<and> ((\<forall>t < n. ps t = Outside) \<longrightarrow> l = rwlock_init l0)"
proof -
  have inv: "rw_inv n (l, ps)" by (rule rw_inv_reachable [OF assms])
  have "card (counted n ps) < 2 ^ 32" using card_counted [of n ps] assms(2) by simp
  then have "unat (rw_read l) = card (counted n ps)"
    using inv by (simp add: rw_inv_def unat_of_nat take_bit_nat_eq_self)
  moreover have "rw_write l \<noteq> 0 \<longleftrightarrow> owners n ps \<noteq> {}" using inv by (auto simp: rw_inv_def split: if_splits)
  moreover have "l = rwlock_init l0" if "\<forall>t < n. ps t = Outside"
  proof -
    have "counted n ps = {}" "owners n ps = {}" using that by (auto simp: counted_def owners_def)
    then have "rw_read l = 0" "rw_write l = 0" using inv by (auto simp: rw_inv_def split: if_splits)
    then show ?thesis by (simp add: rwlock_init_def)
  qed
  ultimately show ?thesis by blast
qed

theorem rwlock_counts_exact_witness:
  "unat (rw_read \<lparr>rw_write = 1, rw_read = 0\<rparr>) = card (counted 2 demo_ps) \<and> owners 2 demo_ps \<noteq> {}"
  using rwlock_counts_exact [OF demo_run] by simp



end
