(* ===== verification/Ez_Loop.thy ===== *)
theory Ez_Loop
  imports Ez_List Ez_Rbtree_Index
begin

text \<open>
  The state of an event loop (\<^verbatim>\<open>src/ez_event.c\<close>) and the operating system below it. The system is a
  parameter: a record of functions on a system state \<open>'k\<close>, one per call that the code makes. Timers
  and file events live in memories of their own; the list node of a timer and the tree node of a file event are
  at the offset the struct gives them.
\<close>

section \<open>The operating system\<close>

datatype epoll_op = EPOLL_CTL_ADD | EPOLL_CTL_MOD | EPOLL_CTL_DEL

text \<open>
  \<open>os_epoll_wait\<close> answers the return value, \<^verbatim>\<open>errno\<close>, and the events it stored; \<open>os_eventfd_read\<close>
  answers what it stored, if anything.
\<close>

record 'k os =
  os_gettimeofday :: "'k \<Rightarrow> 'k \<times> int \<times> int"
  os_time :: "'k \<Rightarrow> 'k \<times> int"
  os_epoll_ctl :: "'k \<Rightarrow> int \<Rightarrow> epoll_op \<Rightarrow> int \<Rightarrow> u32 \<Rightarrow> 'k \<times> int"
  os_epoll_wait :: "'k \<Rightarrow> int \<Rightarrow> int \<Rightarrow> int \<Rightarrow> 'k \<times> int \<times> int \<times> (u32 \<times> int) list"
  os_eventfd_read :: "'k \<Rightarrow> int \<Rightarrow> 'k \<times> u64 option"
  os_eventfd_write :: "'k \<Rightarrow> int \<Rightarrow> u64 \<Rightarrow> 'k"
  os_epoll_create :: "'k \<Rightarrow> 'k \<times> int"
  os_eventfd :: "'k \<Rightarrow> 'k \<times> int"
  os_close :: "'k \<Rightarrow> int \<Rightarrow> 'k"

section \<open>The loop\<close>

record file_event =
  fe_fd :: int
  fe_mask :: int
  rfileProc :: addr
  wfileProc :: addr
  fe_clientData :: addr

record time_event =
  te_id :: int
  te_period :: int
  when_ms :: int
  timeProc :: addr
  te_clientData :: addr

record fired_event =
  fired_fd :: int
  fired_mask :: int

text \<open>
  The two structures carry, in front of their members, the address of their own block, and the arrays they own the
  address of theirs.
\<close>

record api_state =
  api_at :: addr
  epfd :: int
  evfd :: int
  events_at :: addr
  events :: "(u32 \<times> int) list"

record 'k event_loop =
  loop_at :: addr
  stop :: int
  apidata :: api_state
  setsize :: int
  ev_count :: int
  rbtree_events :: rbtree
  free_events :: addr
  lastTime :: int
  timeNextId :: int
  time_events :: addr
  fired_at :: addr
  fired :: "fired_event list"
  files :: "addr \<rightharpoonup> file_event"
  rbnodes :: rbmem
  timers :: "addr \<rightharpoonup> time_event"
  tlinks :: lmem
  kern :: 'k

definition off_rb_node :: nat where "off_rb_node = 32"
definition off_time_node :: nat where "off_time_node = 40"

definition cast_to_file_event :: "addr \<Rightarrow> addr" where
  "cast_to_file_event node = node - off_rb_node"

definition cast_to_time_event :: "addr \<Rightarrow> addr" where
  "cast_to_time_event node = node - off_time_node"

text \<open>The member \<^verbatim>\<open>e->rb_node\<close> and the member \<^verbatim>\<open>te->listNode\<close>.\<close>

definition fnode_of :: "addr \<Rightarrow> addr" where
  "fnode_of e = e + off_rb_node"

definition tnode_of :: "addr \<Rightarrow> addr" where
  "tnode_of t = t + off_time_node"

lemma cast_nodes [simp]: "cast_to_file_event (fnode_of e) = e" "cast_to_time_event (tnode_of t) = t"
  by (simp_all add: cast_to_file_event_def fnode_of_def cast_to_time_event_def tnode_of_def)

lemma node_inject [simp]: "fnode_of e = fnode_of f \<longleftrightarrow> e = f" "tnode_of t = tnode_of u \<longleftrightarrow> t = u"
  by (simp_all add: fnode_of_def tnode_of_def)

lemma node_pos [simp]: "fnode_of e \<noteq> NULL" "tnode_of t \<noteq> NULL"
  by (simp_all add: fnode_of_def tnode_of_def off_rb_node_def off_time_node_def)

section \<open>Clocks\<close>

text \<open>A 64-bit signed result; signed overflow is undefined.\<close>

definition i64 :: "int \<Rightarrow> int option" where
  "i64 x = (if - (2 ^ 63) \<le> x \<and> x < 2 ^ 63 then Some x else None)"

definition ustime :: "'k os \<Rightarrow> 'k \<Rightarrow> ('k \<times> int) option" where
  "ustime os k = do {
     let (k, tv_sec, tv_usec) = os_gettimeofday os k;
     ust \<leftarrow> i64 (tv_sec * 1000000);
     ust \<leftarrow> i64 (ust + tv_usec);
     Some (k, ust)
   }"

definition c_div :: "int \<Rightarrow> int \<Rightarrow> int" where
  "c_div a b = sgn a * (\<bar>a\<bar> div b)"

definition mstime :: "'k os \<Rightarrow> 'k \<Rightarrow> ('k \<times> int) option" where
  "mstime os k = do { (k, us) \<leftarrow> ustime os k; Some (k, c_div us 1000) }"

definition now_ms :: "'k os \<Rightarrow> 'k event_loop \<Rightarrow> ('k event_loop \<times> int) option" where
  "now_ms os el = do { (k, t) \<leftarrow> mstime os (kern el); Some (el\<lparr>kern := k\<rparr>, t) }"

end
