(* ===== verification/Ez_Epoll.thy ===== *)
theory Ez_Epoll
  imports Ez_Loop
begin

text \<open>
  The epoll back end of the event loop (\<^verbatim>\<open>src/ez_epoll.c\<close>): the set of descriptors the kernel watches, the
  command descriptor that stops the loop, and the translation of the kernel's answers into fired events.
\<close>

unbundle bit_operations_syntax

section \<open>Constants\<close>

definition EPOLLIN :: u32 where "EPOLLIN = 1"
definition EPOLLOUT :: u32 where "EPOLLOUT = 4"
definition EPOLLERR :: u32 where "EPOLLERR = 8"
definition EPOLLHUP :: u32 where "EPOLLHUP = 16"

definition EINTR :: int where "EINTR = 4"

definition AE_OK :: int where "AE_OK = 0"
definition AE_ERR :: int where "AE_ERR = - 1"

definition AE_NONE :: int where "AE_NONE = 0"
definition AE_READABLE :: int where "AE_READABLE = 1"
definition AE_WRITABLE :: int where "AE_WRITABLE = 2"

definition STOP_CMD :: u64 where "STOP_CMD = 0xFF"

lemmas ae_defs = AE_OK_def AE_ERR_def AE_NONE_def AE_READABLE_def AE_WRITABLE_def
lemmas epoll_defs = EPOLLIN_def EPOLLOUT_def EPOLLERR_def EPOLLHUP_def

section \<open>Blocks\<close>

text \<open>
  The blocks in use that hold the loop, its state and its arrays. An allocation answers the address of a block that
  is not in use, or \<open>NULL\<close>; to free a block that is not in use is undefined.
\<close>

type_synonym blocks = "addr set"

definition got :: "blocks \<Rightarrow> addr \<Rightarrow> blocks" where
  "got h p = (if p = NULL then h else insert p h)"

definition ez_free_block :: "blocks \<Rightarrow> addr \<Rightarrow> blocks option" where
  "ez_free_block h p = (if p = NULL then Some h else if p \<in> h then Some (h - {p}) else None)"

section \<open>The state of the back end\<close>

text \<open>\<open>state\<close> and \<open>evs\<close> are the answers of the two allocations; the memory they return is zero.\<close>

definition ezApiCreate ::
    "'k os \<Rightarrow> 'k \<Rightarrow> blocks \<Rightarrow> int \<Rightarrow> addr \<Rightarrow> addr \<Rightarrow> ('k \<times> blocks \<times> api_state option) option" where
  "ezApiCreate os k h n state evs = (let h = got h state in
     if state = NULL then Some (k, h, None)
     else let h = got h evs in
     if evs = NULL then do { h \<leftarrow> ez_free_block h state; Some (k, h, None) }
     else let (k, ep) = os_epoll_create os k in
     if ep = - 1 then do { h \<leftarrow> ez_free_block h evs; h \<leftarrow> ez_free_block h state; Some (k, h, None) }
     else let (k, ev) = os_eventfd os k in
     if ev = - 1 then do { h \<leftarrow> ez_free_block h evs; h \<leftarrow> ez_free_block h state; Some (k, h, None) }
     else Some (k, h, Some \<lparr>api_at = state, epfd = ep, evfd = ev, events_at = evs,
       events = replicate (nat n) (0, 0)\<rparr>))"

definition ezApiDelete :: "'k os \<Rightarrow> 'k \<Rightarrow> blocks \<Rightarrow> api_state \<Rightarrow> ('k \<times> blocks) option" where
  "ezApiDelete os k h state = do {
     let k = os_close os k (epfd state);
     let k = os_close os k (evfd state);
     h \<leftarrow> ez_free_block h (events_at state);
     h \<leftarrow> ez_free_block h (api_at state);
     Some (k, h)
   }"

section \<open>The watched descriptors\<close>

definition ee_events :: "int \<Rightarrow> u32" where
  "ee_events msk = (let ev = 0;
     ev = (if msk AND AE_READABLE \<noteq> 0 then ev OR EPOLLIN else ev);
     ev = (if msk AND AE_WRITABLE \<noteq> 0 then ev OR EPOLLOUT else ev) in ev)"

definition ezApiAddEvent :: "'k os \<Rightarrow> 'k event_loop \<Rightarrow> int \<Rightarrow> int \<Rightarrow> int \<Rightarrow> 'k event_loop \<times> int" where
  "ezApiAddEvent os el fd msk old_mask =
     (let op = (if old_mask = AE_NONE then EPOLL_CTL_ADD else EPOLL_CTL_MOD);
          msk = msk OR old_mask;
          (k, r) = os_epoll_ctl os (kern el) (epfd (apidata el)) op fd (ee_events msk)
      in (el\<lparr>kern := k\<rparr>, if r = - 1 then - 1 else AE_OK))"

definition ezApiDelEvent :: "'k os \<Rightarrow> 'k event_loop \<Rightarrow> int \<Rightarrow> int \<Rightarrow> int \<Rightarrow> 'k event_loop" where
  "ezApiDelEvent os el fd delmask oldmask =
     (let msk = oldmask AND NOT delmask;
          op = (if msk \<noteq> AE_NONE then EPOLL_CTL_MOD else EPOLL_CTL_DEL);
          (k, r) = os_epoll_ctl os (kern el) (epfd (apidata el)) op fd (ee_events msk)
      in el\<lparr>kern := k\<rparr>)"

section \<open>The command descriptor\<close>

definition ezApiDoEventfdCmd :: "'k os \<Rightarrow> 'k event_loop \<Rightarrow> 'k event_loop" where
  "ezApiDoEventfdCmd os el =
     (let (k, r) = os_eventfd_read os (kern el) (evfd (apidata el));
          cmd = (case r of None \<Rightarrow> 0 | Some v \<Rightarrow> v);
          el = el\<lparr>kern := k\<rparr>
      in if cmd = STOP_CMD then el\<lparr>stop := 1\<rparr> else el)"

definition ezApiStop :: "'k os \<Rightarrow> 'k event_loop \<Rightarrow> 'k event_loop" where
  "ezApiStop os el = el\<lparr>kern := os_eventfd_write os (kern el) (evfd (apidata el)) STOP_CMD\<rparr>"

definition ezApiBeforePoll :: "'k os \<Rightarrow> 'k event_loop \<Rightarrow> 'k event_loop" where
  "ezApiBeforePoll os el = fst (ezApiAddEvent os el (evfd (apidata el)) AE_READABLE AE_NONE)"

definition ezApiAfterPoll :: "'k os \<Rightarrow> 'k event_loop \<Rightarrow> 'k event_loop" where
  "ezApiAfterPoll os el = ezApiDelEvent os el (evfd (apidata el)) AE_READABLE AE_READABLE"

section \<open>Waiting\<close>

definition epoll_wait_once :: "'k os \<Rightarrow> 'k event_loop \<Rightarrow> int \<Rightarrow> 'k event_loop \<times> int \<times> int" where
  "epoll_wait_once os el timeout =
     (let st = apidata el;
          (k, retval, err, evs) = os_epoll_wait os (kern el) (epfd st) (setsize el) timeout
      in (el\<lparr>apidata := st\<lparr>events := evs @ drop (length evs) (events st)\<rparr>, kern := k\<rparr>, retval, err))"

partial_function (option) epoll_wait_loop :: "'k os \<Rightarrow> 'k event_loop \<Rightarrow> int \<Rightarrow> ('k event_loop \<times> int) option" where
  "epoll_wait_loop os el timeout =
     (let (el, retval, err) = epoll_wait_once os el timeout in
      if retval = - 1 \<and> err = EINTR then epoll_wait_loop os el timeout else Some (el, retval))"

definition what_of :: "u32 \<Rightarrow> u32" where
  "what_of what =
     (if what AND (EPOLLERR OR EPOLLHUP) \<noteq> 0 \<and> what AND (EPOLLIN OR EPOLLOUT) = 0
      then what OR (EPOLLIN OR EPOLLOUT) else what)"

definition fired_mask_of :: "u32 \<Rightarrow> int" where
  "fired_mask_of what =
     (let msk = 0;
          msk = (if what AND EPOLLIN \<noteq> 0 then msk OR AE_READABLE else msk);
          msk = (if what AND EPOLLOUT \<noteq> 0 then msk OR AE_WRITABLE else msk)
      in msk)"

text \<open>The loop over the answered events: the argument lists the values \<open>j\<close> still takes.\<close>

fun poll_events :: "'k os \<Rightarrow> 'k event_loop \<Rightarrow> nat \<Rightarrow> int \<Rightarrow> nat list \<Rightarrow> ('k event_loop \<times> int) option" where
  "poll_events os el i numevents [] = Some (el, numevents)"
| "poll_events os el i numevents (j # js) =
     (if j \<ge> length (events (apidata el)) then None
      else let (ev, data_fd) = events (apidata el) ! j;
               msk = fired_mask_of (what_of ev)
      in if msk = 0 then poll_events os el i numevents js
         else if data_fd = evfd (apidata el) then poll_events os (ezApiDoEventfdCmd os el) i (numevents - 1) js
         else if i \<ge> length (fired el) then None
         else poll_events os (el\<lparr>fired := (fired el)[i := \<lparr>fired_fd = data_fd, fired_mask = msk\<rparr>]\<rparr>)
                (i + 1) numevents js)"

definition ezApiPoll :: "'k os \<Rightarrow> 'k event_loop \<Rightarrow> int \<Rightarrow> ('k event_loop \<times> int) option" where
  "ezApiPoll os el timeout = do {
     let timeout = (if timeout < 0 then - 1 else timeout);
     (el, retval) \<leftarrow> epoll_wait_loop os el timeout;
     (if retval > 0 then poll_events os el 0 retval [0..<nat retval] else Some (el, 0))
   }"

section \<open>Bits\<close>

lemma and_pow_bit: "(a :: u32) AND 1 \<noteq> 0 \<longleftrightarrow> bit a 0" "a AND 4 \<noteq> 0 \<longleftrightarrow> bit a 2" "a AND 8 \<noteq> 0 \<longleftrightarrow> bit a 3"
  "a AND 16 \<noteq> 0 \<longleftrightarrow> bit a 4"
  using bit_iff_and_push_bit_not_eq_0 [of a 0] bit_iff_and_push_bit_not_eq_0 [of a 2]
    bit_iff_and_push_bit_not_eq_0 [of a 3] bit_iff_and_push_bit_not_eq_0 [of a 4] by simp_all

lemma and_or_zero: "(a :: u32) AND (b OR c) = 0 \<longleftrightarrow> a AND b = 0 \<and> a AND c = 0"
  by (auto simp: bit_eq_iff bit_and_iff bit_or_iff)

text \<open>
  What a kernel answer is reported as, for an answer with at least one of the four bits: an error or a hang-up
  without data counts as both.
\<close>

definition reported :: "u32 \<Rightarrow> int" where
  "reported w = (if bit w 0 \<or> \<not> bit w 2 then 1 else 0) + (if bit w 2 \<or> \<not> bit w 0 then 2 else 0)"

lemma what_of_bits:
  assumes "w AND (EPOLLIN OR EPOLLOUT OR EPOLLERR OR EPOLLHUP) \<noteq> 0"
  shows "bit (what_of w) 0 \<longleftrightarrow> bit w 0 \<or> \<not> bit w 2" "bit (what_of w) 2 \<longleftrightarrow> bit w 2 \<or> \<not> bit w 0"
proof -
  have b: "bit (1 :: u32) 0" "\<not> bit (1 :: u32) 2" "bit (4 :: u32) 2" "\<not> bit (4 :: u32) 0" by simp_all
  have "bit w 0 \<or> bit w 2 \<or> bit w 3 \<or> bit w 4"
    using assms unfolding epoll_defs and_or_zero and_pow_bit [symmetric] by blast
  moreover have "w AND (EPOLLERR OR EPOLLHUP) \<noteq> 0 \<longleftrightarrow> bit w 3 \<or> bit w 4"
    "w AND (EPOLLIN OR EPOLLOUT) = 0 \<longleftrightarrow> \<not> bit w 0 \<and> \<not> bit w 2"
    by (simp_all only: epoll_defs and_or_zero flip: and_pow_bit) auto
  moreover have "bit (w OR (EPOLLIN OR EPOLLOUT)) 0" "bit (w OR (EPOLLIN OR EPOLLOUT)) 2"
    using b by (simp_all add: epoll_defs bit_or_iff)
  ultimately show "bit (what_of w) 0 \<longleftrightarrow> bit w 0 \<or> \<not> bit w 2" "bit (what_of w) 2 \<longleftrightarrow> bit w 2 \<or> \<not> bit w 0"
    by (auto simp: what_of_def)
qed

lemma fired_mask_of_bits: "fired_mask_of w = (if bit w 0 then 1 else 0) + (if bit w 2 then 2 else 0)"
  unfolding fired_mask_of_def epoll_defs ae_defs Let_def and_pow_bit by simp

lemma reported_correct:
  assumes "w AND (EPOLLIN OR EPOLLOUT OR EPOLLERR OR EPOLLHUP) \<noteq> 0"
  shows "fired_mask_of (what_of w) = reported w"
  unfolding fired_mask_of_bits what_of_bits [OF assms] reported_def ..

lemma reported_nonzero: "reported w \<noteq> 0"
  by (simp add: reported_def)

section \<open>The watched descriptors\<close>

text \<open>
  What the manual promises of \<^verbatim>\<open>epoll_ctl\<close>: there is a table of watched descriptors with their events; \<open>ADD\<close> needs
  an unwatched descriptor and may also fail for other reasons, \<open>MOD\<close> and \<open>DEL\<close> need a watched one; a failure
  leaves the table alone.
\<close>

fun ctl_effect :: "epoll_op \<Rightarrow> int \<Rightarrow> u32 \<Rightarrow> (int \<rightharpoonup> u32) \<Rightarrow> (int \<rightharpoonup> u32) option" where
  "ctl_effect EPOLL_CTL_ADD fd ev W = (if W fd = None then Some (W(fd \<mapsto> ev)) else None)"
| "ctl_effect EPOLL_CTL_MOD fd ev W = (if W fd \<noteq> None then Some (W(fd \<mapsto> ev)) else None)"
| "ctl_effect EPOLL_CTL_DEL fd ev W = (if W fd \<noteq> None then Some (W(fd := None)) else None)"

definition epoll_kernel :: "'k os \<Rightarrow> int \<Rightarrow> ('k \<Rightarrow> int \<rightharpoonup> u32) \<Rightarrow> bool" where
  "epoll_kernel os ep W \<longleftrightarrow> (\<forall>k op fd ev. case os_epoll_ctl os k ep op fd ev of (k', r) \<Rightarrow>
     (case ctl_effect op fd ev (W k) of
        None \<Rightarrow> r = - 1 \<and> W k' = W k
      | Some W' \<Rightarrow> r = 0 \<and> W k' = W' \<or> op = EPOLL_CTL_ADD \<and> r = - 1 \<and> W k' = W k))"

lemma epoll_kernelD:
  assumes "epoll_kernel os ep W" "os_epoll_ctl os k ep op fd ev = (k', r)"
  shows "case ctl_effect op fd ev (W k) of
        None \<Rightarrow> r = - 1 \<and> W k' = W k
      | Some W' \<Rightarrow> r = 0 \<and> W k' = W' \<or> op = EPOLL_CTL_ADD \<and> r = - 1 \<and> W k' = W k"
  using assms unfolding epoll_kernel_def by (metis (mono_tags, lifting) case_prod_conv)

text \<open>What is watched for a mask of the loop: nothing for \<^verbatim>\<open>AE_NONE\<close>.\<close>

definition watch_of :: "int \<Rightarrow> u32 option" where
  "watch_of msk = (if msk = AE_NONE then None else Some (ee_events msk))"

lemma ezApiAddEvent_spec:
  assumes "epoll_kernel os (epfd (apidata el)) W" "W (kern el) fd = watch_of old_mask" "msk OR old_mask \<noteq> AE_NONE"
  shows "\<exists>k. ezApiAddEvent os el fd msk old_mask = (el\<lparr>kern := k\<rparr>, 0)
        \<and> W k = (W (kern el))(fd := watch_of (msk OR old_mask))
    \<or> old_mask = AE_NONE \<and> ezApiAddEvent os el fd msk old_mask = (el\<lparr>kern := k\<rparr>, - 1) \<and> W k = W (kern el)"
proof -
  let ?op = "if old_mask = AE_NONE then EPOLL_CTL_ADD else EPOLL_CTL_MOD"
  obtain k r where kr: "os_epoll_ctl os (kern el) (epfd (apidata el)) ?op fd (ee_events (msk OR old_mask)) = (k, r)"
    by fastforce
  have "ctl_effect ?op fd (ee_events (msk OR old_mask)) (W (kern el)) = Some ((W (kern el))(fd := watch_of (msk OR old_mask)))"
    using assms(2,3) by (simp add: watch_of_def)
  with epoll_kernelD [OF assms(1) kr]
  have "r = 0 \<and> W k = (W (kern el))(fd := watch_of (msk OR old_mask)) \<or> old_mask = AE_NONE \<and> r = - 1 \<and> W k = W (kern el)"
    by (auto split: if_splits)
  then show ?thesis using kr by (auto simp: ezApiAddEvent_def AE_OK_def intro!: exI [of _ k])
qed

lemma ezApiDelEvent_spec:
  assumes "epoll_kernel os (epfd (apidata el)) W" "W (kern el) fd = watch_of old_mask" "old_mask \<noteq> AE_NONE"
  shows "\<exists>k. ezApiDelEvent os el fd msk old_mask = el\<lparr>kern := k\<rparr>
    \<and> W k = (W (kern el))(fd := watch_of (old_mask AND NOT msk))"
proof -
  let ?rest = "old_mask AND NOT msk"
  let ?op = "if ?rest \<noteq> AE_NONE then EPOLL_CTL_MOD else EPOLL_CTL_DEL"
  obtain k r where kr: "os_epoll_ctl os (kern el) (epfd (apidata el)) ?op fd (ee_events ?rest) = (k, r)"
    by fastforce
  have "ctl_effect ?op fd (ee_events ?rest) (W (kern el)) = Some ((W (kern el))(fd := watch_of ?rest))"
    using assms(2,3) by (simp add: watch_of_def)
  with epoll_kernelD [OF assms(1) kr] have "W k = (W (kern el))(fd := watch_of ?rest)"
    by (auto split: if_splits)
  then show ?thesis using kr by (auto simp: ezApiDelEvent_def intro!: exI [of _ k])
qed

section \<open>Waiting\<close>

text \<open>The states of the system between which waits are interrupted by signals.\<close>

inductive interrupted :: "'k os \<Rightarrow> int \<Rightarrow> int \<Rightarrow> int \<Rightarrow> 'k \<Rightarrow> 'k \<Rightarrow> bool" for os ep n t where
  calm: "interrupted os ep n t k k"
| signal: "os_epoll_wait os k ep n t = (k', - 1, EINTR, []) \<Longrightarrow> interrupted os ep n t k' k''
    \<Longrightarrow> interrupted os ep n t k k''"

lemma epoll_wait_loop_spec:
  assumes "interrupted os (epfd (apidata el)) (setsize el) t (kern el) k1"
    and "os_epoll_wait os k1 (epfd (apidata el)) (setsize el) t = (k, r, err, evs)" "r \<noteq> - 1 \<or> err \<noteq> EINTR"
  shows "epoll_wait_loop os el t =
    Some (el\<lparr>apidata := (apidata el)\<lparr>events := evs @ drop (length evs) (events (apidata el))\<rparr>, kern := k\<rparr>, r)"
proof -
  define ep and n where "ep = epfd (apidata el)" and "n = setsize el"
  have "interrupted os ep n t k0 k1 \<Longrightarrow> k0 = kern el \<Longrightarrow> epfd (apidata el) = ep \<Longrightarrow> setsize el = n \<Longrightarrow>
    os_epoll_wait os k1 ep n t = (k, r, err, evs) \<Longrightarrow> epoll_wait_loop os el t =
    Some (el\<lparr>apidata := (apidata el)\<lparr>events := evs @ drop (length evs) (events (apidata el))\<rparr>, kern := k\<rparr>, r)" for k0
  proof (induction arbitrary: el rule: interrupted.induct)
    case (calm k)
    then show ?case
      using assms(3) by (subst epoll_wait_loop.simps) (auto simp: epoll_wait_once_def Let_def)
  next
    case (signal k0 k' k'')
    have "epoll_wait_loop os el t = epoll_wait_loop os (el\<lparr>kern := k'\<rparr>) t"
      using signal.hyps(1) signal.prems by (subst epoll_wait_loop.simps) (simp add: epoll_wait_once_def Let_def)
    with signal.IH [of "el\<lparr>kern := k'\<rparr>"] signal.prems show ?case by simp
  qed
  with assms(1,2) show ?thesis unfolding ep_def n_def by blast
qed

abbreviation is_user :: "int \<Rightarrow> u32 \<times> int \<Rightarrow> bool" where
  "is_user ev e \<equiv> snd e \<noteq> ev"

definition fired_of :: "u32 \<times> int \<Rightarrow> fired_event" where
  "fired_of e = \<lparr>fired_fd = snd e, fired_mask = reported (fst e)\<rparr>"

definition signalled :: "u32 \<Rightarrow> bool" where
  "signalled w \<longleftrightarrow> w AND (EPOLLIN OR EPOLLOUT OR EPOLLERR OR EPOLLHUP) \<noteq> 0"

lemma cmd_keeps [simp]:
  "apidata (ezApiDoEventfdCmd os el) = apidata el" "fired (ezApiDoEventfdCmd os el) = fired el"
  "ezApiDoEventfdCmd os (el\<lparr>fired := f\<rparr>) = (ezApiDoEventfdCmd os el)\<lparr>fired := f\<rparr>"
  by (simp_all add: ezApiDoEventfdCmd_def Let_def case_prod_unfold)

lemma cmds_fired [simp]:
  "(ezApiDoEventfdCmd os ^^ c) (el\<lparr>fired := f\<rparr>) = ((ezApiDoEventfdCmd os ^^ c) el)\<lparr>fired := f\<rparr>"
  "fired ((ezApiDoEventfdCmd os ^^ c) el) = fired el"
  by (induction c) simp_all

lemma poll_events_spec:
  assumes "\<forall>j \<in> set js. j < length (events (apidata el)) \<and> signalled (fst (events (apidata el) ! j))"
    and "es = map ((!) (events (apidata el))) js" and "i + length (filter (is_user (evfd (apidata el))) es) \<le> length (fired el)"
  shows "poll_events os el i n js = Some (((ezApiDoEventfdCmd os ^^ length (filter (Not \<circ> is_user (evfd (apidata el))) es)) el)
      \<lparr>fired := take i (fired el) @ map fired_of (filter (is_user (evfd (apidata el))) es)
         @ drop (i + length (filter (is_user (evfd (apidata el))) es)) (fired el)\<rparr>,
      n - int (length (filter (Not \<circ> is_user (evfd (apidata el))) es)))"
  using assms
proof (induction js arbitrary: el i n es)
  case Nil
  then show ?case by simp
next
  case (Cons j js)
  obtain w fd where e: "events (apidata el) ! j = (w, fd)" by fastforce
  then have j: "j < length (events (apidata el))" and m: "fired_mask_of (what_of w) = reported w"
    using Cons.prems(1) reported_correct [of w] by (auto simp: signalled_def)
  show ?case
  proof (cases "fd = evfd (apidata el)")
    case True
    have "poll_events os el i n (j # js) = poll_events os (ezApiDoEventfdCmd os el) i (n - 1) js"
      using j e m True reported_nonzero by simp
    with Cons.IH [of "ezApiDoEventfdCmd os el" _ i "n - 1", OF _ refl] Cons.prems e True show ?thesis
      by (simp add: funpow_swap1)
  next
    case False
    define el1 where "el1 = el\<lparr>fired := (fired el)[i := \<lparr>fired_fd = fd, fired_mask = reported w\<rparr>]\<rparr>"
    have i: "i < length (fired el)" using Cons.prems(2,3) e False by simp
    have "poll_events os el i n (j # js) = poll_events os el1 (i + 1) n js"
      using j e m False reported_nonzero i by (simp add: el1_def)
    moreover have "take (Suc i) ((fired el)[i := x]) = take i (fired el) @ [x]" for x
      using i by (simp add: take_Suc_conv_app_nth)
    ultimately show ?thesis
      using Cons.IH [of el1 _ "i + 1" n, OF _ refl] Cons.prems e False by (simp add: el1_def fired_of_def)
  qed
qed

lemma ezApiPoll_spec:
  assumes t: "t = (if timeout < 0 then - 1 else timeout)"
    and wait: "interrupted os (epfd (apidata el)) (setsize el) t (kern el) k1"
      "os_epoll_wait os k1 (epfd (apidata el)) (setsize el) t = (k, int (length evs), err, evs)"
    and evs: "\<forall>e \<in> set evs. signalled (fst e)" "length evs \<le> length (fired el)"
  defines "user \<equiv> filter (is_user (evfd (apidata el))) evs"
  shows "ezApiPoll os el timeout =
    Some (((ezApiDoEventfdCmd os ^^ (length evs - length user))
      (el\<lparr>apidata := (apidata el)\<lparr>events := evs @ drop (length evs) (events (apidata el))\<rparr>, kern := k\<rparr>))
        \<lparr>fired := map fired_of user @ drop (length user) (fired el)\<rparr>, int (length user))"
proof -
  let ?el = "el\<lparr>apidata := (apidata el)\<lparr>events := evs @ drop (length evs) (events (apidata el))\<rparr>, kern := k\<rparr>"
  have w: "epoll_wait_loop os el t = Some (?el, int (length evs))"
    by (rule epoll_wait_loop_spec [OF wait]) simp
  have es: "map ((!) (events (apidata ?el))) [0..<length evs] = evs"
    by (rule nth_equalityI) (simp_all add: nth_append)
  have ul: "length user \<le> length evs" by (simp add: user_def)
  have cl: "length (filter (Not \<circ> is_user (evfd (apidata el))) evs) = length evs - length user"
    using sum_length_filter_compl [of "is_user (evfd (apidata el))" evs] by (simp add: user_def comp_def)
  have "poll_events os ?el 0 (int (length evs)) [0..<length evs] = Some (((ezApiDoEventfdCmd os ^^ (length evs - length user)) ?el)
        \<lparr>fired := map fired_of user @ drop (length user) (fired el)\<rparr>, int (length user))"
    using poll_events_spec [of "[0..<length evs]" ?el evs 0 os "int (length evs)"] es evs ul cl
      le_trans [OF ul evs(2)]
    by (simp add: user_def nth_append of_nat_diff)
  with w show ?thesis
    unfolding ezApiPoll_def t [symmetric] Let_def by (auto simp: user_def)
qed

section \<open>The command counter\<close>

text \<open>
  What the manual promises of a non-blocking \<^verbatim>\<open>eventfd\<close>: a write adds to a counter, as long as it stays below its
  bound, and a read takes all of it.
\<close>

definition eventfd_counter :: "'k os \<Rightarrow> int \<Rightarrow> ('k \<Rightarrow> u64) \<Rightarrow> bool" where
  "eventfd_counter os fd cnt \<longleftrightarrow>
     (\<forall>k v. unat (cnt k) + unat v < 2 ^ 64 - 1 \<longrightarrow> cnt (os_eventfd_write os k fd v) = cnt k + v)
   \<and> (\<forall>k. snd (os_eventfd_read os k fd) = (if cnt k = 0 then None else Some (cnt k)))"

lemma stop_counts:
  assumes "eventfd_counter os (evfd (apidata el)) cnt" "cnt (kern el) = 0" "n < 2 ^ 56"
  shows "\<exists>k. (ezApiStop os ^^ n) el = el\<lparr>kern := k\<rparr> \<and> unat (cnt k) = 255 * n"
  using assms(3)
proof (induction n)
  case 0
  then show ?case using assms(2) by (intro exI [of _ "kern el"]) simp
next
  case (Suc n)
  then obtain k where k: "(ezApiStop os ^^ n) el = el\<lparr>kern := k\<rparr>" "unat (cnt k) = 255 * n" by auto
  have c: "unat (cnt k) + unat STOP_CMD < 2 ^ 64 - 1" using k(2) Suc.prems by (simp add: STOP_CMD_def)
  then have "unat (cnt k + STOP_CMD) = unat (cnt k) + unat STOP_CMD"
    by (intro unat_add_lem [THEN iffD1]) simp
  moreover have "cnt (os_eventfd_write os k (evfd (apidata el)) STOP_CMD) = cnt k + STOP_CMD"
    using assms(1) c by (simp add: eventfd_counter_def)
  moreover have "(ezApiStop os ^^ Suc n) el = el\<lparr>kern := os_eventfd_write os k (evfd (apidata el)) STOP_CMD\<rparr>"
    unfolding funpow.simps comp_def k(1) by (simp add: ezApiStop_def)
  ultimately show ?case using k(2) by (intro exI conjI) (assumption, simp add: STOP_CMD_def)
qed

lemma stop_command_read:
  assumes "eventfd_counter os (evfd (apidata el)) cnt"
  shows "stop (ezApiDoEventfdCmd os el) = (if cnt (kern el) = STOP_CMD then 1 else stop el)"
proof -
  have "snd (os_eventfd_read os (kern el) (evfd (apidata el))) = (if cnt (kern el) = 0 then None else Some (cnt (kern el)))"
    using assms by (simp add: eventfd_counter_def)
  then show ?thesis
    by (cases "os_eventfd_read os (kern el) (evfd (apidata el))") (simp add: ezApiDoEventfdCmd_def STOP_CMD_def Let_def)
qed

section \<open>Property\<close>

text \<open>The commands a poll has read, when the command descriptor is reported at most once.\<close>

definition command_read :: "'k os \<Rightarrow> 'k \<Rightarrow> int \<Rightarrow> (u32 \<times> int) list \<Rightarrow> 'k \<times> bool" where
  "command_read os k ev evs =
     (if ev \<in> snd ` set evs then (case os_eventfd_read os k ev of (k', r) \<Rightarrow> (k', r = Some 255)) else (k, False))"

text \<open>
  C16: \<^verbatim>\<open>ezApiPoll\<close> waits again as long as signals interrupt it, then writes into \<^verbatim>\<open>fired\<close>, from its beginning and in
  the kernel's order, exactly the answered descriptors other than its own command descriptor, each with the right
  mask (error and hang-up alone count as readable and writable), answers their number, stays within both arrays, and
  sets \<^verbatim>\<open>stop\<close> if and only if the command descriptor was reported and held 0xFF.
\<close>

theorem ezApiPoll_correct:
  assumes "t = (if timeout < 0 then - 1 else timeout)"
    and "interrupted os (epfd (apidata el)) (setsize el) t (kern el) kw"
    and "os_epoll_wait os kw (epfd (apidata el)) (setsize el) t = (k, int (length evs), err, evs)"
    and "\<forall>e \<in> set evs. signalled (fst e)" "length evs \<le> length (fired el)" "distinct (map snd evs)"
    and "user = filter (\<lambda>e. snd e \<noteq> evfd (apidata el)) evs"
  shows "\<exists>el'. ezApiPoll os el timeout = Some (el', int (length user))
    \<and> fired el' = map (\<lambda>(w, fd). \<lparr>fired_fd = fd, fired_mask = reported w\<rparr>) user @ drop (length user) (fired el)
    \<and> kern el' = fst (command_read os k (evfd (apidata el)) evs)
    \<and> stop el' = (if snd (command_read os k (evfd (apidata el)) evs) then 1 else stop el)
    \<and> files el' = files el \<and> rbnodes el' = rbnodes el \<and> timers el' = timers el \<and> tlinks el' = tlinks el"
proof -
  let ?ev = "evfd (apidata el)"
  let ?el = "el\<lparr>apidata := (apidata el)\<lparr>events := evs @ drop (length evs) (events (apidata el))\<rparr>, kern := k\<rparr>"
  note poll = ezApiPoll_spec [OF assms(1-5), folded assms(7)]
  have f: "map (\<lambda>(w, fd). \<lparr>fired_fd = fd, fired_mask = reported w\<rparr>) user = map fired_of user"
    by (simp add: fired_of_def case_prod_unfold)
  have cmds: "length evs - length user = length (filter (\<lambda>e. snd e = ?ev) evs)"
    using sum_length_filter_compl [of "\<lambda>e. snd e = ?ev" evs] by (simp add: assms(7))
  have "length (filter (\<lambda>e. snd e = ?ev) evs) = (if ?ev \<in> snd ` set evs then 1 else 0)"
    using assms(6) by (induction evs) (auto simp: image_iff filter_empty_conv)
  then have one: "length evs - length user = (if ?ev \<in> snd ` set evs then 1 else 0)" by (simp only: cmds)
  show ?thesis
  proof (cases "?ev \<in> snd ` set evs")
    case True
    obtain k' r where kr: "os_eventfd_read os k ?ev = (k', r)" by fastforce
    show ?thesis unfolding poll one f using True kr
      by (auto simp: command_read_def ezApiDoEventfdCmd_def STOP_CMD_def split: option.splits)
  next
    case False
    then show ?thesis unfolding poll one f by (simp add: command_read_def)
  qed
qed

text \<open>A system whose wait is interrupted once, then answers a readable descriptor, a hang-up and a command.\<close>

definition demo_epoll_os :: "nat os" where
  "demo_epoll_os = \<lparr>os_gettimeofday = (\<lambda>k. (k, 0, 5000)), os_time = (\<lambda>k. (k, 7)), os_epoll_ctl = (\<lambda>k ep op fd ev. (k, 0)),
     os_epoll_wait = (\<lambda>k ep n t. if k = 0 then (1, - 1, EINTR, []) else (2, 3, 0, [(1, 7), (16, 8), (1, 4)])),
     os_eventfd_read = (\<lambda>k fd. (3, Some 255)),
     os_eventfd_write = (\<lambda>k fd v. k), os_epoll_create = (\<lambda>k. (k, 3)), os_eventfd = (\<lambda>k. (k, 4)), os_close = (\<lambda>k fd. k)\<rparr>"

definition demo_epoll_loop :: "nat event_loop" where
  "demo_epoll_loop = \<lparr>loop_at = 896, stop = 0,
     apidata = \<lparr>api_at = 1, epfd = 3, evfd = 4, events_at = 2, events = replicate 4 (0, 0)\<rparr>, setsize = 4, ev_count = 0,
     rbtree_events = \<lparr>root = 944, sentinel = 944, node_cmp_proc = (\<lambda>a b. 0)\<rparr>, free_events = NULL,
     lastTime = 7, timeNextId = 2, time_events = 1000, fired_at = 4,
     fired = replicate 4 \<lparr>fired_fd = 0, fired_mask = 0\<rparr>, files = Map.empty, rbnodes = Map.empty,
     timers = Map.empty, tlinks = [1000 \<mapsto> \<lparr>nxt = 1000, prv = 1000\<rparr>], kern = 0\<rparr>"

theorem ezApiPoll_correct_witness:
  "\<exists>el'. ezApiPoll demo_epoll_os demo_epoll_loop (- 5) = Some (el', 2) \<and> stop el' = 1
    \<and> take 2 (fired el') = [\<lparr>fired_fd = 7, fired_mask = 1\<rparr>, \<lparr>fired_fd = 8, fired_mask = 3\<rparr>]"
proof -
  have i: "interrupted demo_epoll_os 3 4 (- 1) 0 1"
    by (rule signal [OF _ calm]) (simp add: demo_epoll_os_def)
  have s: "\<forall>e \<in> set [(1, 7), (16, 8), (1 :: u32, 4 :: int)]. signalled (fst e)"
    by (simp add: signalled_def epoll_defs)
  have r: "reported 1 = 1" "reported 16 = 3" by (simp_all add: reported_def)
  have c: "command_read demo_epoll_os 2 4 [(1, 7), (16, 8), (1, 4)] = (3, True)"
    by (simp add: command_read_def demo_epoll_os_def)
  have l: "epfd (apidata demo_epoll_loop) = 3" "evfd (apidata demo_epoll_loop) = 4" "setsize demo_epoll_loop = 4"
    "kern demo_epoll_loop = 0" "length (fired demo_epoll_loop) = 4"
    by (simp_all add: demo_epoll_loop_def)
  have w: "os_epoll_wait demo_epoll_os 1 3 4 (- 1) = (2, int (length [(1, 7), (16, 8), (1 :: u32, 4 :: int)]), 0,
      [(1, 7), (16, 8), (1, 4)])"
    by (simp add: demo_epoll_os_def)
  have p: "\<exists>el'. ezApiPoll demo_epoll_os demo_epoll_loop (- 5) = Some (el', int (length [(1, 7), (16 :: u32, 8 :: int)]))
    \<and> fired el' = map (\<lambda>(w, fd). \<lparr>fired_fd = fd, fired_mask = reported w\<rparr>) [(1, 7), (16, 8)]
        @ drop (length [(1, 7), (16 :: u32, 8 :: int)]) (fired demo_epoll_loop)
    \<and> kern el' = fst (command_read demo_epoll_os 2 (evfd (apidata demo_epoll_loop)) [(1, 7), (16, 8), (1, 4)])
    \<and> stop el' = (if snd (command_read demo_epoll_os 2 (evfd (apidata demo_epoll_loop)) [(1, 7), (16, 8), (1, 4)])
        then 1 else stop demo_epoll_loop)
    \<and> files el' = files demo_epoll_loop \<and> rbnodes el' = rbnodes demo_epoll_loop
    \<and> timers el' = timers demo_epoll_loop \<and> tlinks el' = tlinks demo_epoll_loop"
    by (rule ezApiPoll_correct [where t = "- 1" and kw = 1 and err = 0])
      (unfold l, simp, rule i, rule w, rule s, simp_all)
  then show ?thesis unfolding l c by (auto simp: r)
qed

end
