(* ===== verification/Ez_File.thy ===== *)
theory Ez_File
  imports Ez_Epoll
begin

text \<open>
  The file events of \<^verbatim>\<open>src/ez_event.c\<close>: one record per descriptor in a red-black tree ordered by descriptor, removed
  records kept in a list for reuse, and the kernel's table of watched descriptors kept in step with the tree.
\<close>

unbundle bit_operations_syntax

section \<open>The operations\<close>

definition zero_node :: rbnode where
  "zero_node = \<lparr>left = NULL, right = NULL, parent = NULL, color = 0\<rparr>"

definition zero_file :: file_event where
  "zero_file = \<lparr>fe_fd = 0, fe_mask = 0, rfileProc = NULL, wfileProc = NULL, fe_clientData = NULL\<rparr>"

text \<open>The descriptor of the file event that a tree node is part of.\<close>

definition fd_at :: "(addr \<rightharpoonup> file_event) \<Rightarrow> addr \<Rightarrow> int" where
  "fd_at fs node = (case fs (cast_to_file_event node) of None \<Rightarrow> 0 | Some e \<Rightarrow> fe_fd e)"

definition file_event_compare_proc :: "(addr \<rightharpoonup> file_event) \<Rightarrow> addr \<Rightarrow> addr \<Rightarrow> int" where
  "file_event_compare_proc fs newNode existNode =
     (if fd_at fs newNode > fd_at fs existNode then 1
      else if fd_at fs newNode < fd_at fs existNode then - 1 else 0)"

definition file_event_find_compare_proc :: "(addr \<rightharpoonup> file_event) \<Rightarrow> int \<Rightarrow> addr \<Rightarrow> int" where
  "file_event_find_compare_proc fs fd node =
     (if fd_at fs node = fd then 0 else if fd_at fs node > fd then 1 else - 1)"

text \<open>The tree of the loop; its comparison reads the file events as they are at the time of the call.\<close>

definition tree_of :: "'k event_loop \<Rightarrow> rbtree" where
  "tree_of el = (rbtree_events el)\<lparr>node_cmp_proc := file_event_compare_proc (files el)\<rparr>"

definition ez_fund_file_event :: "'k event_loop \<Rightarrow> int \<Rightarrow> addr option" where
  "ez_fund_file_event el fd = do {
     n \<leftarrow> rbtree_find_node (rbnodes el) (tree_of el) (file_event_find_compare_proc (files el) fd);
     Some (if n = NULL then NULL else cast_to_file_event n)
   }"

definition put_to_free_file_events :: "'k event_loop \<Rightarrow> addr \<Rightarrow> 'k event_loop option" where
  "put_to_free_file_events el e =
     (if e = NULL then Some el
      else do {
        m \<leftarrow> wr (rbnodes el) (fnode_of e) (\<lambda>n. n\<lparr>parent := free_events el\<rparr>);
        Some (el\<lparr>rbnodes := m, free_events := fnode_of e\<rparr>)
      })"

definition zero_event :: "'k event_loop \<Rightarrow> addr \<Rightarrow> 'k event_loop" where
  "zero_event el fe = el\<lparr>files := (files el)(fe \<mapsto> zero_file), rbnodes := (rbnodes el)(fnode_of fe \<mapsto> zero_node)\<rparr>"

definition free_file :: "'k event_loop \<Rightarrow> addr \<Rightarrow> 'k event_loop option" where
  "free_file el fe =
     (if fe = NULL then Some el else if files el fe = None then None
      else Some (el\<lparr>files := (files el)(fe := None), rbnodes := (rbnodes el)(fnode_of fe := None)\<rparr>))"

definition set_file :: "'k event_loop \<Rightarrow> addr \<Rightarrow> (file_event \<Rightarrow> file_event) \<Rightarrow> 'k event_loop option" where
  "set_file el fe f = do { fs \<leftarrow> wr (files el) fe f; Some (el\<lparr>files := fs\<rparr>) }"

text \<open>A record from the free list, or a new one: \<open>a\<close> is the answer of the allocation, whose block is zero.\<close>

definition take_file_event :: "'k event_loop \<Rightarrow> addr \<Rightarrow> ('k event_loop \<times> addr) option" where
  "take_file_event el a =
     (if free_events el \<noteq> NULL then do {
        let fe = cast_to_file_event (free_events el);
        p \<leftarrow> rd parent (rbnodes el) (free_events el);
        let el = el\<lparr>free_events := p\<rparr>;
        (if files el fe = None then None else Some (zero_event el fe, fe))
      }
      else if a = NULL then Some (el, NULL) else Some (zero_event el a, a))"

definition set_proc :: "'k event_loop \<Rightarrow> addr \<Rightarrow> int \<Rightarrow> addr \<Rightarrow> 'k event_loop option" where
  "set_proc el fe msk proc =
     (if msk = AE_READABLE then set_file el fe (\<lambda>e. e\<lparr>rfileProc := proc\<rparr>)
      else if msk = AE_WRITABLE then set_file el fe (\<lambda>e. e\<lparr>wfileProc := proc\<rparr>)
      else Some el)"

definition fill_event :: "'k event_loop \<Rightarrow> addr \<Rightarrow> int \<Rightarrow> int \<Rightarrow> addr \<Rightarrow> addr \<Rightarrow> 'k event_loop option" where
  "fill_event el fe fd msk proc clientData = do {
     el \<leftarrow> set_file el fe (\<lambda>e. e\<lparr>fe_fd := fd\<rparr>);
     el \<leftarrow> set_file el fe (\<lambda>e. e\<lparr>fe_mask := msk\<rparr>);
     el \<leftarrow> set_proc el fe msk proc;
     set_file el fe (\<lambda>e. e\<lparr>fe_clientData := clientData\<rparr>)
   }"

definition create_new_event ::
    "'k os \<Rightarrow> 'k event_loop \<Rightarrow> int \<Rightarrow> int \<Rightarrow> addr \<Rightarrow> addr \<Rightarrow> addr \<Rightarrow> ('k event_loop \<times> int) option" where
  "create_new_event os el fd msk proc clientData a =
     (if ev_count el \<ge> setsize el then Some (el, AE_ERR)
      else do {
        (el, fe) \<leftarrow> take_file_event el a;
        el \<leftarrow> fill_event el fe fd msk proc clientData;
        let (el, r) = ezApiAddEvent os el fd msk AE_NONE;
        (if r = - 1 then do { el \<leftarrow> free_file el fe; Some (el, AE_ERR) }
         else do {
           let el = el\<lparr>ev_count := ev_count el + 1\<rparr>;
           (m, tr) \<leftarrow> rbtree_insert (rbnodes el) (tree_of el) (fnode_of fe);
           Some (el\<lparr>rbnodes := m, rbtree_events := tr\<rparr>, AE_OK)
         })
      })"

definition update_event :: "'k event_loop \<Rightarrow> addr \<Rightarrow> int \<Rightarrow> addr \<Rightarrow> addr \<Rightarrow> 'k event_loop option" where
  "update_event el fe msk proc clientData = do {
     el \<leftarrow> set_file el fe (\<lambda>e. e\<lparr>fe_mask := fe_mask e OR msk\<rparr>);
     el \<leftarrow> set_proc el fe msk proc;
     cd \<leftarrow> rd fe_clientData (files el) fe;
     (if clientData \<noteq> NULL \<and> cd \<noteq> clientData then set_file el fe (\<lambda>e. e\<lparr>fe_clientData := clientData\<rparr>)
      else Some el)
   }"

definition extend_event ::
    "'k os \<Rightarrow> 'k event_loop \<Rightarrow> addr \<Rightarrow> int \<Rightarrow> int \<Rightarrow> addr \<Rightarrow> addr \<Rightarrow> ('k event_loop \<times> int) option" where
  "extend_event os el fe fd msk proc clientData = do {
     oldmask \<leftarrow> rd fe_mask (files el) fe;
     let (el, r) = ezApiAddEvent os el fd msk oldmask;
     (if r = - 1 then Some (el, AE_ERR)
      else do { el \<leftarrow> update_event el fe msk proc clientData; Some (el, AE_OK) })
   }"

definition ez_create_file_event ::
    "'k os \<Rightarrow> 'k event_loop \<Rightarrow> int \<Rightarrow> int \<Rightarrow> addr \<Rightarrow> addr \<Rightarrow> addr \<Rightarrow> ('k event_loop \<times> int) option" where
  "ez_create_file_event os el fd msk proc clientData a =
     (if msk = AE_NONE then Some (el, AE_ERR)
      else do {
        fe \<leftarrow> ez_fund_file_event el fd;
        (if fe = NULL then create_new_event os el fd msk proc clientData a
         else extend_event os el fe fd msk proc clientData)
      })"

definition ez_delete_file_event :: "'k os \<Rightarrow> 'k event_loop \<Rightarrow> int \<Rightarrow> int \<Rightarrow> 'k event_loop option" where
  "ez_delete_file_event os el fd msk =
     (if fd \<ge> setsize el then Some el
      else do {
        fe \<leftarrow> ez_fund_file_event el fd;
        (if fe = NULL then Some el
         else do {
           oldmask \<leftarrow> rd fe_mask (files el) fe;
           (if oldmask = AE_NONE then Some el
            else do {
              let el = ezApiDelEvent os el fd msk oldmask;
              el \<leftarrow> set_file el fe (\<lambda>e. e\<lparr>fe_mask := fe_mask e AND NOT msk\<rparr>);
              rest \<leftarrow> rd fe_mask (files el) fe;
              (if rest = AE_NONE then do {
                 (m, tr) \<leftarrow> rbtree_delete (rbnodes el) (tree_of el) (fnode_of fe);
                 let el = el\<lparr>rbnodes := m, rbtree_events := tr, ev_count := ev_count el - 1\<rparr>;
                 put_to_free_file_events el fe
               }
               else Some el)
            })
         })
      })"

section \<open>The table of file events\<close>

text \<open>
  \<open>file_table el xs ys\<close>: the tree of the loop holds the records \<open>xs\<close>, in the order of their descriptors and with no
  descriptor twice, and the free list holds the records \<open>ys\<close>; no record is in both.
\<close>

definition fd_of :: "'k event_loop \<Rightarrow> addr \<Rightarrow> int" where
  "fd_of el x = (case files el x of None \<Rightarrow> 0 | Some e \<Rightarrow> fe_fd e)"

primrec free_chain :: "rbmem \<Rightarrow> addr \<Rightarrow> addr list \<Rightarrow> bool" where
  "free_chain m p [] \<longleftrightarrow> p = NULL"
| "free_chain m p (y # ys) \<longleftrightarrow> p = fnode_of y \<and> (\<exists>q. rd parent m p = Some q \<and> free_chain m q ys)"

definition file_table :: "'k event_loop \<Rightarrow> addr list \<Rightarrow> addr list \<Rightarrow> bool" where
  "file_table el xs ys \<longleftrightarrow>
     rb_index (fd_at (files el)) (rbnodes el, tree_of el) (map fnode_of xs)
     \<and> distinct (map (fd_of el) xs) \<and> ev_count el = int (length xs)
     \<and> (\<forall>x \<in> set xs. \<exists>e. files el x = Some e \<and> fe_mask e \<noteq> AE_NONE)
     \<and> free_chain (rbnodes el) (free_events el) ys \<and> (\<forall>y \<in> set ys. files el y \<noteq> None)
     \<and> distinct (xs @ ys) \<and> sentinel (rbtree_events el) \<notin> fnode_of ` set (xs @ ys) \<and> files el NULL = None"

text \<open>The map from descriptors to file events that the table stands for.\<close>

definition registered :: "'k event_loop \<Rightarrow> addr list \<Rightarrow> (int \<rightharpoonup> file_event)" where
  "registered el xs = map_of (map (\<lambda>x. (fd_of el x, the (files el x))) xs)"

lemma fd_at_node [simp]: "fd_at (files el) (fnode_of x) = fd_of el x"
  by (simp add: fd_at_def fd_of_def)

lemma key_order_tree: "key_order (fd_at (files el)) (tree_of el)"
  by (simp add: key_order_def tree_of_def file_event_compare_proc_def)

lemma tree_of_sel [simp]: "root (tree_of el) = root (rbtree_events el)" "sentinel (tree_of el) = sentinel (rbtree_events el)"
  by (simp_all add: tree_of_def)

lemma rb_index_frame:
  assumes "rb_index key (m, tr) ns" "agree_on (insert (sentinel tr) (set ns)) m m'"
    and "root tr' = root tr" "sentinel tr' = sentinel tr" "key_order key' tr'" "\<And>p. p \<in> set ns \<Longrightarrow> key' p = key p"
  shows "rb_index key' (m', tr') ns"
proof -
  from assms(1) obtain t sp where R: "rep (sentinel tr) sp m m (root tr) t" "rb_tree t" "nodes t = ns"
    "sorted (map key ns)" by (auto simp: rb_index_def)
  have "m' (sentinel tr) = m (sentinel tr)" "agree_on (set (nodes t)) m m'"
    using assms(2) R(3) by (auto simp: agree_on_def)
  then have "rep (sentinel tr') sp m' m' (root tr') t"
    using R(1) tree_at_cong [of t m m'] assms(3,4) unfolding rep_def by auto
  moreover have "map key' ns = map key ns" using assms(6) by simp
  ultimately have "rep (sentinel tr') sp m' m' (root tr') t" "map key' ns = map key ns" by auto
  then show ?thesis using R(2-4) assms(5) unfolding rb_index_def by (simp only: prod.case) blast
qed

lemma free_chain_cong:
  "free_chain m p ys \<Longrightarrow> (\<And>y. y \<in> set ys \<Longrightarrow> m' (fnode_of y) = m (fnode_of y)) \<Longrightarrow> free_chain m' p ys"
  by (induction ys arbitrary: p) (auto simp: rd_def)

lemma registered_iff:
  assumes "file_table el xs ys"
  shows "registered el xs fd = Some e \<longleftrightarrow> (\<exists>x \<in> set xs. files el x = Some e \<and> fe_fd e = fd)"
proof -
  have live: "\<forall>x \<in> set xs. \<exists>e. files el x = Some e" using assms by (auto simp: file_table_def)
  have "distinct (map fst (map (\<lambda>x. (fd_of el x, the (files el x))) xs))"
    using assms by (simp add: file_table_def comp_def)
  then have "registered el xs fd = Some e \<longleftrightarrow> (\<exists>x \<in> set xs. fd = fd_of el x \<and> e = the (files el x))"
    unfolding registered_def by (subst map_of_eq_Some_iff) auto
  also have "\<dots> \<longleftrightarrow> (\<exists>x \<in> set xs. files el x = Some e \<and> fe_fd e = fd)"
    using live by (force simp: fd_of_def)
  finally show ?thesis .
qed

lemma registered_None:
  "registered el xs fd = None \<longleftrightarrow> fd \<notin> fd_of el ` set xs"
  by (simp add: registered_def map_of_eq_None_iff image_image)

lemma ez_fund_file_event_spec:
  assumes "file_table el xs ys"
  shows "\<exists>fe. ez_fund_file_event el fd = Some fe
    \<and> (if fd \<in> fd_of el ` set xs then fe \<in> set xs \<and> fd_of el fe = fd else fe = NULL)"
proof -
  have idx: "rb_index (fd_at (files el)) (rbnodes el, tree_of el) (map fnode_of xs)"
    using assms by (simp add: file_table_def)
  have "sgn (file_event_find_compare_proc (files el) fd p) = sgn (fd_at (files el) p - fd)" for p
    by (simp add: file_event_find_compare_proc_def)
  from rbtree_find_index [OF idx this]
  obtain n where n: "rbtree_find_node (rbnodes el) (tree_of el) (file_event_find_compare_proc (files el) fd) = Some n"
    "if fd \<in> fd_at (files el) ` set (map fnode_of xs) then n \<in> set (map fnode_of xs) \<and> fd_at (files el) n = fd else n = NULL"
    by blast
  have im: "fd_at (files el) ` set (map fnode_of xs) = fd_of el ` set xs" by (simp add: image_image)
  show ?thesis
  proof (cases "fd \<in> fd_of el ` set xs")
    case True
    with n(2) im obtain x where "x \<in> set xs" "n = fnode_of x" "fd_of el x = fd" by auto
    with n(1) True show ?thesis by (simp add: ez_fund_file_event_def)
  next
    case False
    with n im show ?thesis by (simp add: ez_fund_file_event_def)
  qed
qed

text \<open>A block that the allocator may answer: not in use for a file event.\<close>

definition fresh_file :: "'k event_loop \<Rightarrow> addr \<Rightarrow> bool" where
  "fresh_file el a \<longleftrightarrow> a \<noteq> NULL \<and> files el a = None \<and> fnode_of a \<noteq> sentinel (rbtree_events el)"

lemma take_file_event_spec:
  assumes tab: "file_table el xs ys" and a: "fresh_file el a"
  shows "\<exists>p fe ys'. take_file_event el a = Some (zero_event (el\<lparr>free_events := p\<rparr>) fe, fe)
    \<and> free_chain (rbnodes el) p ys' \<and> set ys' \<subseteq> set ys \<and> distinct (fe # xs @ ys') \<and> fe \<noteq> NULL
    \<and> fnode_of fe \<noteq> sentinel (rbtree_events el) \<and> insert fe (set ys') = insert fe (set ys)"
proof (cases ys)
  case Nil
  then have "take_file_event el a = Some (zero_event (el\<lparr>free_events := NULL\<rparr>) a, a)"
    using tab a by (auto simp: file_table_def take_file_event_def fresh_file_def zero_event_def)
  moreover have "a \<notin> set xs" using tab a by (auto simp: file_table_def fresh_file_def)
  ultimately show ?thesis
    using tab a Nil by (intro exI [of _ NULL] exI [of _ a] exI [of _ "[]"]) (auto simp: file_table_def fresh_file_def)
next
  case (Cons y zs)
  then obtain q where y: "free_events el = fnode_of y" "rd parent (rbnodes el) (fnode_of y) = Some q"
    "free_chain (rbnodes el) q zs" "files el y \<noteq> None" "files el NULL = None"
    using tab by (auto simp: file_table_def)
  have "take_file_event el a = Some (zero_event (el\<lparr>free_events := q\<rparr>) y, y)"
    using y by (simp add: take_file_event_def)
  moreover have "y \<noteq> NULL" using y(4,5) by (intro notI) simp
  ultimately show ?thesis
    using tab y(3) Cons by (intro exI [of _ q] exI [of _ y] exI [of _ zs]) (auto simp: file_table_def)
qed

text \<open>The record that a first registration fills in, and what a further one makes of it.\<close>

definition new_record :: "int \<Rightarrow> int \<Rightarrow> addr \<Rightarrow> addr \<Rightarrow> file_event" where
  "new_record fd msk proc clientData = \<lparr>fe_fd = fd, fe_mask = msk,
     rfileProc = (if msk = AE_READABLE then proc else NULL), wfileProc = (if msk = AE_WRITABLE then proc else NULL),
     fe_clientData = clientData\<rparr>"

definition extended :: "file_event \<Rightarrow> int \<Rightarrow> addr \<Rightarrow> addr \<Rightarrow> file_event" where
  "extended e msk proc clientData = \<lparr>fe_fd = fe_fd e, fe_mask = fe_mask e OR msk,
     rfileProc = (if msk = AE_READABLE then proc else rfileProc e),
     wfileProc = (if msk = AE_WRITABLE then proc else wfileProc e),
     fe_clientData = (if clientData \<noteq> NULL then clientData else fe_clientData e)\<rparr>"



lemma set_file_live: "files el fe = Some e \<Longrightarrow> set_file el fe f = Some (el\<lparr>files := (files el)(fe \<mapsto> f e)\<rparr>)"
  by (simp add: set_file_def mem_simps)

lemma set_file_again [simp]: "set_file (el\<lparr>files := fs(fe \<mapsto> e)\<rparr>) fe f = Some (el\<lparr>files := fs(fe \<mapsto> f e)\<rparr>)"
  by (simp add: set_file_def mem_simps)

definition filled :: "'k event_loop \<Rightarrow> addr \<Rightarrow> addr \<Rightarrow> file_event \<Rightarrow> 'k event_loop" where
  "filled el p fe e = el\<lparr>free_events := p, files := (files el)(fe \<mapsto> e), rbnodes := (rbnodes el)(fnode_of fe \<mapsto> zero_node)\<rparr>"

lemma create_new_event_eq:
  assumes "ev_count el < setsize el" "take_file_event el a = Some (zero_event (el\<lparr>free_events := p\<rparr>) fe, fe)"
  shows "create_new_event os el fd msk proc cd a =
    (let (el, r) = ezApiAddEvent os (filled el p fe (new_record fd msk proc cd)) fd msk AE_NONE in
     if r = - 1 then do { el \<leftarrow> free_file el fe; Some (el, AE_ERR) }
     else do {
       let el = el\<lparr>ev_count := ev_count el + 1\<rparr>;
       (m, tr) \<leftarrow> rbtree_insert (rbnodes el) (tree_of el) (fnode_of fe);
       Some (el\<lparr>rbnodes := m, rbtree_events := tr\<rparr>, AE_OK)
     })"
proof -
  have "fill_event (zero_event (el\<lparr>free_events := p\<rparr>) fe) fe fd msk proc cd
    = Some (filled el p fe (new_record fd msk proc cd))"
    by (simp add: fill_event_def zero_event_def set_file_live set_proc_def filled_def new_record_def zero_file_def ae_defs)
  then show ?thesis using assms unfolding create_new_event_def by simp
qed

lemma update_event_eq:
  assumes "files el fe = Some e"
  shows "update_event el fe msk proc cd = Some (el\<lparr>files := (files el)(fe \<mapsto> extended e msk proc cd)\<rparr>)"
proof -
  obtain i k r w d where e: "e = \<lparr>fe_fd = i, fe_mask = k, rfileProc = r, wfileProc = w, fe_clientData = d\<rparr>"
    by (cases e)
  let ?e1 = "e\<lparr>fe_mask := fe_mask e OR msk\<rparr>"
  let ?e2 = "if msk = AE_READABLE then ?e1\<lparr>rfileProc := proc\<rparr> else if msk = AE_WRITABLE then ?e1\<lparr>wfileProc := proc\<rparr> else ?e1"
  let ?el1 = "el\<lparr>files := (files el)(fe \<mapsto> ?e1)\<rparr>" and ?el2 = "el\<lparr>files := (files el)(fe \<mapsto> ?e2)\<rparr>"
  have "set_file el fe (\<lambda>e. e\<lparr>fe_mask := fe_mask e OR msk\<rparr>) = Some ?el1"
    by (rule set_file_live [OF assms])
  moreover have "set_proc ?el1 fe msk proc = Some ?el2"
    unfolding set_proc_def by simp
  moreover have "rd fe_clientData (files ?el2) fe = Some d" by (simp add: e)
  ultimately have u: "update_event el fe msk proc cd = (if cd \<noteq> NULL \<and> d \<noteq> cd
      then set_file ?el2 fe (\<lambda>e. e\<lparr>fe_clientData := cd\<rparr>) else Some ?el2)"
    unfolding update_event_def by (simp only: bind.bind_lunit)
  have "set_file ?el2 fe (\<lambda>e. e\<lparr>fe_clientData := cd\<rparr>) = Some (el\<lparr>files := (files el)(fe \<mapsto> ?e2\<lparr>fe_clientData := cd\<rparr>)\<rparr>)"
    by (rule set_file_again)
  moreover have "extended e msk proc cd = (if cd \<noteq> NULL \<and> d \<noteq> cd then ?e2\<lparr>fe_clientData := cd\<rparr> else ?e2)"
    by (simp add: extended_def e ae_defs)
  ultimately show ?thesis unfolding u by simp
qed

lemma extend_event_eq:
  assumes "files el fe = Some e"
  shows "extend_event os el fe fd msk proc cd =
    (let (el, r) = ezApiAddEvent os el fd msk (fe_mask e) in
     if r = - 1 then Some (el, AE_ERR)
     else Some (el\<lparr>files := (files el)(fe \<mapsto> extended e msk proc cd)\<rparr>, AE_OK))"
proof -
  obtain k r where add: "ezApiAddEvent os el fd msk (fe_mask e) = (el\<lparr>kern := k\<rparr>, r)"
    unfolding ezApiAddEvent_def Let_def case_prod_unfold by blast
  show ?thesis
    using update_event_eq [of "el\<lparr>kern := k\<rparr>" fe e] assms unfolding extend_event_def
    by (simp add: add rd_def)
qed

section \<open>Keeping the table\<close>

lemma file_table_frame:
  assumes tab: "file_table el xs ys"
    and tr: "root (rbtree_events el') = root (rbtree_events el)" "sentinel (rbtree_events el') = sentinel (rbtree_events el)"
    and m: "agree_on (insert (sentinel (rbtree_events el)) (fnode_of ` set xs)) (rbnodes el) (rbnodes el')"
    and fs: "\<forall>x \<in> set xs. \<exists>e. files el' x = Some e \<and> fe_fd e = fd_of el x \<and> fe_mask e \<noteq> AE_NONE" "files el' NULL = None"
    and ys: "free_chain (rbnodes el') (free_events el') ys'" "set ys' \<subseteq> set ys" "distinct (xs @ ys')"
      "\<forall>y \<in> set ys'. files el' y \<noteq> None"
    and c: "ev_count el' = ev_count el"
  shows "file_table el' xs ys'"
proof -
  have same: "fd_of el' x = fd_of el x" if "x \<in> set xs" for x using fs(1) that by (force simp: fd_of_def)
  then have fds: "map (fd_of el') xs = map (fd_of el) xs" by simp
  have "rb_index (fd_at (files el')) (rbnodes el', tree_of el') (map fnode_of xs)"
  proof (rule rb_index_frame)
    show "rb_index (fd_at (files el)) (rbnodes el, tree_of el) (map fnode_of xs)" using tab by (simp add: file_table_def)
  qed (use m tr same key_order_tree in auto)
  moreover have "sentinel (rbtree_events el') \<notin> fnode_of ` set (xs @ ys')"
    using tab ys(2) tr(2) by (auto simp: file_table_def)
  moreover have "ev_count el' = int (length xs)" "distinct (map (fd_of el) xs)"
    using tab c by (simp_all add: file_table_def)
  moreover have "\<forall>x \<in> set xs. \<exists>e. files el' x = Some e \<and> fe_mask e \<noteq> AE_NONE" using fs(1) by blast
  ultimately show ?thesis using fs(2) ys unfolding file_table_def fds by simp
qed

lemma insert_by_fd:
  "takeWhile (\<lambda>p. fd_at (files el) p \<le> k) (map fnode_of xs) @ fnode_of fe # dropWhile (\<lambda>p. fd_at (files el) p \<le> k) (map fnode_of xs)
    = map fnode_of (takeWhile (\<lambda>x. fd_of el x \<le> k) xs @ fe # dropWhile (\<lambda>x. fd_of el x \<le> k) xs)"
  by (simp add: takeWhile_map dropWhile_map comp_def)

lemma file_table_insert:
  assumes tab: "file_table el xs ys" and fe: "files el fe = Some e" "fe_mask e \<noteq> AE_NONE" "fe \<notin> set (xs @ ys)"
    and new: "fe_fd e \<notin> fd_of el ` set xs" and n: "rbnodes el (fnode_of fe) = Some n" "fnode_of fe \<noteq> sentinel (rbtree_events el)"
  shows "\<exists>m tr xs'. rbtree_insert (rbnodes el) (tree_of el) (fnode_of fe) = Some (m, tr) \<and> set xs' = insert fe (set xs)
    \<and> file_table (el\<lparr>ev_count := ev_count el + 1, rbnodes := m, rbtree_events := tr\<rparr>) xs' ys
    \<and> sentinel tr = sentinel (rbtree_events el)"
proof -
  let ?us = "takeWhile (\<lambda>x. fd_of el x \<le> fd_of el fe) xs" and ?vs = "dropWhile (\<lambda>x. fd_of el x \<le> fd_of el fe) xs"
  let ?xs = "?us @ fe # ?vs" and ?s = "sentinel (rbtree_events el)"
  have idx: "rb_index (fd_at (files el)) (rbnodes el, tree_of el) (map fnode_of xs)"
    using tab by (simp add: file_table_def)
  have "fnode_of fe \<notin> insert (sentinel (tree_of el)) (set (map fnode_of xs))" using fe(3) n(2) by auto
  from rbtree_insert_index [OF idx n(1) this] obtain m tr
    where ins: "rbtree_insert (rbnodes el) (tree_of el) (fnode_of fe) = Some (m, tr)" and tr: "sentinel tr = ?s"
      and fr: "agree_on (- insert ?s (insert (fnode_of fe) (set (map fnode_of xs)))) (rbnodes el) m"
      and idx': "rb_index (fd_at (files el)) (m, tr) (map fnode_of ?xs)"
    by (auto simp: insert_by_fd)
  define el' where "el' = el\<lparr>ev_count := ev_count el + 1, rbnodes := m, rbtree_events := tr\<rparr>"
  have sel: "files el' = files el" "rbnodes el' = m" "rbtree_events el' = tr" "free_events el' = free_events el"
    "ev_count el' = ev_count el + 1" "fd_of el' = fd_of el"
    by (simp_all add: el'_def fd_of_def fun_eq_iff)
  have xs: "mset ?xs = mset (fe # xs)"
    by (metis mset_append takeWhile_dropWhile_id mset.simps(2) union_mset_add_mset_right)
  then have setx: "set ?xs = insert fe (set xs)" by (metis list.set(2) set_mset_mset)
  have len: "length ?xs = Suc (length xs)" using xs by (metis length_Cons size_mset)
  have "tree_of el' = tr\<lparr>node_cmp_proc := file_event_compare_proc (files el)\<rparr>" by (simp add: tree_of_def sel)
  then have "rb_index (fd_at (files el')) (rbnodes el', tree_of el') (map fnode_of ?xs)"
    by (intro rb_index_frame [OF idx']) (use key_order_tree [of el'] in \<open>auto simp: sel\<close>)
  moreover have "distinct (map (fd_of el') ?xs)"
  proof -
    have "fd_of el fe = fe_fd e" using fe(1) by (simp add: fd_of_def)
    then have "distinct (map (fd_of el) (fe # xs))" using tab new by (simp add: file_table_def)
    moreover have "mset (map (fd_of el) ?xs) = mset (map (fd_of el) (fe # xs))" by (metis mset_map xs)
    ultimately show ?thesis unfolding sel by (metis mset_eq_imp_distinct_iff)
  qed
  moreover have "distinct (?xs @ ys)"
  proof -
    have "distinct (fe # xs @ ys)" using tab fe(3) by (simp add: file_table_def)
    moreover have "mset (?xs @ ys) = mset (fe # xs @ ys)" by (metis xs mset_append append_Cons)
    ultimately show ?thesis by (metis mset_eq_imp_distinct_iff)
  qed
  moreover have "free_chain (rbnodes el') (free_events el') ys"
  proof (rule free_chain_cong)
    show "free_chain (rbnodes el) (free_events el') ys" using tab by (simp add: file_table_def sel)
    fix y assume "y \<in> set ys"
    moreover have "?s \<notin> fnode_of ` set (xs @ ys)" using tab by (simp add: file_table_def)
    ultimately have "fnode_of y \<noteq> ?s" by (metis UnCI image_eqI set_append)
    then have "fnode_of y \<in> - insert ?s (insert (fnode_of fe) (set (map fnode_of xs)))"
      using tab fe(3) \<open>y \<in> set ys\<close> by (auto simp: file_table_def)
    then show "rbnodes el' (fnode_of y) = rbnodes el (fnode_of y)" using agree_onD [OF fr] sel by simp
  qed
  moreover have "sentinel (rbtree_events el') \<notin> fnode_of ` set (?xs @ ys)"
    using tab n(2) tr sel setx unfolding file_table_def set_append by auto
  ultimately have "file_table el' ?xs ys"
    using tab fe(1,2) unfolding file_table_def setx len sel(1,5) by simp
  then show ?thesis using ins tr setx unfolding el'_def by blast
qed


section \<open>Registration\<close>

text \<open>
  The kernel watches exactly the registered descriptors, with their masks; the command descriptor is the loop's own
  business.
\<close>

definition mirrored :: "('k \<Rightarrow> int \<rightharpoonup> u32) \<Rightarrow> 'k event_loop \<Rightarrow> addr list \<Rightarrow> bool" where
  "mirrored W el xs \<longleftrightarrow> (\<forall>fd. fd \<noteq> evfd (apidata el) \<longrightarrow>
     W (kern el) fd = (case registered el xs fd of None \<Rightarrow> None | Some e \<Rightarrow> watch_of (fe_mask e)))"

text \<open>No file event is live but those in the tree and those in the free list.\<close>

definition full :: "'k event_loop \<Rightarrow> addr list \<Rightarrow> addr list \<Rightarrow> bool" where
  "full el xs ys \<longleftrightarrow> dom (files el) = set xs \<union> set ys"

lemma registered_update:
  assumes "file_table el xs ys" "file_table el' xs' ys'" "set xs' = insert fe (set xs)"
    and "files el' fe = Some e" "\<And>x. x \<in> set xs \<Longrightarrow> x \<noteq> fe \<Longrightarrow> files el' x = files el x"
    and "fe \<in> set xs \<Longrightarrow> fd_of el fe = fe_fd e"
  shows "registered el' xs' = (registered el xs)(fe_fd e \<mapsto> e)"
proof
  fix fd
  have uniq: "x = fe" if "x \<in> set xs'" "fd_of el' x = fe_fd e" for x
  proof -
    have "inj_on (fd_of el') (set xs')" using assms(2) by (simp add: file_table_def distinct_map)
    moreover have "fd_of el' fe = fe_fd e" using assms(4) by (simp add: fd_of_def)
    ultimately show ?thesis using that assms(3) by (metis inj_onD insertI1)
  qed
  have "registered el' xs' fd = Some v \<longleftrightarrow> ((registered el xs)(fe_fd e \<mapsto> e)) fd = Some v" for v
  proof (cases "fd = fe_fd e")
    case True
    have "x = fe" if "x \<in> set xs'" "files el' x = Some v" "fe_fd v = fe_fd e" for x
      using uniq [OF that(1)] that(2,3) by (simp add: fd_of_def)
    then have "(\<exists>x \<in> set xs'. files el' x = Some v \<and> fe_fd v = fe_fd e) \<longleftrightarrow> v = e"
      using assms(3,4) by (metis insertI1 option.inject)
    then show ?thesis unfolding registered_iff [OF assms(2)] True by auto
  next
    case False
    have "x \<in> set xs' \<and> files el' x = Some v \<and> fe_fd v = fd \<longleftrightarrow> x \<in> set xs \<and> files el x = Some v \<and> fe_fd v = fd" for x
    proof (cases "x = fe")
      case True
      have "fd_of el fe = fd" if "files el fe = Some v" "fe_fd v = fd" using that by (simp add: fd_of_def)
      then show ?thesis using True assms(4,6) False by auto
    next
      case False
      then show ?thesis using assms(3) assms(5) [of x] by auto
    qed
    then have "(\<exists>x \<in> set xs'. files el' x = Some v \<and> fe_fd v = fd) \<longleftrightarrow> (\<exists>x \<in> set xs. files el x = Some v \<and> fe_fd v = fd)"
      by blast
    then show ?thesis using False unfolding registered_iff [OF assms(2)] fun_upd_apply
      by (simp only: registered_iff [OF assms(1)] if_False)
  qed
  then show "registered el' xs' fd = ((registered el xs)(fe_fd e \<mapsto> e)) fd" by (metis not_Some_eq)
qed

lemma mirrored_update:
  assumes "mirrored W el xs" "apidata el' = apidata el" "W (kern el') = (W (kern el))(fd := watch_of (fe_mask e))"
    and "registered el' xs' = (registered el xs)(fd \<mapsto> e)"
  shows "mirrored W el' xs'"
  using assms by (auto simp: mirrored_def)

lemma or_nonzero: "(a :: int) \<noteq> 0 \<Longrightarrow> a OR b \<noteq> 0" "b \<noteq> 0 \<Longrightarrow> a OR (b :: int) \<noteq> 0"
  by (simp_all add: or_eq_0_iff)

text \<open>What a registration makes of the entry of its descriptor.\<close>

definition merged :: "file_event option \<Rightarrow> int \<Rightarrow> int \<Rightarrow> addr \<Rightarrow> addr \<Rightarrow> file_event" where
  "merged old fd msk proc cd =
     (case old of None \<Rightarrow> new_record fd msk proc cd | Some e \<Rightarrow> extended e msk proc cd)"

lemma extend_event_spec:
  assumes tab: "file_table el xs ys" and mir: "mirrored W el xs" and ker: "epoll_kernel os (epfd (apidata el)) W"
    and msk: "msk \<noteq> AE_NONE" and fd: "fd \<noteq> evfd (apidata el)"
    and fe: "fe \<in> set xs" "files el fe = Some e" "fe_fd e = fd"
  shows "\<exists>k. extend_event os el fe fd msk proc cd =
      Some (el\<lparr>kern := k, files := (files el)(fe \<mapsto> extended e msk proc cd)\<rparr>, AE_OK)
    \<and> file_table (el\<lparr>kern := k, files := (files el)(fe \<mapsto> extended e msk proc cd)\<rparr>) xs ys
    \<and> mirrored W (el\<lparr>kern := k, files := (files el)(fe \<mapsto> extended e msk proc cd)\<rparr>) xs
    \<and> registered (el\<lparr>kern := k, files := (files el)(fe \<mapsto> extended e msk proc cd)\<rparr>) xs
      = (registered el xs)(fd \<mapsto> extended e msk proc cd)"
proof -
  have reg: "registered el xs fd = Some e" using fe by (auto simp: registered_iff [OF tab])
  have m: "fe_mask e \<noteq> AE_NONE" using tab fe(1,2) by (auto simp: file_table_def)
  have W: "W (kern el) fd = watch_of (fe_mask e)" using mir fd reg by (simp add: mirrored_def)
  have nz: "msk OR fe_mask e \<noteq> AE_NONE" using or_nonzero(1) msk by (simp add: AE_NONE_def)
  obtain k where add: "ezApiAddEvent os el fd msk (fe_mask e) = (el\<lparr>kern := k\<rparr>, 0)"
    and W': "W k = (W (kern el))(fd := watch_of (fe_mask (extended e msk proc cd)))"
    using ezApiAddEvent_spec [OF ker W nz] m by (auto simp: extended_def or.commute)
  define el' where "el' = el\<lparr>kern := k, files := (files el)(fe \<mapsto> extended e msk proc cd)\<rparr>"
  have sel: "files el' = (files el)(fe \<mapsto> extended e msk proc cd)" "kern el' = k" "rbnodes el' = rbnodes el"
    "rbtree_events el' = rbtree_events el" "free_events el' = free_events el" "ev_count el' = ev_count el"
    "apidata el' = apidata el"
    by (simp_all add: el'_def)
  have out: "fe \<notin> set ys" "fe \<noteq> NULL" using tab fe(1,2) by (auto simp: file_table_def)
  have ext: "fe_fd (extended e msk proc cd) = fd" "fe_mask (extended e msk proc cd) \<noteq> AE_NONE"
    using fe(3) nz by (simp_all add: extended_def or.commute)
  have tab': "file_table el' xs ys"
  proof (rule file_table_frame [OF tab])
    show "\<forall>x \<in> set xs. \<exists>e. files el' x = Some e \<and> fe_fd e = fd_of el x \<and> fe_mask e \<noteq> AE_NONE"
      using tab fe ext unfolding sel by (auto simp: file_table_def fd_of_def)
    show "\<forall>y \<in> set ys. files el' y \<noteq> None" "files el' NULL = None" "free_chain (rbnodes el') (free_events el') ys"
      "distinct (xs @ ys)"
      using tab out unfolding sel by (auto simp: file_table_def)
  qed (simp_all add: sel)
  have "registered el' xs = (registered el xs)(fe_fd (extended e msk proc cd) \<mapsto> extended e msk proc cd)"
    by (rule registered_update [OF tab tab', of fe]) (use fe ext in \<open>auto simp: sel fd_of_def\<close>)
  then have reg': "registered el' xs = (registered el xs)(fd \<mapsto> extended e msk proc cd)" unfolding ext .
  then have "mirrored W el' xs" using W' by (intro mirrored_update [OF mir]) (simp_all add: sel)
  moreover have "extend_event os el fe fd msk proc cd = Some (el', AE_OK)"
    unfolding extend_event_eq [OF fe(2)] add Let_def el'_def by simp
  ultimately show ?thesis using tab' reg' unfolding el'_def by blast
qed

lemma create_new_event_spec:
  assumes tab: "file_table el xs ys" and mir: "mirrored W el xs" and ker: "epoll_kernel os (epfd (apidata el)) W"
    and msk: "msk \<noteq> AE_NONE" and fd: "fd \<noteq> evfd (apidata el)" and a: "fresh_file el a"
    and new: "registered el xs fd = None"
  shows "\<exists>el' r xs' ys'. create_new_event os el fd msk proc cd a = Some (el', r)
    \<and> file_table el' xs' ys' \<and> mirrored W el' xs' \<and> apidata el' = apidata el \<and> setsize el' = setsize el
    \<and> (r = AE_OK \<and> registered el' xs' = (registered el xs)(fd \<mapsto> new_record fd msk proc cd)
       \<or> r = AE_ERR \<and> registered el' xs' = registered el xs)
    \<and> (setsize el \<le> int (length xs) \<longrightarrow> r = AE_ERR) \<and> (full el xs ys \<longrightarrow> full el' xs' ys')"
proof (cases "ev_count el < setsize el")
  case False
  then show ?thesis using tab mir
    by (intro exI [of _ el] exI [of _ AE_ERR] exI [of _ xs] exI [of _ ys]) (simp add: create_new_event_def)
next
  case True
  obtain p fe ys' where take: "take_file_event el a = Some (zero_event (el\<lparr>free_events := p\<rparr>) fe, fe)"
    and ch: "free_chain (rbnodes el) p ys'" "set ys' \<subseteq> set ys" "distinct (fe # xs @ ys')" "fe \<noteq> NULL"
      "fnode_of fe \<noteq> sentinel (rbtree_events el)" and ys': "insert fe (set ys') = insert fe (set ys)"
    using take_file_event_spec [OF tab a] by blast
  define e where "e = new_record fd msk proc cd"
  have e: "fe_fd e = fd" "fe_mask e = msk" by (simp_all add: e_def new_record_def)
  define el1 where "el1 = filled el p fe e"
  have sel: "files el1 = (files el)(fe \<mapsto> e)" "kern el1 = kern el" "rbnodes el1 = (rbnodes el)(fnode_of fe \<mapsto> zero_node)"
    "rbtree_events el1 = rbtree_events el" "free_events el1 = p" "ev_count el1 = ev_count el"
    "apidata el1 = apidata el" "setsize el1 = setsize el"
    by (simp_all add: el1_def filled_def)
  have chain: "free_chain (rbnodes el1) p ys'"
    by (rule free_chain_cong [OF ch(1)]) (use ch(3) in \<open>auto simp: sel\<close>)
  have tab1: "file_table (el1\<lparr>kern := k\<rparr>) xs ys'" for k
  proof (rule file_table_frame [OF tab])
    show "\<forall>x \<in> set xs. \<exists>e. files (el1\<lparr>kern := k\<rparr>) x = Some e \<and> fe_fd e = fd_of el x \<and> fe_mask e \<noteq> AE_NONE"
      using tab ch(3) by (auto simp: file_table_def fd_of_def sel)
    show "\<forall>y \<in> set ys'. files (el1\<lparr>kern := k\<rparr>) y \<noteq> None" using tab ch(2) by (auto simp: file_table_def sel)
    show "files (el1\<lparr>kern := k\<rparr>) NULL = None" using tab ch(4) by (simp add: file_table_def sel)
    show "agree_on (insert (sentinel (rbtree_events el)) (fnode_of ` set xs)) (rbnodes el) (rbnodes (el1\<lparr>kern := k\<rparr>))"
      using ch(3,5) by (auto simp: sel)
  qed (use ch chain in \<open>simp_all add: sel\<close>)
  have W: "W (kern el1) fd = watch_of AE_NONE" using mir fd new by (simp add: mirrored_def watch_of_def sel)
  have nz: "msk OR AE_NONE \<noteq> AE_NONE" using msk by (simp add: AE_NONE_def)
  have ker1: "epoll_kernel os (epfd (apidata el1)) W" using ker by (simp add: sel)
  have nofd: "fd \<notin> fd_of el ` set xs" using new by (simp add: registered_None)
  note eq = create_new_event_eq [OF True take, of os fd msk proc cd, folded e_def, folded el1_def]
  have old: "fd_of (el1\<lparr>kern := k\<rparr>) x = fd_of el x" if "x \<in> set xs" for x k using that ch(3) by (auto simp: fd_of_def sel)
  from ezApiAddEvent_spec [OF ker1 W nz] consider
      k where "ezApiAddEvent os el1 fd msk AE_NONE = (el1\<lparr>kern := k\<rparr>, 0)" "W k = (W (kern el))(fd := watch_of msk)"
    | k where "ezApiAddEvent os el1 fd msk AE_NONE = (el1\<lparr>kern := k\<rparr>, - 1)" "W k = W (kern el)"
    by (auto simp: sel AE_NONE_def)
  then show ?thesis
  proof cases
    case 1
    let ?el = "el1\<lparr>kern := k\<rparr>"
    have pre: "files ?el fe = Some e" "fe_mask e \<noteq> AE_NONE" "fe \<notin> set (xs @ ys')" "rbnodes ?el (fnode_of fe) = Some zero_node"
      "fnode_of fe \<noteq> sentinel (rbtree_events ?el)" "fe_fd e \<notin> fd_of ?el ` set xs"
      using ch e msk nofd old by (auto simp: sel)
    from file_table_insert [OF tab1 pre(1-3,6,4,5)] obtain m tr xs'
      where ins: "rbtree_insert (rbnodes ?el) (tree_of ?el) (fnode_of fe) = Some (m, tr)" and xs': "set xs' = insert fe (set xs)"
        and tab2: "file_table (?el\<lparr>ev_count := ev_count ?el + 1, rbnodes := m, rbtree_events := tr\<rparr>) xs' ys'" by blast
    define el' where "el' = ?el\<lparr>ev_count := ev_count ?el + 1, rbnodes := m, rbtree_events := tr\<rparr>"
    have "tree_of (?el\<lparr>ev_count := ev_count ?el + 1\<rparr>) = tree_of ?el" by (simp add: tree_of_def)
    then have run: "create_new_event os el fd msk proc cd a = Some (el', AE_OK)"
      unfolding eq using 1(1) ins by (simp add: el'_def)
    have "registered el' xs' = (registered el xs)(fe_fd e \<mapsto> e)"
      by (rule registered_update [OF tab tab2 [folded el'_def] xs']) (use ch(3) in \<open>auto simp: el'_def sel\<close>)
    then have reg: "registered el' xs' = (registered el xs)(fd \<mapsto> e)" unfolding e .
    have "mirrored W el' xs'"
      by (rule mirrored_update [OF mir _ _ reg]) (simp_all add: el'_def sel 1(2) e)
    moreover have "\<not> setsize el \<le> int (length xs)" using True tab by (simp add: file_table_def)
    moreover have "full el xs ys \<longrightarrow> full el' xs' ys'" using ys' by (auto simp: full_def el'_def sel xs')
    ultimately show ?thesis using run reg tab2
      unfolding e_def by (intro exI [of _ el'] exI [of _ AE_OK] exI [of _ xs'] exI [of _ ys']) (simp add: el'_def sel)
  next
    case 2
    define el' where "el' = el1\<lparr>kern := k, files := (files el1)(fe := None), rbnodes := (rbnodes el1)(fnode_of fe := None)\<rparr>"
    have run: "create_new_event os el fd msk proc cd a = Some (el', AE_ERR)"
      unfolding eq using 2(1) ch(4) by (simp add: free_file_def el'_def sel AE_ERR_def)
    have tab2: "file_table el' xs ys'"
    proof (rule file_table_frame [OF tab1 [of k]])
      show "\<forall>x \<in> set xs. \<exists>e. files el' x = Some e \<and> fe_fd e = fd_of (el1\<lparr>kern := k\<rparr>) x \<and> fe_mask e \<noteq> AE_NONE"
        using tab1 [of k] ch(3) by (auto simp: file_table_def fd_of_def el'_def)
      show "\<forall>y \<in> set ys'. files el' y \<noteq> None" using tab1 [of k] ch(3) by (auto simp: file_table_def el'_def)
      show "files el' NULL = None" using tab1 [of k] by (simp add: file_table_def el'_def)
      show "free_chain (rbnodes el') (free_events el') ys'"
        unfolding el'_def by (simp add: sel(5)) (rule free_chain_cong [OF chain], use ch(3) in \<open>auto simp: sel\<close>)
      show "agree_on (insert (sentinel (rbtree_events (el1\<lparr>kern := k\<rparr>))) (fnode_of ` set xs))
          (rbnodes (el1\<lparr>kern := k\<rparr>)) (rbnodes el')"
        using ch(3,5) by (auto simp: sel el'_def agree_on_def)
    qed (use ch in \<open>simp_all add: el'_def\<close>)
    have "map (\<lambda>x. (fd_of el' x, the (files el' x))) xs = map (\<lambda>x. (fd_of el x, the (files el x))) xs"
      using ch(3) by (auto simp: el'_def sel fd_of_def)
    then have reg: "registered el' xs = registered el xs" by (simp only: registered_def)
    have "kern el' = k" "apidata el' = apidata el" by (simp_all add: el'_def sel)
    then have "mirrored W el' xs" using mir 2(2) by (simp add: mirrored_def reg)
    moreover have "full el xs ys \<longrightarrow> full el' xs ys'" using ys' ch(3) by (auto simp: full_def el'_def sel)
    ultimately show ?thesis using run reg tab2
      by (intro exI [of _ el'] exI [of _ AE_ERR] exI [of _ xs] exI [of _ ys']) (simp add: el'_def sel)
  qed
qed

lemma ez_create_file_event_spec:
  assumes tab: "file_table el xs ys" and mir: "mirrored W el xs" and ker: "epoll_kernel os (epfd (apidata el)) W"
    and msk: "msk \<noteq> AE_NONE" and fd: "fd \<noteq> evfd (apidata el)" and a: "fresh_file el a"
  shows "\<exists>el' r xs' ys'. ez_create_file_event os el fd msk proc cd a = Some (el', r)
    \<and> file_table el' xs' ys' \<and> mirrored W el' xs' \<and> apidata el' = apidata el \<and> setsize el' = setsize el
    \<and> (r = AE_OK \<and> registered el' xs' = (registered el xs)(fd \<mapsto> merged (registered el xs fd) fd msk proc cd)
       \<or> r = AE_ERR \<and> registered el' xs' = registered el xs \<and> registered el xs fd = None)
    \<and> (registered el xs fd = None \<and> setsize el \<le> int (length xs) \<longrightarrow> r = AE_ERR) \<and> (full el xs ys \<longrightarrow> full el' xs' ys')"
proof -
  obtain fe where find: "ez_fund_file_event el fd = Some fe"
    and res: "if fd \<in> fd_of el ` set xs then fe \<in> set xs \<and> fd_of el fe = fd else fe = NULL"
    using ez_fund_file_event_spec [OF tab, of fd] by blast
  show ?thesis
  proof (cases "fd \<in> fd_of el ` set xs")
    case True
    with res have fe: "fe \<in> set xs" "fd_of el fe = fd" by auto
    then obtain e where e: "files el fe = Some e" using tab by (auto simp: file_table_def)
    then have "fe_fd e = fd" "fe \<noteq> NULL" using fe(2) tab by (auto simp: fd_of_def file_table_def)
    then have "registered el xs fd = Some e" using fe e by (auto simp: registered_iff [OF tab])
    moreover have "ez_create_file_event os el fd msk proc cd a = extend_event os el fe fd msk proc cd"
      using find msk \<open>fe \<noteq> NULL\<close> by (simp add: ez_create_file_event_def)
    moreover obtain k where ext: "extend_event os el fe fd msk proc cd =
        Some (el\<lparr>kern := k, files := (files el)(fe \<mapsto> extended e msk proc cd)\<rparr>, AE_OK)"
      "file_table (el\<lparr>kern := k, files := (files el)(fe \<mapsto> extended e msk proc cd)\<rparr>) xs ys"
      "mirrored W (el\<lparr>kern := k, files := (files el)(fe \<mapsto> extended e msk proc cd)\<rparr>) xs"
      "registered (el\<lparr>kern := k, files := (files el)(fe \<mapsto> extended e msk proc cd)\<rparr>) xs
        = (registered el xs)(fd \<mapsto> extended e msk proc cd)"
      using extend_event_spec [OF tab mir ker msk fd fe(1) e \<open>fe_fd e = fd\<close>, of proc cd] by blast
    moreover have "full el xs ys \<longrightarrow> full (el\<lparr>kern := k, files := (files el)(fe \<mapsto> extended e msk proc cd)\<rparr>) xs ys"
      using fe(1) by (auto simp: full_def)
    ultimately show ?thesis unfolding merged_def
      by (intro exI [of _ "el\<lparr>kern := k, files := (files el)(fe \<mapsto> extended e msk proc cd)\<rparr>"] exI [of _ AE_OK]
          exI [of _ xs] exI [of _ ys]) simp
  next
    case False
    then have new: "registered el xs fd = None" by (simp add: registered_None)
    moreover have "ez_create_file_event os el fd msk proc cd a = create_new_event os el fd msk proc cd a"
      using find res msk False by (simp add: ez_create_file_event_def)
    moreover note create_new_event_spec [OF tab mir ker msk fd a new, of proc cd]
    ultimately show ?thesis unfolding merged_def by (simp only: option.case) blast
  qed
qed


section \<open>Properties\<close>

text \<open>A loop without file events, whose system state is the table of watched descriptors.\<close>

definition demo_watch_os :: "(int \<rightharpoonup> u32) os" where
  "demo_watch_os = \<lparr>os_gettimeofday = (\<lambda>k. (k, 0, 5000)), os_time = (\<lambda>k. (k, 7)),
     os_epoll_ctl = (\<lambda>k ep op fd ev. case ctl_effect op fd ev k of None \<Rightarrow> (k, - 1) | Some k' \<Rightarrow> (k', 0)),
     os_epoll_wait = (\<lambda>k ep n t. (k, 0, 0, [])), os_eventfd_read = (\<lambda>k fd. (k, None)),
     os_eventfd_write = (\<lambda>k fd v. k), os_epoll_create = (\<lambda>k. (k, 3)), os_eventfd = (\<lambda>k. (k, 4)), os_close = (\<lambda>k fd. k)\<rparr>"

definition demo_file_loop :: "(int \<rightharpoonup> u32) event_loop" where
  "demo_file_loop = \<lparr>loop_at = 896, stop = 0,
     apidata = \<lparr>api_at = 1, epfd = 3, evfd = 4, events_at = 2, events = replicate 4 (0, 0)\<rparr>, setsize = 4, ev_count = 0,
     rbtree_events = \<lparr>root = 944, sentinel = 944, node_cmp_proc = (\<lambda>a b. 0)\<rparr>, free_events = NULL,
     lastTime = 7, timeNextId = 2, time_events = 1000, fired_at = 4,
     fired = replicate 4 \<lparr>fired_fd = 0, fired_mask = 0\<rparr>, files = Map.empty, rbnodes = [944 \<mapsto> zero_node],
     timers = Map.empty, tlinks = [1000 \<mapsto> \<lparr>nxt = 1000, prv = 1000\<rparr>], kern = Map.empty\<rparr>"

lemma demo_kernel: "epoll_kernel demo_watch_os 3 (\<lambda>k. k)"
  by (auto simp: epoll_kernel_def demo_watch_os_def split: option.splits)

lemma demo_table: "file_table demo_file_loop [] []"
proof -
  have "rb_index (fd_at (files demo_file_loop)) (rbnodes demo_file_loop, tree_of demo_file_loop) []"
    using key_order_tree [of demo_file_loop]
    by (auto simp: rb_index_def rep_def rb_tree_def demo_file_loop_def tree_of_def zero_node_def intro!: exI [of _ Lf])
  then show ?thesis by (simp add: file_table_def demo_file_loop_def)
qed

lemma demo_mirror: "mirrored (\<lambda>k. k) demo_file_loop []"
  by (simp add: mirrored_def registered_def demo_file_loop_def)

lemma demo_loop_sel: "epfd (apidata demo_file_loop) = 3" "evfd (apidata demo_file_loop) = 4" "setsize demo_file_loop = 4"
  by (simp_all add: demo_file_loop_def)

lemma demo_fresh: "fresh_file demo_file_loop 2000"
  by (simp add: fresh_file_def demo_file_loop_def fnode_of_def off_rb_node_def)

text \<open>The registration of a descriptor in the empty loop succeeds.\<close>

lemma demo_registers: "\<exists>el'. ez_create_file_event demo_watch_os demo_file_loop fd 1 7 8 2000 = Some (el', AE_OK)
    \<and> tlinks el' = [1000 \<mapsto> \<lparr>nxt = 1000, prv = 1000\<rparr>] \<and> time_events el' = 1000
    \<and> fired el' = replicate 4 \<lparr>fired_fd = 0, fired_mask = 0\<rparr>"
proof -
  let ?el = "filled demo_file_loop NULL 2000 (new_record fd 1 7 8)"
  have e: "ev_count demo_file_loop < setsize demo_file_loop" "free_events demo_file_loop = NULL" by (simp_all add: demo_file_loop_def)
  have t: "take_file_event demo_file_loop 2000 = Some (zero_event (demo_file_loop\<lparr>free_events := NULL\<rparr>) 2000, 2000)"
    by (simp add: take_file_event_def demo_file_loop_def)
  have add: "ezApiAddEvent demo_watch_os ?el fd 1 AE_NONE = (?el\<lparr>kern := [fd \<mapsto> ee_events 1]\<rparr>, AE_OK)"
    by (simp add: ezApiAddEvent_def AE_NONE_def filled_def demo_watch_os_def demo_file_loop_def)
  have new: "ez_fund_file_event demo_file_loop fd = Some NULL"
    by (simp add: ez_fund_file_event_def rbtree_find_node_def demo_file_loop_def)
  have "\<exists>m tr. rbtree_insert (rbnodes ?el) (tree_of (?el\<lparr>kern := [fd \<mapsto> ee_events 1], ev_count := 1\<rparr>)) (fnode_of 2000) = Some (m, tr)"
    by (simp add: rbtree_insert_def filled_def demo_file_loop_def fnode_of_def off_rb_node_def mem_simps rbt_black_def)
  then show ?thesis
    using e new add unfolding ez_create_file_event_def create_new_event_eq [OF e(1) t]
    by (auto simp: AE_OK_def AE_NONE_def demo_file_loop_def filled_def)
qed




text \<open>
  A descriptor at or above \<^verbatim>\<open>setsize\<close> can be registered, since only the number of events is checked, but not
  taken away: \<^verbatim>\<open>ez_delete_file_event\<close> returns without doing anything, so the entry and the kernel's watch stay.
\<close>

theorem large_descriptor_stays:
  assumes "file_table el xs ys" "mirrored W el xs" "epoll_kernel os (epfd (apidata el)) W"
    and "msk \<noteq> AE_NONE" "fd \<noteq> evfd (apidata el)" "fresh_file el a" "setsize el \<le> fd"
    and "ez_create_file_event os el fd msk proc cd a = Some (el', AE_OK)"
  shows "ez_delete_file_event os el' fd any = Some el' \<and> (\<exists>fe. ez_fund_file_event el' fd = Some fe \<and> fe \<noteq> NULL)
    \<and> W (kern el') fd \<noteq> None"
proof -
  have ok: "AE_OK \<noteq> AE_ERR" by (simp add: ae_defs)
  let ?e = "merged (registered el xs fd) fd msk proc cd"
  obtain xs' ys' where tab: "file_table el' xs' ys'" and mir: "mirrored W el' xs'" and sel: "apidata el' = apidata el"
    "setsize el' = setsize el" and reg: "registered el' xs' = (registered el xs)(fd \<mapsto> ?e)"
    using ez_create_file_event_spec [OF assms(1-6), of proc cd] assms(8) ok by auto
  then have "registered el' xs' fd = Some ?e" by simp
  then obtain x where x: "x \<in> set xs'" "files el' x = Some ?e" "fe_fd ?e = fd"
    using registered_iff [OF tab] by blast
  then have in_tab: "fd \<in> fd_of el' ` set xs'" by (force simp: fd_of_def)
  have "fe_mask ?e \<noteq> AE_NONE" using tab x by (auto simp: file_table_def)
  then have "W (kern el') fd \<noteq> None" using mir assms(5) reg sel by (simp add: mirrored_def watch_of_def)
  moreover obtain fe where "ez_fund_file_event el' fd = Some fe" "fe \<in> set xs'"
    using ez_fund_file_event_spec [OF tab, of fd] in_tab by auto
  moreover have "files el' NULL = None" "\<forall>x \<in> set xs'. \<exists>e. files el' x = Some e" using tab by (auto simp: file_table_def)
  moreover have "fe \<noteq> NULL"
  proof
    assume "fe = NULL"
    with calculation show False by (metis option.distinct(1))
  qed
  ultimately show ?thesis using assms(7) sel by (auto simp: ez_delete_file_event_def)
qed


theorem large_descriptor_stays_witness:
  "\<exists>el'. ez_create_file_event demo_watch_os demo_file_loop 9 1 7 8 2000 = Some (el', AE_OK)
    \<and> ez_delete_file_event demo_watch_os el' 9 1 = Some el' \<and> kern el' 9 \<noteq> None"
proof -
  have m: "(1 :: int) \<noteq> AE_NONE" "(9 :: int) \<noteq> evfd (apidata demo_file_loop)" "setsize demo_file_loop \<le> 9"
    by (simp_all add: AE_NONE_def demo_loop_sel)
  have k: "epoll_kernel demo_watch_os (epfd (apidata demo_file_loop)) (\<lambda>k. k)" unfolding demo_loop_sel by (rule demo_kernel)
  obtain el' where "ez_create_file_event demo_watch_os demo_file_loop 9 1 7 8 2000 = Some (el', AE_OK)"
    using demo_registers by blast
  with large_descriptor_stays [OF demo_table demo_mirror k m(1,2) demo_fresh m(3) this] show ?thesis by blast
qed

end
