(* ===== verification/Ez_Timer.thy ===== *)
theory Ez_Timer
  imports Ez_Loop
begin

text \<open>
  The time events of \<^verbatim>\<open>src/ez_event.c\<close>: a ring of \<^verbatim>\<open>ez_list\<close> sorted by firing time. Creation, deletion and
  the firing pass. A timer callback is a parameter: given the procedure pointer, the id and the client data it may
  change the whole loop and answers a return value.
\<close>

section \<open>The operations\<close>

partial_function (option) insert_walk ::
    "(addr \<rightharpoonup> time_event) \<Rightarrow> lmem \<Rightarrow> int \<Rightarrow> addr \<Rightarrow> addr \<Rightarrow> addr option" where
  "insert_walk tm m te_when ti end_node =
     (if ti = end_node then Some ti
      else do {
        w \<leftarrow> rd when_ms tm (cast_to_time_event ti);
        (if te_when > w then do { ti \<leftarrow> rd nxt m ti; insert_walk tm m te_when ti end_node }
         else Some ti)
      })"

definition insert_time_event_list :: "'k event_loop \<Rightarrow> addr \<Rightarrow> addr \<Rightarrow> addr \<Rightarrow> 'k event_loop option" where
  "insert_time_event_list el first end_node te = do {
     w \<leftarrow> rd when_ms (timers el) te;
     ti \<leftarrow> insert_walk (timers el) (tlinks el) w first end_node;
     p \<leftarrow> rd prv (tlinks el) ti;
     m \<leftarrow> list_add (tlinks el) (tnode_of te) p;
     Some (el\<lparr>tlinks := m\<rparr>)
   }"

text \<open>\<open>te\<close> is the block that the allocation returned, zeroed, or \<open>NULL\<close>.\<close>

definition new_timer :: "'k event_loop \<Rightarrow> addr \<Rightarrow> 'k event_loop" where
  "new_timer el te =
     el\<lparr>timers := (timers el)(te \<mapsto> \<lparr>te_id = 0, te_period = 0, when_ms = 0, timeProc = NULL, te_clientData = NULL\<rparr>),
       tlinks := (tlinks el)(tnode_of te \<mapsto> \<lparr>nxt = NULL, prv = NULL\<rparr>)\<rparr>"

definition free_timer :: "'k event_loop \<Rightarrow> addr \<Rightarrow> 'k event_loop" where
  "free_timer el te = el\<lparr>timers := (timers el)(te := None), tlinks := (tlinks el)(tnode_of te := None)\<rparr>"

definition set_timer :: "'k event_loop \<Rightarrow> addr \<Rightarrow> (time_event \<Rightarrow> time_event) \<Rightarrow> 'k event_loop option" where
  "set_timer el te f = do { tm \<leftarrow> wr (timers el) te f; Some (el\<lparr>timers := tm\<rparr>) }"

definition ez_create_time_event ::
    "'k os \<Rightarrow> 'k event_loop \<Rightarrow> int \<Rightarrow> addr \<Rightarrow> addr \<Rightarrow> addr \<Rightarrow> ('k event_loop \<times> int) option" where
  "ez_create_time_event os el period proc clientData te = do {
     let id = timeNextId el;
     next_id \<leftarrow> i64 (id + 1);
     let el = el\<lparr>timeNextId := next_id\<rparr>;
     (if te = NULL then Some (el, - 1)
      else do {
        let el = new_timer el te;
        el \<leftarrow> set_timer el te (\<lambda>t. t\<lparr>te_id := id\<rparr>);
        el \<leftarrow> set_timer el te (\<lambda>t. t\<lparr>timeProc := proc\<rparr>);
        el \<leftarrow> set_timer el te (\<lambda>t. t\<lparr>te_clientData := clientData\<rparr>);
        el \<leftarrow> set_timer el te (\<lambda>t. t\<lparr>te_period := period\<rparr>);
        (el, now) \<leftarrow> now_ms os el;
        w \<leftarrow> i64 (now + period);
        el \<leftarrow> set_timer el te (\<lambda>t. t\<lparr>when_ms := w\<rparr>);
        first \<leftarrow> rd nxt (tlinks el) (time_events el);
        el \<leftarrow> insert_time_event_list el first (time_events el) te;
        Some (el, id)
      })
   }"

definition ez_delete_time_event :: "'k event_loop \<Rightarrow> int \<Rightarrow> 'k event_loop option" where
  "ez_delete_time_event el time_id = do {
     (m, el) \<leftarrow> LIST_FOR (\<lambda>pos m el. do {
         let te = cast_to_time_event pos;
         tid \<leftarrow> rd te_id (timers el) te;
         (if tid = time_id then do {
            m \<leftarrow> list_del m pos;
            let el = free_timer (el\<lparr>tlinks := m\<rparr>) te;
            Some (tlinks el, el, True)
          }
          else Some (m, el, False))
       }) (time_events el) (tlinks el) el;
     Some (el\<lparr>tlinks := m\<rparr>)
   }"







section \<open>What the queue holds\<close>

text \<open>
  \<open>queue el xs\<close>: the ring of the loop holds the timers \<open>xs\<close>, in this order. A queue in service is sorted by
  firing time.
\<close>

definition queue :: "'k event_loop \<Rightarrow> addr list \<Rightarrow> bool" where
  "queue el xs \<longleftrightarrow> dlist (tlinks el) (time_events el) (map tnode_of xs)
     \<and> (\<forall>x \<in> set xs. timers el x \<noteq> None)"

definition due :: "'k event_loop \<Rightarrow> addr \<Rightarrow> int" where
  "due el x = (case timers el x of None \<Rightarrow> 0 | Some t \<Rightarrow> when_ms t)"

definition tid :: "'k event_loop \<Rightarrow> addr \<Rightarrow> int" where
  "tid el x = (case timers el x of None \<Rightarrow> 0 | Some t \<Rightarrow> te_id t)"

definition in_service :: "'k event_loop \<Rightarrow> addr list \<Rightarrow> bool" where
  "in_service el xs \<longleftrightarrow> queue el xs \<and> sorted (map (due el) xs)
     \<and> distinct (map (tid el) xs) \<and> (\<forall>x \<in> set xs. tid el x < timeNextId el)"

definition enqueue :: "(addr \<Rightarrow> int) \<Rightarrow> addr \<Rightarrow> addr list \<Rightarrow> addr list" where
  "enqueue w x xs = takeWhile (\<lambda>y. w y < w x) xs @ x # dropWhile (\<lambda>y. w y < w x) xs"

lemma sorted_enqueue: "sorted (map w xs) \<Longrightarrow> sorted (map w (enqueue w x xs))"
  unfolding enqueue_def by (induction xs) (auto dest: set_takeWhileD set_dropWhileD)

lemma set_enqueue: "set (enqueue w x xs) = insert x (set xs)"
  by (metis enqueue_def set_append takeWhile_dropWhile_id list.set(2) Un_insert_right)

section \<open>Insertion\<close>

text \<open>Links are written where there are links, so a list operation changes no domain.\<close>

lemma wr_dom: "wr m p f = Some m' \<Longrightarrow> dom m' = dom m"
  unfolding wr_eq_Some_conv using dom_fun_upd [of m p] by (metis domI insert_absorb option.simps(3))

lemma list_dom:
  "list_add m n p = Some m' \<Longrightarrow> dom m' = dom m" "list_del m n = Some m' \<Longrightarrow> dom m' = dom m"
  unfolding list_add_def list_add_between_def list_del_def list_del_between_def
  by (clarsimp simp only: bind_eq_Some_conv, metis wr_dom)+

lemma insert_walk_spec:
  assumes ring: "dlist m h (map tnode_of (us @ ys))" and live: "\<forall>x \<in> set ys. tm x \<noteq> None"
    and w: "\<And>x. x \<in> set ys \<Longrightarrow> rd when_ms tm x = Some (wh x)"
  shows "insert_walk tm m k (hd (map tnode_of ys @ [h])) h =
    Some (hd (map tnode_of (dropWhile (\<lambda>y. wh y < k) ys) @ [h]))"
  using assms
proof (induction ys arbitrary: us)
  case Nil
  then show ?case by (subst insert_walk.simps) simp
next
  case (Cons y ys)
  have "tnode_of y \<noteq> h" using dlist_distinct [OF Cons.prems(1)] by auto
  moreover have "rd nxt m (tnode_of y) = Some (hd (map tnode_of ys @ [h]))"
    using dlist_nxt [of m h "map tnode_of us" "tnode_of y" "map tnode_of ys"] Cons.prems(1) by simp
  ultimately show ?case
    using Cons.IH [of "us @ [y]"] Cons.prems by (subst insert_walk.simps) simp
qed

lemma rd_due: "timers el x \<noteq> None \<Longrightarrow> rd when_ms (timers el) x = Some (due el x)"
  by (auto simp: rd_def due_def)

lemma insert_time_event_list_spec:
  assumes q: "queue el xs" and te: "timers el te \<noteq> None" "tlinks el (tnode_of te) \<noteq> None"
    and new: "te \<notin> set xs" "tnode_of te \<noteq> time_events el"
    and first: "rd nxt (tlinks el) (time_events el) = Some first"
  shows "\<exists>m. insert_time_event_list el first (time_events el) te = Some (el\<lparr>tlinks := m\<rparr>)
    \<and> queue (el\<lparr>tlinks := m\<rparr>) (enqueue (due el) te xs)
    \<and> agree_on (- insert (tnode_of te) (set (time_events el # map tnode_of xs))) (tlinks el) m
    \<and> dom m = dom (tlinks el)"
proof -
  let ?h = "time_events el" and ?m = "tlinks el"
  let ?us = "takeWhile (\<lambda>y. due el y < due el te) xs" and ?vs = "dropWhile (\<lambda>y. due el y < due el te) xs"
  have ring: "dlist ?m ?h (map tnode_of xs)" and live: "\<forall>x \<in> set xs. timers el x \<noteq> None"
    using q by (auto simp: queue_def)
  have "first = hd (map tnode_of xs @ [?h])"
    using dlist_fst [of ?m ?h "[]" "map tnode_of xs"] ring first by simp
  then have walk: "insert_walk (timers el) ?m (due el te) first ?h = Some (hd (map tnode_of ?vs @ [?h]))"
    using insert_walk_spec [of ?m ?h "[]" xs "timers el" "due el" "due el te"] ring live rd_due by auto
  have split: "dlist ?m ?h (map tnode_of ?us @ map tnode_of ?vs)"
    using ring by (simp flip: map_append)
  have p: "rd prv ?m (hd (map tnode_of ?vs @ [?h])) = Some (last (?h # map tnode_of ?us))"
    by (rule dlist_lst [OF split])
  have "tnode_of te \<notin> set (?h # map tnode_of ?us @ map tnode_of ?vs)"
    using new by (auto dest: set_takeWhileD set_dropWhileD)
  moreover have "?m (tnode_of te) \<noteq> None \<and> tnode_of te \<noteq> NULL" using te(2) by simp
  ultimately obtain m' where m': "list_add ?m (tnode_of te) (last (?h # map tnode_of ?us)) = Some m'"
    "dlist m' ?h (map tnode_of ?us @ tnode_of te # map tnode_of ?vs)"
    and ag: "agree_on (- insert (tnode_of te) (set (?h # map tnode_of ?us @ map tnode_of ?vs))) ?m m'"
    using ring.ins_law [OF split] by blast
  have "set (map tnode_of ?us @ map tnode_of ?vs) = set (map tnode_of xs)"
    by (simp flip: map_append set_append)
  then have "agree_on (- insert (tnode_of te) (set (?h # map tnode_of xs))) ?m m'"
    using ag by simp
  moreover have "insert_time_event_list el first ?h te = Some (el\<lparr>tlinks := m'\<rparr>)"
    using walk p m'(1) te(1) by (simp add: insert_time_event_list_def rd_due)
  moreover have "queue (el\<lparr>tlinks := m'\<rparr>) (enqueue (due el) te xs)"
    using m'(2) live te(1) set_enqueue [of "due el" te xs] by (simp add: queue_def enqueue_def)
  ultimately show ?thesis using list_dom(1) [OF m'(1)] by blast
qed

lemma agree_on_clear: "p \<notin> A \<Longrightarrow> agree_on A m (m(p := v))"
  by (auto simp: agree_on_def)

lemma queue_distinct: "queue el xs \<Longrightarrow> distinct xs"
  using dlist_distinct by (fastforce simp: queue_def distinct_map)

lemma distinct_enqueue: "distinct xs \<Longrightarrow> x \<notin> set xs \<Longrightarrow> distinct (enqueue w x xs)"
proof -
  have ins: "distinct (a @ x # b) \<longleftrightarrow> x \<notin> set (a @ b) \<and> distinct (a @ b)" for a b by auto
  assume "distinct xs" "x \<notin> set xs"
  then show ?thesis unfolding enqueue_def ins takeWhile_dropWhile_id by simp
qed

lemma enqueue_cong:
  "(\<And>y. y \<in> insert x (set xs) \<Longrightarrow> w y = w' y) \<Longrightarrow> enqueue w x xs = enqueue w' x xs"
  unfolding enqueue_def by (induction xs) auto

lemma queue_cong:
  assumes "queue el xs" "time_events el' = time_events el"
    and "agree_on (set (time_events el # map tnode_of xs)) (tlinks el) (tlinks el')"
    and "\<And>x. x \<in> set xs \<Longrightarrow> timers el' x = timers el x"
  shows "queue el' xs"
  using assms dlist_frame [of "tlinks el" "time_events el" "map tnode_of xs" "tlinks el'"]
  by (auto simp: queue_def)

section \<open>Creation and deletion\<close>

lemma ez_create_time_event_spec:
  assumes serv: "in_service el xs"
    and te: "te \<noteq> NULL" "timers el te = None" "tlinks el (tnode_of te) = None"
    and clock: "mstime os (kern el) = Some (k, now)"
    and range: "i64 (now + period) = Some (now + period)" "i64 (timeNextId el + 1) = Some (timeNextId el + 1)"
  shows "\<exists>el'. ez_create_time_event os el period proc cd te = Some (el', timeNextId el)
    \<and> timers el' = (timers el)(te \<mapsto> \<lparr>te_id = timeNextId el, te_period = period, when_ms = now + period,
        timeProc = proc, te_clientData = cd\<rparr>)
    \<and> in_service el' (enqueue (due el') te xs) \<and> timeNextId el' = timeNextId el + 1
    \<and> (\<exists>m. el' = el\<lparr>timeNextId := timeNextId el + 1, tlinks := m, kern := k, timers := timers el'\<rparr>
        \<and> agree_on (- insert (tnode_of te) (set (time_events el # map tnode_of xs))) (tlinks el) m
        \<and> dom m = insert (tnode_of te) (dom (tlinks el)))"
proof -
  have q: "queue el xs" and ring: "dlist (tlinks el) (time_events el) (map tnode_of xs)"
    and live: "\<forall>x \<in> set xs. timers el x \<noteq> None"
    using serv by (auto simp: in_service_def queue_def)
  let ?t = "\<lparr>te_id = timeNextId el, te_period = period, when_ms = now + period, timeProc = proc, te_clientData = cd\<rparr>"
  let ?el = "el\<lparr>timeNextId := timeNextId el + 1,
      tlinks := (tlinks el)(tnode_of te \<mapsto> \<lparr>nxt = NULL, prv = NULL\<rparr>), kern := k, timers := (timers el)(te \<mapsto> ?t)\<rparr>"
  have out: "te \<notin> set xs" using live te(2) by auto
  have "tnode_of te \<notin> set (time_events el # map tnode_of xs)"
    using dlist_live [OF ring] te(3) by fastforce
  then have nodes: "tnode_of te \<noteq> time_events el" and ag: "agree_on (set (time_events el # map tnode_of xs)) (tlinks el) (tlinks ?el)"
    by auto
  have q1: "queue ?el xs"
    by (rule queue_cong [OF q]) (use ag out in auto)
  obtain first where first: "rd nxt (tlinks ?el) (time_events el) = Some first"
    using dlist_fst [of "tlinks ?el" "time_events el" "[]" "map tnode_of xs"] q1 by (auto simp: queue_def)
  obtain m where ins: "insert_time_event_list ?el first (time_events el) te = Some (?el\<lparr>tlinks := m\<rparr>)"
    and q2: "queue (?el\<lparr>tlinks := m\<rparr>) (enqueue (due ?el) te xs)"
    and ag2: "agree_on (- insert (tnode_of te) (set (time_events el # map tnode_of xs))) (tlinks ?el) m"
    and dom2: "dom m = dom (tlinks ?el)"
    using insert_time_event_list_spec [OF q1, of te first] out nodes first by auto
  let ?el' = "?el\<lparr>tlinks := m\<rparr>"
  have "ez_create_time_event os el period proc cd te = Some (?el', timeNextId el)"
    using te(1) clock range first ins
    by (simp add: ez_create_time_event_def new_timer_def set_timer_def now_ms_def mem_simps Let_def)
  moreover have "due ?el = due ?el'" by (simp add: due_def fun_eq_iff)
  moreover have "in_service ?el' (enqueue (due ?el') te xs)"
    unfolding in_service_def
  proof (intro conjI)
    show "queue ?el' (enqueue (due ?el') te xs)" using q2 \<open>due ?el = due ?el'\<close> by simp
    have "map (due ?el') xs = map (due el) xs" using out by (auto simp: due_def)
    then have "sorted (map (due ?el') xs)" using serv by (simp only: in_service_def)
    then show "sorted (map (due ?el') (enqueue (due ?el') te xs))" by (rule sorted_enqueue)
    have t: "tid ?el' te = timeNextId el" by (simp add: tid_def)
    have old: "\<forall>x \<in> set xs. tid ?el' x = tid el x" using out by (auto simp: tid_def)
    have "inj_on (tid ?el') (insert te (set xs))"
      using serv old t out unfolding in_service_def distinct_map
      by (subst inj_on_insert) (auto simp: inj_on_def)
    then show "distinct (map (tid ?el') (enqueue (due ?el') te xs))"
      using distinct_enqueue [OF queue_distinct [OF q] out] by (simp only: distinct_map set_enqueue simp_thms)
    show "\<forall>x \<in> set (enqueue (due ?el') te xs). tid ?el' x < timeNextId ?el'"
      using serv old t unfolding set_enqueue in_service_def by (auto simp del: ball_simps)
  qed
  moreover have "agree_on (- insert (tnode_of te) (set (time_events el # map tnode_of xs))) (tlinks el) m"
    using ag2 by (auto simp: agree_on_def)
  moreover have "?el' = el\<lparr>timeNextId := timeNextId el + 1, tlinks := m, kern := k, timers := timers ?el'\<rparr>"
    "dom m = insert (tnode_of te) (dom (tlinks el))"
    using dom2 by simp_all
  ultimately show ?thesis by - (intro exI [of _ ?el'] conjI exI [of _ m]; (assumption | simp))
qed

lemma in_service_filter:
  assumes "in_service el xs" "queue el' (filter P xs)" "timeNextId el' = timeNextId el"
    and same: "\<And>y. y \<in> set (filter P xs) \<Longrightarrow> timers el' y = timers el y"
  shows "in_service el' (filter P xs)"
proof -
  have "due el' y = due el y" "tid el' y = tid el y" if "y \<in> set (filter P xs)" for y
    using same [OF that] by (simp_all add: due_def tid_def)
  then have "map (due el') (filter P xs) = map (due el) (filter P xs)"
    "map (tid el') (filter P xs) = map (tid el) (filter P xs)" "\<forall>y \<in> set (filter P xs). tid el' y = tid el y"
    by (simp_all cong: map_cong)
  with assms(1-3) show ?thesis
    unfolding in_service_def by (simp only: sorted_filter distinct_map_filter) simp
qed

lemma find_first: "\<forall>y \<in> set us. \<not> P y \<Longrightarrow> P x \<Longrightarrow> List.find P (us @ x # vs) = Some x"
  by (induction us) auto

lemma delete_search:
  assumes q: "queue el xs"
  shows "ez_delete_time_event el time_id =
    (case List.find (\<lambda>x. tid el x = time_id) xs of None \<Rightarrow> Some el
     | Some x \<Rightarrow> do { m \<leftarrow> list_del (tlinks el) (tnode_of x); Some (free_timer (el\<lparr>tlinks := m\<rparr>) x) })"
proof -
  let ?P = "\<lambda>pos. tid el (cast_to_time_event pos) = time_id"
  let ?found = "\<lambda>pos. map_option (\<lambda>m. let el' = free_timer (el\<lparr>tlinks := m\<rparr>) (cast_to_time_event pos) in (tlinks el', el'))
    (list_del (tlinks el) pos)"
  have ring: "dlist (tlinks el) (time_events el) (map tnode_of xs)" and live: "\<forall>x \<in> set xs. timers el x \<noteq> None"
    using q by (auto simp: queue_def)
  have rid: "rd te_id (timers el) (cast_to_time_event pos) = Some (tid el (cast_to_time_event pos))"
    if "pos \<in> set (map tnode_of xs)" for pos
    using that live by (auto simp: rd_def tid_def)
  let ?body = "\<lambda>pos m el. do {
         let te = cast_to_time_event pos;
         tid \<leftarrow> rd te_id (timers el) te;
         (if tid = time_id then do {
            m \<leftarrow> list_del m pos;
            let el = free_timer (el\<lparr>tlinks := m\<rparr>) te;
            Some (tlinks el, el, True)
          }
          else Some (m, el, False))
       }"
  have loop: "LIST_FOR ?body (time_events el) (tlinks el) el =
     (case List.find ?P (map tnode_of xs) of None \<Rightarrow> Some (tlinks el, el) | Some x \<Rightarrow> ?found x)"
  proof (rule LIST_FOR_search [OF ring])
    fix x assume x: "x \<in> set (map tnode_of xs)"
    show "?body x (tlinks el) el = Some (tlinks el, el, False)" if "\<not> ?P x"
      using rid [OF x] that by simp
    show "?body x (tlinks el) el = map_option (\<lambda>(m, s). (m, s, True)) (?found x)" if "?P x"
      using rid [OF x] that by (cases "list_del (tlinks el) x") (simp_all add: Let_def)
  qed
  have "List.find ?P (map tnode_of xs) = map_option tnode_of (List.find (\<lambda>x. tid el x = time_id) xs)"
    by (induction xs) auto
  then show ?thesis
    unfolding ez_delete_time_event_def loop
    by (cases "List.find (\<lambda>x. tid el x = time_id) xs"; cases "list_del (tlinks el) (tnode_of (the (List.find (\<lambda>x. tid el x = time_id) xs)))")
      (simp_all add: Let_def)
qed

lemma ez_delete_time_event_spec:
  assumes serv: "in_service el xs"
  shows "\<exists>el'. ez_delete_time_event el time_id = Some el' \<and> in_service el' (filter (\<lambda>x. tid el x \<noteq> time_id) xs)
    \<and> timers el' = (\<lambda>x. if x \<in> set xs \<and> tid el x = time_id then None else timers el x)
    \<and> (\<exists>m. el' = el\<lparr>tlinks := m, timers := timers el'\<rparr>
        \<and> agree_on (- set (time_events el # map tnode_of xs)) (tlinks el) m
        \<and> dom m = dom (tlinks el) - tnode_of ` {x \<in> set xs. tid el x = time_id})"
proof -
  have q: "queue el xs" and ring: "dlist (tlinks el) (time_events el) (map tnode_of xs)"
    and live: "\<forall>x \<in> set xs. timers el x \<noteq> None" and ids: "distinct (map (tid el) xs)"
    using serv by (auto simp: in_service_def queue_def)
  note search = delete_search [OF q, of time_id]
  show ?thesis
  proof (cases "\<exists>x \<in> set xs. tid el x = time_id")
    case False
    then have find: "List.find (\<lambda>x. tid el x = time_id) xs = None" and all: "filter (\<lambda>x. tid el x \<noteq> time_id) xs = xs"
      by (auto simp: find_None_iff filter_id_conv)
    have tm: "(\<lambda>x. if x \<in> set xs \<and> tid el x = time_id then None else timers el x) = timers el"
      using False by (intro ext) auto
    have none: "{x \<in> set xs. tid el x = time_id} = {}" using False by blast
    have run: "ez_delete_time_event el time_id = Some el" using search find by simp
    show ?thesis unfolding run all tm none
      by (intro exI [of _ el] conjI exI [of _ "tlinks el"]) (simp_all add: serv)
  next
    case True
    then obtain us x vs where xs: "xs = us @ x # vs" "tid el x = time_id" "\<forall>y \<in> set us. tid el y \<noteq> time_id"
      using split_list_first_prop [of xs "\<lambda>x. tid el x = time_id"] by blast
    have "tid el x \<notin> tid el ` set vs" using ids unfolding xs(1) by simp
    then have later: "tid el y \<noteq> time_id" if "y \<in> set vs" for y
      using that xs(2) by (metis image_eqI)
    have find: "List.find (\<lambda>x. tid el x = time_id) xs = Some x"
      unfolding xs(1) by (rule find_first) (use xs in auto)
    have left_over: "filter (\<lambda>x. tid el x \<noteq> time_id) xs = us @ vs"
      using xs(2,3) later unfolding xs(1) by (simp add: filter_id_conv)
    have gone: "y \<in> set xs \<and> tid el y = time_id \<longleftrightarrow> y = x" for y
      using xs later by auto
    have ring': "dlist (tlinks el) (time_events el) (map tnode_of us @ tnode_of x # map tnode_of vs)"
      using ring xs(1) by simp
    obtain m where m: "list_del (tlinks el) (tnode_of x) = Some m"
      "dlist m (time_events el) (map tnode_of us @ map tnode_of vs)"
      "agree_on (- set (time_events el # map tnode_of us @ tnode_of x # map tnode_of vs)) (tlinks el) m"
      using ring.del_law [OF ring'] by blast
    define el' where "el' = free_timer (el\<lparr>tlinks := m\<rparr>) x"
    have sel: "timers el' = (timers el)(x := None)" "tlinks el' = m(tnode_of x := None)"
      "time_events el' = time_events el" "timeNextId el' = timeNextId el"
      by (simp_all add: el'_def free_timer_def)
    have "tnode_of x \<notin> set (time_events el # map tnode_of (us @ vs))"
      using dlist_distinct [OF ring'] by auto
    then have "dlist (tlinks el') (time_events el') (map tnode_of (us @ vs))"
      using dlist_frame [of m "time_events el" "map tnode_of (us @ vs)" "m(tnode_of x := None)"] m(2)
      unfolding sel by (simp add: agree_on_clear)
    moreover have keep: "timers el' y = timers el y" if "y \<in> set (us @ vs)" for y
      using that xs(2,3) later by (cases "y = x") (auto simp: sel)
    moreover have "\<forall>y \<in> set (us @ vs). timers el y \<noteq> None" using live unfolding xs(1) by simp
    ultimately have "queue el' (us @ vs)" unfolding queue_def by simp
    then have "in_service el' (filter (\<lambda>x. tid el x \<noteq> time_id) xs)"
      using keep sel(4) by (intro in_service_filter [OF serv]) (simp_all only: left_over)
    moreover have "timers el' = (\<lambda>y. if y \<in> set xs \<and> tid el y = time_id then None else timers el y)"
      unfolding gone sel by (simp add: fun_eq_iff)
    moreover have "ez_delete_time_event el time_id = Some el'"
      using search find m(1) by (simp add: el'_def)
    moreover have "el' = el\<lparr>tlinks := m(tnode_of x := None), timers := timers el'\<rparr>"
      by (simp add: el'_def free_timer_def)
    moreover have "agree_on (- set (time_events el # map tnode_of xs)) (tlinks el) (m(tnode_of x := None))"
      using m(3) by (auto simp: agree_on_def xs(1))
    moreover have "{y \<in> set xs. tid el y = time_id} = {x}" using gone by auto
    then have "dom (m(tnode_of x := None)) = dom (tlinks el) - tnode_of ` {y \<in> set xs. tid el y = time_id}"
      using list_dom(2) [OF m(1)] by simp
    ultimately show ?thesis by blast
  qed
qed

section \<open>Putting timers back\<close>





section \<open>The firing pass\<close>


definition clock_reads :: "'k os \<Rightarrow> int \<Rightarrow> bool" where
  "clock_reads os now \<longleftrightarrow> (\<forall>k. \<exists>k'. mstime os k = Some (k', now))"

















section \<open>Properties\<close>

text \<open>A loop with two timers at 100 and 200, due at 3 and at 9; the clock reads 5.\<close>

definition demo_os :: "unit os" where
  "demo_os = \<lparr>os_gettimeofday = (\<lambda>k. (k, 0, 5000)), os_time = (\<lambda>k. (k, 7)), os_epoll_ctl = (\<lambda>k ep op fd ev. (k, 0)),
     os_epoll_wait = (\<lambda>k ep n t. (k, 0, 0, [])), os_eventfd_read = (\<lambda>k fd. (k, None)),
     os_eventfd_write = (\<lambda>k fd v. k), os_epoll_create = (\<lambda>k. (k, 3)), os_eventfd = (\<lambda>k. (k, 4)), os_close = (\<lambda>k fd. k)\<rparr>"

definition demo_timer :: "int \<Rightarrow> int \<Rightarrow> time_event" where
  "demo_timer i w = \<lparr>te_id = i, te_period = 6, when_ms = w, timeProc = 1, te_clientData = 0\<rparr>"

definition demo_loop :: "unit event_loop" where
  "demo_loop = \<lparr>loop_at = 896, stop = 0,
     apidata = \<lparr>api_at = 1, epfd = 3, evfd = 4, events_at = 2, events = []\<rparr>, setsize = 4, ev_count = 0,
     rbtree_events = \<lparr>root = 50, sentinel = 50, node_cmp_proc = (\<lambda>a b. 0)\<rparr>, free_events = NULL,
     lastTime = 7, timeNextId = 2, time_events = 1000, fired_at = 4, fired = [], files = Map.empty,
     rbnodes = [50 \<mapsto> \<lparr>left = 0, right = 0, parent = 0, color = 0\<rparr>],
     timers = [100 \<mapsto> demo_timer 0 3, 200 \<mapsto> demo_timer 1 9],
     tlinks = [1000 \<mapsto> \<lparr>nxt = 140, prv = 240\<rparr>, 140 \<mapsto> \<lparr>nxt = 240, prv = 1000\<rparr>, 240 \<mapsto> \<lparr>nxt = 1000, prv = 140\<rparr>],
     kern = ()\<rparr>"

lemma demo_in_service: "in_service demo_loop [100, 200]"
  by (simp add: in_service_def queue_def demo_loop_def demo_timer_def due_def tid_def dlist_def link_def rd_def
      tnode_of_def off_time_node_def)

lemma demo_clock: "clock_reads demo_os 5"
  by (simp add: clock_reads_def mstime_def ustime_def demo_os_def i64_def c_div_def)

text \<open>
  C19: \<^verbatim>\<open>ez_create_time_event\<close> on a queue in service, with a fresh block, answers the next id, arms the timer at the
  present time plus its period and puts it in front of the first timer that is not earlier; the queue stays
  sorted, ids stay unique and all links are right. Without memory it answers -1 and only uses up an id.
\<close>

theorem ez_create_time_event_correct:
  assumes "in_service el xs" and "timers el te = None" and "tlinks el (tnode_of te) = None"
    and "clock_reads os now" and "i64 (now + period) = Some (now + period)"
    and "i64 (timeNextId el + 1) = Some (timeNextId el + 1)"
  shows "(te \<noteq> NULL \<longrightarrow> (\<exists>el'. ez_create_time_event os el period proc cd te = Some (el', timeNextId el)
      \<and> timers el' = (timers el)(te \<mapsto> \<lparr>te_id = timeNextId el, te_period = period, when_ms = now + period,
          timeProc = proc, te_clientData = cd\<rparr>)
      \<and> in_service el' (enqueue (due el') te xs)))
    \<and> ez_create_time_event os el period proc cd NULL = Some (el\<lparr>timeNextId := timeNextId el + 1\<rparr>, - 1)"
proof -
  obtain k where "mstime os (kern el) = Some (k, now)" using assms(4) unfolding clock_reads_def by metis
  then have "\<exists>el'. ez_create_time_event os el period proc cd te = Some (el', timeNextId el)
      \<and> timers el' = (timers el)(te \<mapsto> \<lparr>te_id = timeNextId el, te_period = period, when_ms = now + period,
          timeProc = proc, te_clientData = cd\<rparr>)
      \<and> in_service el' (enqueue (due el') te xs)" if "te \<noteq> NULL"
    using ez_create_time_event_spec [OF assms(1) that assms(2,3) _ assms(5,6)] by blast
  moreover have "ez_create_time_event os el period proc cd NULL = Some (el\<lparr>timeNextId := timeNextId el + 1\<rparr>, - 1)"
    using assms(6) by (simp add: ez_create_time_event_def Let_def)
  ultimately show ?thesis by blast
qed

theorem ez_create_time_event_correct_witness:
  "\<exists>el'. ez_create_time_event demo_os demo_loop 2 1 0 300 = Some (el', 2) \<and> in_service el' [100, 300, 200]"
proof -
  have n: "timeNextId demo_loop = 2" by (simp add: demo_loop_def)
  obtain el' where el': "ez_create_time_event demo_os demo_loop 2 1 0 300 = Some (el', 2)"
    and tm: "timers el' = (timers demo_loop)(300 \<mapsto> \<lparr>te_id = 2, te_period = 2, when_ms = 5 + 2, timeProc = 1, te_clientData = 0\<rparr>)"
    and s: "in_service el' (enqueue (due el') 300 [100, 200])"
    using ez_create_time_event_correct [OF demo_in_service _ _ demo_clock, of 300 2 1 0] unfolding n
    by (auto simp: demo_loop_def i64_def tnode_of_def off_time_node_def)
  have "enqueue (due el') 300 [100, 200] = [100, 300, 200]"
    unfolding enqueue_def due_def tm by (simp add: demo_loop_def demo_timer_def)
  with el' s show ?thesis by auto
qed

text \<open>
  C34: \<^verbatim>\<open>ez_delete_time_event\<close> takes exactly the timer with the given id out of the queue and releases it, whatever
  its place; an unknown id changes nothing, and the queue stays in service.
\<close>

theorem ez_delete_time_event_correct:
  assumes "in_service el xs"
  shows "\<exists>el'. ez_delete_time_event el time_id = Some el' \<and> in_service el' (filter (\<lambda>x. tid el x \<noteq> time_id) xs)
    \<and> timers el' = (\<lambda>x. if x \<in> set xs \<and> tid el x = time_id then None else timers el x)"
  using ez_delete_time_event_spec [OF assms] by blast

theorem ez_delete_time_event_correct_witness:
  "\<exists>el'. ez_delete_time_event demo_loop 0 = Some el' \<and> in_service el' [200] \<and> timers el' 100 = None"
proof -
  have "filter (\<lambda>x. tid demo_loop x \<noteq> 0) [100, 200] = [200]" "tid demo_loop 100 = 0"
    by (simp_all add: tid_def demo_loop_def demo_timer_def)
  with ez_delete_time_event_correct [OF demo_in_service, of 0] show ?thesis by auto
qed



end
