(* ===== verification/Ez_Event.thy ===== *)
theory Ez_Event
  imports Ez_File Ez_Timer
begin

text \<open>
  The loop of \<^verbatim>\<open>src/ez_event.c\<close>: creation and deletion, one round (wait, dispatch of the fired file events, firing
  pass of the timers), the run until a stop command. A file callback is a parameter, like a timer callback: given
  the procedure, the descriptor, the client data and the mask it may change the whole loop.
\<close>

unbundle bit_operations_syntax

section \<open>Creation\<close>

definition off_sentinel :: nat where "off_sentinel = 48"
definition off_time_events :: nat where "off_time_events = 104"

text \<open>\<open>base\<close>, \<open>fired_a\<close>, \<open>state\<close> and \<open>evs\<close> are the answers of the allocations, whose blocks are zero.\<close>

definition ez_create_event_loop ::
    "'k os \<Rightarrow> 'k \<Rightarrow> blocks \<Rightarrow> int \<Rightarrow> addr \<Rightarrow> addr \<Rightarrow> addr \<Rightarrow> addr \<Rightarrow> ('k \<times> blocks \<times> 'k event_loop option) option" where
  "ez_create_event_loop os k h n base fired_a state evs = (let h = got h base in
     if base = NULL then Some (k, h, None)
     else do {
       (m, tr) \<leftarrow> rbtree_init [base + off_sentinel \<mapsto> zero_node] (base + off_sentinel)
                    (file_event_compare_proc Map.empty);
       let h = got h fired_a;
       (if fired_a = NULL then do {
          h \<leftarrow> ez_free_block h NULL;
          h \<leftarrow> ez_free_block h base;
          Some (k, h, None)
        }
        else do {
          tl \<leftarrow> init_list_head [base + off_time_events \<mapsto> \<lparr>nxt = NULL, prv = NULL\<rparr>] (base + off_time_events);
          let (k, now) = os_time os k;
          (k, h, api) \<leftarrow> ezApiCreate os k h n state evs;
          (case api of
             None \<Rightarrow> do {
               h \<leftarrow> ez_free_block h fired_a;
               h \<leftarrow> ez_free_block h base;
               Some (k, h, None)
             }
           | Some st \<Rightarrow> Some (k, h, Some \<lparr>loop_at = base, stop = 0, apidata = st, setsize = n, ev_count = 0,
               rbtree_events = tr, free_events = NULL, lastTime = now, timeNextId = 0,
               time_events = base + off_time_events, fired_at = fired_a,
               fired = replicate (nat n) \<lparr>fired_fd = 0, fired_mask = 0\<rparr>, files = Map.empty, rbnodes = m,
               timers = Map.empty, tlinks = tl, kern = k\<rparr>))
        })
     })"

section \<open>Deletion\<close>

partial_function (option) free_recycled :: "'k event_loop \<Rightarrow> addr \<Rightarrow> 'k event_loop option" where
  "free_recycled el i =
     (if i \<noteq> NULL then do {
        let e = cast_to_file_event i;
        i \<leftarrow> rd parent (rbnodes el) i;
        el \<leftarrow> free_file el e;
        free_recycled el i
      }
      else Some el)"

partial_function (option) free_registered :: "'k event_loop \<Rightarrow> 'k event_loop option" where
  "free_registered el = do {
     i \<leftarrow> rbtree_min_node (rbnodes el) (tree_of el);
     (if i \<noteq> NULL then do {
        (m, tr) \<leftarrow> rbtree_delete (rbnodes el) (tree_of el) i;
        el \<leftarrow> free_file (el\<lparr>rbnodes := m, rbtree_events := tr\<rparr>) (cast_to_file_event i);
        free_registered el
      }
      else Some el)
   }"

definition free_timers :: "'k event_loop \<Rightarrow> 'k event_loop option" where
  "free_timers el = do {
     (m, el) \<leftarrow> LIST_FOR (\<lambda>ti m el. do {
         m \<leftarrow> list_del m ti;
         let t = cast_to_time_event ti;
         tid \<leftarrow> rd te_id (timers el) t;
         let el = free_timer (el\<lparr>tlinks := m\<rparr>) t;
         Some (tlinks el, el, False)
       }) (time_events el) (tlinks el) el;
     Some (el\<lparr>tlinks := m\<rparr>)
   }"

definition ez_delete_event_loop ::
    "'k os \<Rightarrow> blocks \<Rightarrow> 'k event_loop option \<Rightarrow> (blocks \<times> 'k event_loop option) option" where
  "ez_delete_event_loop os h loop = (case loop of
     None \<Rightarrow> Some (h, None)
   | Some el \<Rightarrow> do {
       (k, h) \<leftarrow> ezApiDelete os (kern el) h (apidata el);
       el \<leftarrow> free_recycled (el\<lparr>kern := k\<rparr>) (free_events el);
       el \<leftarrow> free_registered el;
       h \<leftarrow> ez_free_block h (fired_at el);
       el \<leftarrow> free_timers el;
       h \<leftarrow> ez_free_block h (loop_at el);
       Some (h, Some el)
     })"

section \<open>One round\<close>


type_synonym 'k file_proc = "addr \<Rightarrow> int \<Rightarrow> addr \<Rightarrow> int \<Rightarrow> 'k event_loop \<Rightarrow> 'k event_loop option"

text \<open>A call through a null pointer is undefined.\<close>

definition call_file_proc ::
    "'k file_proc \<Rightarrow> addr \<Rightarrow> int \<Rightarrow> addr \<Rightarrow> int \<Rightarrow> 'k event_loop \<Rightarrow> 'k event_loop option" where
  "call_file_proc fp proc fd cd msk el = (if proc = NULL then None else fp proc fd cd msk el)"

definition dispatch_one ::
    "'k file_proc \<Rightarrow> 'k event_loop \<Rightarrow> int \<Rightarrow> addr \<Rightarrow> int \<Rightarrow> int \<Rightarrow> (file_event \<Rightarrow> addr) \<Rightarrow> 'k event_loop option" where
  "dispatch_one fp el fd fe fmask bit_of proc =
     (if fmask AND bit_of = bit_of \<and> fe \<noteq> NULL then do {
        e \<leftarrow> files el fe;
        (if fe_mask e \<noteq> AE_NONE then call_file_proc fp (proc e) fd (fe_clientData e) bit_of el else Some el)
      }
      else Some el)"

definition dispatch_event :: "'k file_proc \<Rightarrow> 'k event_loop \<Rightarrow> nat \<Rightarrow> 'k event_loop option" where
  "dispatch_event fp el j =
     (if j \<ge> length (fired el) then None
      else do {
        let fd = fired_fd (fired el ! j);
        let fmask = fired_mask (fired el ! j);
        fe \<leftarrow> ez_fund_file_event el fd;
        el \<leftarrow> dispatch_one fp el fd fe fmask AE_READABLE rfileProc;
        dispatch_one fp el fd fe fmask AE_WRITABLE wfileProc
      })"





section \<open>The run\<close>



definition ez_stop_event_loop :: "'k os \<Rightarrow> 'k event_loop option \<Rightarrow> 'k event_loop option" where
  "ez_stop_event_loop os loop = (case loop of None \<Rightarrow> None | Some el \<Rightarrow> Some (ezApiStop os el))"

section \<open>Creation is right\<close>

definition fresh_blocks :: "blocks \<Rightarrow> addr list \<Rightarrow> bool" where
  "fresh_blocks h ps \<longleftrightarrow> NULL \<notin> h \<and> (\<forall>p \<in> set ps. p \<notin> h) \<and> distinct (filter (\<lambda>p. p \<noteq> NULL) ps)"

lemma free_got [simp]: "p \<notin> h \<Longrightarrow> NULL \<notin> h \<Longrightarrow> ez_free_block (got h p) p = Some h"
  by (auto simp: got_def ez_free_block_def)

lemma free_NULL [simp]: "ez_free_block h NULL = Some h"
  by (simp add: ez_free_block_def)

lemma got_NULL [simp]: "got h NULL = h"
  by (simp add: got_def)

definition new_loop_ok :: "blocks \<Rightarrow> blocks \<Rightarrow> int \<Rightarrow> addr \<Rightarrow> addr \<Rightarrow> addr \<Rightarrow> addr \<Rightarrow> 'k event_loop \<Rightarrow> bool" where
  "new_loop_ok h h' n base fired_a state evs el \<longleftrightarrow>
     h' = h \<union> {base, fired_a, state, evs} \<and> file_table el [] [] \<and> in_service el [] \<and> stop el = 0 \<and> setsize el = n
     \<and> length (fired el) = nat n \<and> length (events (apidata el)) = nat n
     \<and> loop_at el = base \<and> fired_at el = fired_a \<and> api_at (apidata el) = state \<and> events_at (apidata el) = evs"

lemma new_loop_invariant:
  fixes st :: api_state
  assumes "base \<noteq> NULL"
  obtains m tr tl where "rbtree_init [base + off_sentinel \<mapsto> zero_node] (base + off_sentinel)
                    (file_event_compare_proc Map.empty) = Some (m, tr)"
    and "init_list_head [base + off_time_events \<mapsto> \<lparr>nxt = NULL, prv = NULL\<rparr>] (base + off_time_events) = Some tl"
    and "\<And>el :: 'k event_loop. rbnodes el = m \<Longrightarrow> rbtree_events el = tr \<Longrightarrow> files el = Map.empty \<Longrightarrow> free_events el = NULL \<Longrightarrow>
      ev_count el = 0 \<Longrightarrow> file_table el [] []"
    and "\<And>el :: 'k event_loop. tlinks el = tl \<Longrightarrow> time_events el = base + off_time_events \<Longrightarrow> in_service el []"
proof -
  let ?s = "base + off_sentinel" and ?h = "base + off_time_events"
  have key: "\<forall>a b. file_event_compare_proc Map.empty a b < 0 \<longleftrightarrow> fd_at Map.empty a < fd_at Map.empty b"
    by (simp add: file_event_compare_proc_def)
  have s: "?s \<noteq> NULL" using assms by simp
  obtain m tr where init: "rbtree_init [?s \<mapsto> zero_node] ?s (file_event_compare_proc Map.empty) = Some (m, tr)"
    and idx: "rb_index (fd_at Map.empty) (m, tr) []"
    using rbtree_init_spec [of "[?s \<mapsto> zero_node]" ?s zero_node "file_event_compare_proc Map.empty" "fd_at Map.empty"]
      s key by auto
  define tl where "tl = [?h \<mapsto> \<lparr>nxt = ?h, prv = ?h\<rparr>]"
  have "init_list_head [?h \<mapsto> \<lparr>nxt = NULL, prv = NULL\<rparr>] ?h = Some tl"
    by (simp add: init_list_head_def mem_simps tl_def)
  moreover have "file_table el [] []" if "rbnodes el = m" "rbtree_events el = tr" "files el = Map.empty" "free_events el = NULL"
    "ev_count el = 0" for el :: "'k event_loop"
  proof -
    have "rb_index (fd_at (files el)) (rbnodes el, tree_of el) []"
      unfolding that(1) by (rule rb_index_frame [OF idx]) (use key_order_tree [of el] that in auto)
    then show ?thesis using that by (simp add: file_table_def)
  qed
  moreover have "in_service el []" if "tlinks el = tl" "time_events el = ?h" for el :: "'k event_loop"
    using that assms by (simp add: in_service_def queue_def tl_def dlist_def link_def rd_def)
  ultimately show ?thesis using that [OF init] by blast
qed

lemma ez_create_event_loop_spec:
  assumes fresh: "fresh_blocks h [base, fired_a, state, evs]"
    and k1: "os_time os k = (k1, now)" and k2: "os_epoll_create os k1 = (k2, ep)" and k3: "os_eventfd os k2 = (k3, ev)"
  defines "ok \<equiv> base \<noteq> NULL \<and> fired_a \<noteq> NULL \<and> state \<noteq> NULL \<and> evs \<noteq> NULL \<and> ep \<noteq> - 1 \<and> ev \<noteq> - 1"
  shows "\<exists>k' h' r. ez_create_event_loop os k h n base fired_a state evs = Some (k', h', r)
    \<and> (if ok then \<exists>el. r = Some el \<and> kern el = k' \<and> new_loop_ok h h' n base fired_a state evs el
       else r = None \<and> h' = h)"
proof (cases "base = NULL")
  case True
  then show ?thesis by (simp add: ez_create_event_loop_def ok_def got_def)
next
  case False
  obtain m tr tl where init: "rbtree_init [base + off_sentinel \<mapsto> zero_node] (base + off_sentinel)
                    (file_event_compare_proc Map.empty) = Some (m, tr)"
    "init_list_head [base + off_time_events \<mapsto> \<lparr>nxt = NULL, prv = NULL\<rparr>] (base + off_time_events) = Some tl"
    and tab: "\<And>el :: 'a event_loop. rbnodes el = m \<Longrightarrow> rbtree_events el = tr \<Longrightarrow> files el = Map.empty \<Longrightarrow> free_events el = NULL \<Longrightarrow>
      ev_count el = 0 \<Longrightarrow> file_table el [] []"
    and serv: "\<And>el :: 'a event_loop. tlinks el = tl \<Longrightarrow> time_events el = base + off_time_events \<Longrightarrow> in_service el []"
    using new_loop_invariant [OF False] by metis
  have fr: "NULL \<notin> h" "base \<notin> h" "fired_a \<notin> h" "state \<notin> h" "evs \<notin> h" "fired_a \<noteq> NULL \<Longrightarrow> fired_a \<noteq> base"
    "state \<noteq> NULL \<Longrightarrow> state \<noteq> base" "evs \<noteq> NULL \<Longrightarrow> evs \<noteq> base"
    "fired_a \<noteq> NULL \<Longrightarrow> state \<noteq> NULL \<Longrightarrow> state \<noteq> fired_a" "fired_a \<noteq> NULL \<Longrightarrow> evs \<noteq> NULL \<Longrightarrow> evs \<noteq> fired_a"
    "state \<noteq> NULL \<Longrightarrow> evs \<noteq> NULL \<Longrightarrow> evs \<noteq> state"
    using fresh False by (auto simp: fresh_blocks_def split: if_splits)
  note run = ez_create_event_loop_def ezApiCreate_def init k1 k2 k3 Let_def False
  show ?thesis
  proof (cases "fired_a = NULL")
    case True
    then show ?thesis using fr(1,2) False by (simp add: run ok_def)
  next
    case fa: False
    show ?thesis
    proof (cases ok)
      case True
      then show ?thesis
        using fr unfolding ok_def
        by (simp add: run got_def new_loop_ok_def tab serv insert_commute)
    next
      case no: False
      then consider "state = NULL" | "state \<noteq> NULL" "evs = NULL" | "state \<noteq> NULL" "evs \<noteq> NULL" "ep = - 1"
        | "state \<noteq> NULL" "evs \<noteq> NULL" "ep \<noteq> - 1" "ev = - 1" using False fa by (auto simp: ok_def)
      then show ?thesis
        by cases (use no False fa fr in \<open>auto simp: run got_def ez_free_block_def\<close>)
    qed
  qed
qed

section \<open>Deletion frees everything once\<close>

lemma restrict_more: "(m |` (- A))(x := None) = m |` (- insert x A)" "(m(x := None)) |` (- A) = m |` (- insert x A)"
  by (auto simp: restrict_map_def fun_eq_iff)

lemma restrict_UNIV [simp]: "m |` UNIV = m"
  by (simp add: restrict_map_def)

lemma free_recycled_spec:
  assumes "free_chain (rbnodes el) p ys" "distinct ys" "\<forall>y \<in> set ys. files el y \<noteq> None" "files el NULL = None"
  shows "free_recycled el p =
    Some (el\<lparr>files := files el |` (- set ys), rbnodes := rbnodes el |` (- fnode_of ` set ys)\<rparr>)"
  using assms
proof (induction ys arbitrary: el p)
  case Nil
  then show ?case by (cases el) (subst free_recycled.simps, simp)
next
  case (Cons y ys)
  obtain q where q: "p = fnode_of y" "rd parent (rbnodes el) p = Some q" "free_chain (rbnodes el) q ys"
    using Cons.prems(1) by auto
  have live: "files el y \<noteq> None" using Cons.prems(3) by simp
  then have y: "files el y \<noteq> None" "y \<noteq> NULL" using Cons.prems(4) by (metis, metis)
  define el1 where "el1 = el\<lparr>files := (files el)(y := None), rbnodes := (rbnodes el)(fnode_of y := None)\<rparr>"
  have "free_recycled el p = free_recycled el1 q"
    using q y by (subst free_recycled.simps) (auto simp: free_file_def el1_def)
  also have "\<dots> = Some (el1\<lparr>files := files el1 |` (- set ys), rbnodes := rbnodes el1 |` (- fnode_of ` set ys)\<rparr>)"
  proof (rule Cons.IH)
    show "free_chain (rbnodes el1) q ys"
      by (rule free_chain_cong [OF q(3)]) (use Cons.prems(2) in \<open>auto simp: el1_def\<close>)
  qed (use Cons.prems in \<open>auto simp: el1_def\<close>)
  finally have run: "free_recycled el p = \<dots>" .
  have fs: "files el1 |` (- set ys) = files el |` (- set (y # ys))"
    "rbnodes el1 |` (- fnode_of ` set ys) = rbnodes el |` (- fnode_of ` set (y # ys))"
    by (auto simp: el1_def restrict_map_def fun_eq_iff)
  show ?case unfolding run fs by (simp add: el1_def)
qed

lemma rb_index_min:
  assumes "rb_index key (m, tr) ns"
  shows "rbtree_min_node m tr = Some (if ns = [] then NULL else hd ns)"
proof -
  obtain t sp where R: "rep (sentinel tr) sp m m (root tr) t" and n: "nodes t = ns"
    using assms by (auto simp: rb_index_def)
  have "nodes t = [] \<longleftrightarrow> t = Lf" by (cases t) auto
  then show ?thesis using rbtree_min_node_spec [OF R] n by simp
qed

definition tree_holds :: "'k event_loop \<Rightarrow> addr list \<Rightarrow> bool" where
  "tree_holds el xs \<longleftrightarrow> rb_index (fd_at (files el)) (rbnodes el, tree_of el) (map fnode_of xs) \<and> distinct xs
     \<and> sentinel (rbtree_events el) \<notin> fnode_of ` set xs \<and> (\<forall>x \<in> set xs. files el x \<noteq> None) \<and> files el NULL = None"

lemma free_registered_spec:
  assumes "tree_holds el xs"
  shows "\<exists>m tr. free_registered el = Some (el\<lparr>files := files el |` (- set xs), rbnodes := m, rbtree_events := tr\<rparr>)"
  using assms
proof (induction xs arbitrary: el)
  case Nil
  then have "rbtree_min_node (rbnodes el) (tree_of el) = Some NULL" using rb_index_min by (fastforce simp: tree_holds_def)
  then show ?case
    by (cases el) (subst free_registered.simps, auto)
next
  case (Cons x xs)
  let ?s = "sentinel (rbtree_events el)"
  have idx: "rb_index (fd_at (files el)) (rbnodes el, tree_of el) ([] @ fnode_of x # map fnode_of xs)"
    and dis: "distinct (x # xs)" and sen: "?s \<notin> fnode_of ` set (x # xs)"
    and live: "files el x \<noteq> None" "files el NULL = None"
    using Cons.prems by (simp_all add: tree_holds_def)
  then have x: "files el x \<noteq> None" "x \<noteq> NULL" by (metis, metis)
  have min: "rbtree_min_node (rbnodes el) (tree_of el) = Some (fnode_of x)" using rb_index_min [OF idx] by simp
  from rbtree_delete_index [OF idx] obtain m tr
    where del: "rbtree_delete (rbnodes el) (tree_of el) (fnode_of x) = Some (m, tr)" and tr: "sentinel tr = ?s"
      and idx': "rb_index (fd_at (files el)) (m, tr) (map fnode_of xs)" by auto
  define el1 where "el1 = el\<lparr>rbtree_events := tr, files := (files el)(x := None), rbnodes := m(fnode_of x := None)\<rparr>"
  have "tree_holds el1 xs"
    unfolding tree_holds_def
  proof (intro conjI)
    show "rb_index (fd_at (files el1)) (rbnodes el1, tree_of el1) (map fnode_of xs)"
    proof (rule rb_index_frame [OF idx'])
      show "agree_on (insert (sentinel tr) (set (map fnode_of xs))) m (rbnodes el1)"
        using dis sen tr by (auto simp: el1_def agree_on_def)
      show "fd_at (files el1) p = fd_at (files el) p" if "p \<in> set (map fnode_of xs)" for p
        using that dis by (auto simp: fd_of_def el1_def fd_at_def)
    qed (use key_order_tree [of el1] in \<open>simp_all add: el1_def\<close>)
    show "\<forall>y \<in> set xs. files el1 y \<noteq> None" "files el1 NULL = None"
      using Cons.prems dis by (auto simp: el1_def tree_holds_def)
  qed (use dis sen tr in \<open>simp_all add: el1_def\<close>)
  from Cons.IH [OF this] obtain m' tr' where
    IH: "free_registered el1 = Some (el1\<lparr>files := files el1 |` (- set xs), rbnodes := m', rbtree_events := tr'\<rparr>)" by blast
  have "free_registered el = free_registered el1"
    using min del x by (subst free_registered.simps) (auto simp: free_file_def el1_def)
  also note IH
  finally have run: "free_registered el =
      Some (el1\<lparr>files := files el1 |` (- set xs), rbnodes := m', rbtree_events := tr'\<rparr>)" .
  have fs: "files el1 |` (- set xs) = files el |` (- set (x # xs))"
    by (auto simp: el1_def restrict_map_def fun_eq_iff)
  show ?case unfolding run fs
    by (intro exI [of _ m'] exI [of _ tr']) (simp add: el1_def)
qed

lemma free_timers_spec:
  assumes q: "queue el xs"
  shows "\<exists>tl. free_timers el = Some (el\<lparr>timers := timers el |` (- set xs), tlinks := tl\<rparr>)"
proof -
  let ?h = "time_events el"
  define I where "I ps m s \<longleftrightarrow> (\<exists>us zs tl. ps = map tnode_of zs \<and> xs = us @ zs \<and> dlist m ?h ps
      \<and> s = el\<lparr>timers := timers el |` (- set us), tlinks := tl\<rparr>)" for ps m and s :: "'a event_loop"
  define Q where "Q m s \<longleftrightarrow> (\<exists>tl. s = el\<lparr>timers := timers el |` (- set xs), tlinks := tl\<rparr>)" for m :: lmem and s :: "'a event_loop"
  let ?body = "\<lambda>ti m el. do {
         m \<leftarrow> list_del m ti;
         let t = cast_to_time_event ti;
         tid \<leftarrow> rd te_id (timers el) t;
         let el = free_timer (el\<lparr>tlinks := m\<rparr>) t;
         Some (tlinks el, el, False)
       }"
  have ring: "dlist (tlinks el) ?h (map tnode_of xs)" and live: "\<forall>x \<in> set xs. timers el x \<noteq> None"
    using q by (auto simp: queue_def)
  have dist: "distinct xs" by (rule queue_distinct [OF q])
  have "\<exists>m' s'. LIST_FOR ?body ?h (tlinks el) el = Some (m', s') \<and> Q m' s'"
    unfolding LIST_FOR_def
  proof (rule list_for_rule [where I = I])
    show "rd nxt (tlinks el) ?h = Some (hd (map tnode_of xs @ [?h]))" using dlist_fst [of "tlinks el" ?h "[]"] ring by simp
    show "I (map tnode_of xs) (tlinks el) el"
      unfolding I_def using ring
      by (cases el) (rule exI [of _ "[]"], rule exI [of _ xs], rule exI [of _ "tlinks el"], simp)
    show "?h \<notin> set (map tnode_of xs)" using dlist_distinct [OF ring] by simp
    show "rd nxt m p = Some (hd (ps @ [?h]))" if "I (p # ps) m s" for p ps m s
      using that dlist_nxt [of m ?h "[]" p ps] by (auto simp: I_def)
    show "\<exists>n. rd nxt m ?h = Some n" if "I [] m s" for m s
      using that dlist_fst [of m ?h "[]" "[]"] by (auto simp: I_def)
    show "Q m s" if "I [] m s" for m s using that by (auto simp: I_def Q_def)
    show "\<exists>m' s' b. ?body p m s = Some (m', s', b) \<and> (if b then Q m' s' else I ps m' s')" if I: "I (p # ps) m s" for p ps m s
    proof -
      from I obtain us z zs tl where z: "p = tnode_of z" "ps = map tnode_of zs" "xs = us @ z # zs" "dlist m ?h (p # ps)"
        and s: "s = el\<lparr>timers := timers el |` (- set us), tlinks := tl\<rparr>" by (auto simp: I_def)
      obtain m1 where m1: "list_del m p = Some m1" "dlist m1 ?h ps" using ring.del_law [of m ?h "[]" p ps] z(4) by auto
      obtain t where t: "timers el z = Some t" using live z(3) by auto
      have "z \<notin> set us" using dist z(3) by simp
      then have rd: "rd te_id (timers s) z = Some (te_id t)" using t by (simp add: s rd_def)
      have "p \<notin> set (?h # ps)" using dlist_distinct [OF z(4)] by auto
      then have "dlist (m1(p := None)) ?h ps" by (intro dlist_frame [OF m1(2)] agree_on_clear)
      then have "I ps (m1(p := None)) (el\<lparr>timers := timers el |` (- set (us @ [z])), tlinks := m1(p := None)\<rparr>)"
        unfolding I_def using z(2,3)
        by (intro exI [of _ "us @ [z]"] exI [of _ zs] exI [of _ "m1(p := None)"]) simp
      then show ?thesis
        using m1(1) rd z(1)
        by (simp add: free_timer_def Let_def s restrict_more \<open>z \<notin> set us\<close> del: fun_upd_None_restrict)
          (rule exI [of _ False], simp)
    qed
  qed
  then show ?thesis unfolding free_timers_def Q_def by (auto simp del: LIST_FOR_def)
qed

lemma tree_holds_rest:
  assumes tab: "file_table el xs ys"
  shows "tree_holds (el\<lparr>kern := k, files := files el |` (- set ys), rbnodes := rbnodes el |` (- fnode_of ` set ys)\<rparr>) xs"
proof -
  let ?el = "el\<lparr>kern := k, files := files el |` (- set ys), rbnodes := rbnodes el |` (- fnode_of ` set ys)\<rparr>"
  have idx: "rb_index (fd_at (files el)) (rbnodes el, tree_of el) (map fnode_of xs)"
    and dis: "distinct (xs @ ys)" and sen: "sentinel (rbtree_events el) \<notin> fnode_of ` set (xs @ ys)"
    using tab by (simp_all add: file_table_def)
  have "rb_index (fd_at (files ?el)) (rbnodes ?el, tree_of ?el) (map fnode_of xs)"
  proof (rule rb_index_frame [OF idx])
    show "agree_on (insert (sentinel (tree_of el)) (set (map fnode_of xs))) (rbnodes el) (rbnodes ?el)"
      using dis sen by (auto simp: agree_on_def restrict_map_def)
    show "fd_at (files ?el) p = fd_at (files el) p" if "p \<in> set (map fnode_of xs)" for p
      using that dis by (auto simp: fd_at_def restrict_map_def)
  qed (use key_order_tree [of ?el] in simp_all)
  then show ?thesis
    using tab dis unfolding tree_holds_def by (auto simp: file_table_def restrict_map_def)
qed

lemma ez_delete_event_loop_spec:
  assumes tab: "file_table el xs ys" and q: "queue el ts"
    and own: "distinct [loop_at el, fired_at el, api_at (apidata el), events_at (apidata el)]"
      "set [loop_at el, fired_at el, api_at (apidata el), events_at (apidata el)] \<subseteq> h" "NULL \<notin> h"
  shows "\<exists>el'. ez_delete_event_loop os h (Some el) =
      Some (h - {loop_at el, fired_at el, api_at (apidata el), events_at (apidata el)}, Some el')
    \<and> files el' = files el |` (- set (xs @ ys)) \<and> timers el' = timers el |` (- set ts)
    \<and> kern el' = os_close os (os_close os (kern el) (epfd (apidata el))) (evfd (apidata el))"
proof -
  let ?st = "apidata el"
  define k where "k = os_close os (os_close os (kern el) (epfd ?st)) (evfd ?st)"
  have api: "ezApiDelete os (kern el) h ?st = Some (k, h - {events_at ?st} - {api_at ?st})"
    using own by (auto simp: ezApiDelete_def ez_free_block_def k_def Let_def)
  define el1 where "el1 = el\<lparr>kern := k, files := files el |` (- set ys), rbnodes := rbnodes el |` (- fnode_of ` set ys)\<rparr>"
  have r1: "free_recycled (el\<lparr>kern := k\<rparr>) (free_events el) = Some el1"
    using free_recycled_spec [of "el\<lparr>kern := k\<rparr>" "free_events el" ys] tab by (simp add: file_table_def el1_def)
  obtain m tr where r2: "free_registered el1 = Some (el1\<lparr>files := files el1 |` (- set xs), rbnodes := m, rbtree_events := tr\<rparr>)"
    using free_registered_spec tree_holds_rest [OF tab, of k] unfolding el1_def by blast
  define el2 where "el2 = el1\<lparr>files := files el1 |` (- set xs), rbnodes := m, rbtree_events := tr\<rparr>"
  have sel: "fired_at el2 = fired_at el" "loop_at el2 = loop_at el" "timers el2 = timers el" "kern el2 = k"
    "files el2 = files el |` (- set (xs @ ys))"
    by (auto simp: el2_def el1_def restrict_map_def fun_eq_iff)
  have "queue el2 ts" by (rule queue_cong [OF q]) (simp_all add: el2_def el1_def)
  from free_timers_spec [OF this] obtain tl
    where r3: "free_timers el2 = Some (el2\<lparr>timers := timers el2 |` (- set ts), tlinks := tl\<rparr>)" by blast
  have f1: "ez_free_block (h - {events_at ?st} - {api_at ?st}) (fired_at el2)
      = Some (h - {events_at ?st} - {api_at ?st} - {fired_at el})"
    and f2: "ez_free_block (h - {events_at ?st} - {api_at ?st} - {fired_at el}) (loop_at el)
      = Some (h - {loop_at el, fired_at el, api_at ?st, events_at ?st})"
    using own by (auto simp: ez_free_block_def sel)
  have "ez_delete_event_loop os h (Some el) = Some (h - {loop_at el, fired_at el, api_at ?st, events_at ?st},
      Some (el2\<lparr>timers := timers el2 |` (- set ts), tlinks := tl\<rparr>))"
    using api r1 r2 [folded el2_def] r3 f1 f2 by (simp add: ez_delete_event_loop_def sel(2))
  then show ?thesis using sel by (auto simp: k_def)
qed

section \<open>Dispatch\<close>



definition handled :: "(addr \<times> int \<times> addr \<times> int) list \<Rightarrow> bool" where
  "handled cs \<longleftrightarrow> (\<forall>c \<in> set cs. fst c \<noteq> NULL)"


lemma handled_append [simp]: "handled (cs @ ds) \<longleftrightarrow> handled cs \<and> handled ds"
  by (auto simp: handled_def)

lemma fd_of_kern [simp]: "fd_of (el\<lparr>kern := k\<rparr>) = fd_of el"
  by (simp add: fd_of_def fun_eq_iff)

lemma file_table_kern [simp]: "file_table (el\<lparr>kern := k\<rparr>) xs ys = file_table el xs ys"
  "registered (el\<lparr>kern := k\<rparr>) xs = registered el xs"
  by (simp_all add: file_table_def registered_def tree_of_def)

lemma ez_fund_registered:
  assumes "file_table el xs ys"
  shows "\<exists>fe. ez_fund_file_event el fd = Some fe
    \<and> (case registered el xs fd of None \<Rightarrow> fe = NULL
       | Some e \<Rightarrow> fe \<noteq> NULL \<and> files el fe = Some e \<and> fe_mask e \<noteq> AE_NONE)"
proof -
  obtain fe where fe: "ez_fund_file_event el fd = Some fe"
    "if fd \<in> fd_of el ` set xs then fe \<in> set xs \<and> fd_of el fe = fd else fe = NULL"
    using ez_fund_file_event_spec [OF assms, of fd] by blast
  show ?thesis
  proof (cases "fd \<in> fd_of el ` set xs")
    case True
    with fe obtain e where e: "files el fe = Some e" "fe_mask e \<noteq> AE_NONE" "fe \<in> set xs" "fe_fd e = fd"
      using assms by (auto simp: file_table_def fd_of_def)
    then have "registered el xs fd = Some e" by (auto simp: registered_iff [OF assms])
    moreover have "fe \<noteq> NULL" using e(1) assms by (auto simp: file_table_def)
    ultimately show ?thesis using fe(1) e by simp
  next
    case False
    with fe show ?thesis by (simp add: registered_None [THEN iffD2])
  qed
qed



section \<open>One round is right\<close>





section \<open>The run ends\<close>



lemma stop_requests:
  assumes "eventfd_counter os (evfd (apidata el)) cnt" "cnt (kern el) = 0" "0 < n" "n < 2 ^ 56"
  shows "\<exists>el'. ((\<lambda>l. ez_stop_event_loop os l) ^^ n) (Some el) = Some el'
    \<and> stop (ezApiDoEventfdCmd os el') = (if n = 1 then 1 else stop el)"
proof -
  have "((\<lambda>l. ez_stop_event_loop os l) ^^ n) (Some el) = Some ((ezApiStop os ^^ n) el)"
    by (induction n) (simp_all add: ez_stop_event_loop_def)
  moreover obtain k where k: "(ezApiStop os ^^ n) el = el\<lparr>kern := k\<rparr>" "unat (cnt k) = 255 * n"
    using stop_counts [OF assms(1,2,4)] by blast
  have "cnt k = STOP_CMD \<longleftrightarrow> unat (cnt k) = unat STOP_CMD" by (rule word_unat_eq_iff)
  then have "cnt k = STOP_CMD \<longleftrightarrow> n = 1" using k(2) by (simp add: STOP_CMD_def)
  then have "stop (ezApiDoEventfdCmd os (el\<lparr>kern := k\<rparr>)) = (if n = 1 then 1 else stop el)"
    using stop_command_read [of os "el\<lparr>kern := k\<rparr>" cnt] assms(1) by simp
  ultimately show ?thesis using k(1) by simp
qed




lemma before_poll: "\<exists>k. ezApiBeforePoll os el = el\<lparr>kern := k\<rparr>"
  unfolding ezApiBeforePoll_def ezApiAddEvent_def Let_def case_prod_unfold fst_conv by (rule exI, rule refl)

section \<open>Properties\<close>

text \<open>
  C21: \<^verbatim>\<open>ez_create_event_loop\<close> either answers a loop that is ready (an empty red-black tree and free list, an
  empty ring of timers, \<^verbatim>\<open>stop\<close> clear, both arrays of \<^verbatim>\<open>setsize\<close> entries) and holds exactly the four blocks it
  allocated, or, when one of the four allocations, \<^verbatim>\<open>epoll_create1\<close> or \<^verbatim>\<open>eventfd\<close> fails, answers NULL with every
  block freed again. When only \<^verbatim>\<open>eventfd\<close> fails, the epoll descriptor just opened is not closed: the system is left
  in the state right after that call.
\<close>

theorem ez_create_event_loop_correct:
  assumes "fresh_blocks h [base, fired_a, state, evs]"
    and "os_time os k = (k1, now)" and "os_epoll_create os k1 = (k2, ep)" and "os_eventfd os k2 = (k3, ev)"
    and "ok \<longleftrightarrow> base \<noteq> NULL \<and> fired_a \<noteq> NULL \<and> state \<noteq> NULL \<and> evs \<noteq> NULL \<and> ep \<noteq> - 1 \<and> ev \<noteq> - 1"
  shows "(\<exists>k' h' r. ez_create_event_loop os k h n base fired_a state evs = Some (k', h', r)
      \<and> (if ok then \<exists>el. r = Some el \<and> kern el = k' \<and> new_loop_ok h h' n base fired_a state evs el
         else r = None \<and> h' = h))
    \<and> (base \<noteq> NULL \<and> fired_a \<noteq> NULL \<and> state \<noteq> NULL \<and> evs \<noteq> NULL \<and> ep \<noteq> - 1 \<and> ev = - 1 \<longrightarrow>
      ez_create_event_loop os k h n base fired_a state evs = Some (k3, h, None))"
proof -
  note spec = ez_create_event_loop_spec [OF assms(1-4), of n, folded assms(5)]
  have "ez_create_event_loop os k h n base fired_a state evs = Some (k3, h, None)"
    if l: "base \<noteq> NULL" "fired_a \<noteq> NULL" "state \<noteq> NULL" "evs \<noteq> NULL" "ep \<noteq> - 1" "ev = - 1"
  proof -
    obtain m tr tl where init: "rbtree_init [base + off_sentinel \<mapsto> zero_node] (base + off_sentinel)
          (file_event_compare_proc Map.empty) = Some (m, tr)"
      "init_list_head [base + off_time_events \<mapsto> \<lparr>nxt = NULL, prv = NULL\<rparr>] (base + off_time_events) = Some tl"
      using new_loop_invariant [OF l(1)] by metis
    have "ezApiCreate os k1 (got (got h base) fired_a) n state evs = Some (k3, got (got h base) fired_a, None)"
      using assms(1,3,4) l by (auto simp: ezApiCreate_def Let_def fresh_blocks_def got_def ez_free_block_def)
    moreover have "ez_free_block (got (got h base) fired_a) fired_a = Some (got h base)"
      "ez_free_block (got h base) base = Some h"
      using assms(1) l by (auto simp: fresh_blocks_def got_def ez_free_block_def)
    ultimately show ?thesis using init assms(2) l by (simp add: ez_create_event_loop_def Let_def)
  qed
  with spec assms(5) show ?thesis by auto
qed

theorem ez_create_event_loop_correct_witness:
  "\<exists>k' h' el. ez_create_event_loop demo_os () {5} 4 896 4 1 2 = Some (k', h', Some el)
    \<and> h' = {5, 896, 4, 1, 2} \<and> file_table el [] [] \<and> in_service el []"
proof -
  have f: "fresh_blocks {5} [896, 4, 1, 2]" by (simp add: fresh_blocks_def)
  have o: "os_time demo_os () = ((), 7)" "os_epoll_create demo_os () = ((), 3)" "os_eventfd demo_os () = ((), 4)"
    by (simp_all add: demo_os_def)
  have ok: "True \<longleftrightarrow> (896 :: addr) \<noteq> NULL \<and> (4 :: addr) \<noteq> NULL \<and> (1 :: addr) \<noteq> NULL \<and> (2 :: addr) \<noteq> NULL
      \<and> (3 :: int) \<noteq> - 1 \<and> (4 :: int) \<noteq> - 1" by simp
  obtain k' h' el where "ez_create_event_loop demo_os () {5} 4 896 4 1 2 = Some (k', h', Some el)"
    "new_loop_ok {5} h' 4 896 4 1 2 el"
    using ez_create_event_loop_correct [OF f o ok, of 4] by auto
  then show ?thesis by (intro exI conjI) (assumption, auto simp: new_loop_ok_def)
qed

text \<open>
  C20: \<^verbatim>\<open>ez_delete_event_loop\<close> on a loop in service closes both descriptors and frees every registered file event,
  every recycled one, every timer and its own four blocks, each exactly once (to free anything twice would be
  undefined), and touches no other block.
\<close>

theorem ez_delete_event_loop_correct:
  assumes "file_table el xs ys" and "queue el ts"
    and "distinct [loop_at el, fired_at el, api_at (apidata el), events_at (apidata el)]"
    and "set [loop_at el, fired_at el, api_at (apidata el), events_at (apidata el)] \<subseteq> h" "NULL \<notin> h"
  shows "\<exists>el'. ez_delete_event_loop os h (Some el) =
      Some (h - {loop_at el, fired_at el, api_at (apidata el), events_at (apidata el)}, Some el')
    \<and> files el' = (\<lambda>x. if x \<in> set (xs @ ys) then None else files el x)
    \<and> timers el' = (\<lambda>t. if t \<in> set ts then None else timers el t)
    \<and> kern el' = os_close os (os_close os (kern el) (epfd (apidata el))) (evfd (apidata el))"
proof -
  have "m |` (- A) = (\<lambda>x. if x \<in> A then None else m x)" for m :: "addr \<rightharpoonup> 'x" and A
    by (auto simp: restrict_map_def fun_eq_iff)
  from ez_delete_event_loop_spec [OF assms, of os, unfolded this] show ?thesis .
qed

theorem ez_delete_event_loop_correct_witness:
  "\<exists>el'. ez_delete_event_loop demo_watch_os {896, 4, 1, 2, 77} (Some demo_file_loop) = Some ({77}, Some el')"
proof -
  have q: "queue demo_file_loop []" by (simp add: queue_def demo_file_loop_def dlist_def link_def rd_def)
  have s: "loop_at demo_file_loop = 896" "fired_at demo_file_loop = 4" "api_at (apidata demo_file_loop) = 1"
    "events_at (apidata demo_file_loop) = 2" by (simp_all add: demo_file_loop_def)
  have "{896, 4, 1, 2, 77} - {896, 4, 1, 2} = {77 :: addr}" by auto
  then show ?thesis
    using ez_delete_event_loop_correct [OF demo_table q, of "{896, 4, 1, 2, 77}" demo_watch_os] unfolding s by auto
qed


text \<open>The loop with descriptor 9 registered for reading, and a system that reports it readable.\<close>

lemma demo_registered:
  "\<exists>(el :: (int \<rightharpoonup> u32) event_loop) xs ys. file_table el xs ys \<and> registered el xs 9 = Some (new_record 9 1 7 8)
    \<and> queue el [] \<and> apidata el = apidata demo_file_loop \<and> setsize el = 4
    \<and> fired el = replicate 4 \<lparr>fired_fd = 0, fired_mask = 0\<rparr>"
proof -
  have m: "(1 :: int) \<noteq> AE_NONE" "(9 :: int) \<noteq> evfd (apidata demo_file_loop)" by (simp_all add: AE_NONE_def demo_loop_sel)
  have k: "epoll_kernel demo_watch_os (epfd (apidata demo_file_loop)) (\<lambda>k. k)" unfolding demo_loop_sel by (rule demo_kernel)
  have n: "registered demo_file_loop [] 9 = None" "AE_OK \<noteq> AE_ERR" by (simp_all add: registered_def ae_defs)
  obtain el where el: "ez_create_file_event demo_watch_os demo_file_loop 9 1 7 8 2000 = Some (el, AE_OK)"
    "tlinks el = [1000 \<mapsto> \<lparr>nxt = 1000, prv = 1000\<rparr>]" "time_events el = 1000"
    "fired el = replicate 4 \<lparr>fired_fd = 0, fired_mask = 0\<rparr>"
    using demo_registers by blast
  obtain xs ys where "file_table el xs ys" "apidata el = apidata demo_file_loop" "setsize el = setsize demo_file_loop"
    "registered el xs 9 = Some (new_record 9 1 7 8)"
    using ez_create_file_event_spec [OF demo_table demo_mirror k m demo_fresh, of 7 8] el(1) n by (auto simp: merged_def)
  moreover have "queue el []" by (simp add: queue_def el dlist_def link_def rd_def)
  moreover have "setsize demo_file_loop = 4" by (simp add: demo_loop_sel)
  ultimately show ?thesis using el(4) by metis
qed



text \<open>
  C35: a descriptor registered for reading only has no write handler, but a hang-up or an error that the kernel reports
  without \<^verbatim>\<open>EPOLLIN\<close> is turned into both bits, and the dispatch then calls the write handler through a null pointer,
  whatever the read handler did, as long as that left the registration alone.
\<close>

theorem hangup_calls_null_handler:
  assumes "file_table el xs ys" and "registered el xs fd = Some (new_record fd AE_READABLE proc cd)"
    and "j < length (fired el)" and "fired el ! j = \<lparr>fired_fd = fd, fired_mask = fired_mask_of (what_of ev)\<rparr>"
    and "ev = EPOLLHUP \<or> ev = EPOLLERR \<or> ev = EPOLLERR OR EPOLLHUP"
    and "\<forall>p i d b el el'. fp p i d b el = Some el' \<longrightarrow> files el' = files el"
  shows "dispatch_event fp el j = None"
proof -
  obtain fe where fe: "ez_fund_file_event el fd = Some fe" "fe \<noteq> NULL"
    "files el fe = Some (new_record fd AE_READABLE proc cd)"
    using ez_fund_registered [OF assms(1), of fd] assms(2) by auto
  have "signalled ev" using assms(5) by (auto simp: signalled_def epoll_defs)
  then have "fired_mask_of (what_of ev) = reported ev" using reported_correct by (simp add: signalled_def)
  moreover have "reported ev = 3" using assms(5) by (auto simp: reported_def epoll_defs)
  ultimately have m: "fired_mask (fired el ! j) = 3" "fired_fd (fired el ! j) = fd" using assms(4) by simp_all
  have writer: "dispatch_one fp el' fd fe 3 AE_WRITABLE wfileProc = None" if "files el' = files el" for el'
    using that fe by (simp add: dispatch_one_def new_record_def ae_defs call_file_proc_def)
  have reader: "dispatch_one fp el fd fe 3 AE_READABLE rfileProc = None
      \<or> (\<exists>el'. dispatch_one fp el fd fe 3 AE_READABLE rfileProc = Some el' \<and> files el' = files el)"
    using fe assms(6) by (cases "fp proc fd cd 1 el")
      (auto simp: dispatch_one_def new_record_def ae_defs call_file_proc_def)
  then show ?thesis using assms(3) fe(1) m writer by (auto simp: dispatch_event_def Let_def)
qed


theorem hangup_calls_null_handler_witness:
  "\<exists>el :: (int \<rightharpoonup> u32) event_loop. ez_fund_file_event el 9 \<noteq> Some NULL
    \<and> dispatch_event (\<lambda>p fd cd msk el. Some el) el 0 = None"
proof -
  obtain el :: "(int \<rightharpoonup> u32) event_loop" and xs ys where tab: "file_table el xs ys" and reg: "registered el xs 9 = Some (new_record 9 1 7 8)"
    using demo_registered by blast
  define el1 where "el1 = el\<lparr>fired := [\<lparr>fired_fd = 9, fired_mask = fired_mask_of (what_of EPOLLHUP)\<rparr>]\<rparr>"
  have "fd_of el1 = fd_of el" by (simp add: el1_def fd_of_def fun_eq_iff)
  then have "file_table el1 xs ys" "registered el1 xs 9 = Some (new_record 9 AE_READABLE 7 8)"
    using tab reg by (simp_all add: el1_def file_table_def registered_def tree_of_def AE_READABLE_def)
  moreover from this have "ez_fund_file_event el1 9 \<noteq> Some NULL" using ez_fund_registered [of el1 xs ys 9] by auto
  moreover have "dispatch_event (\<lambda>p fd cd msk el. Some el) el1 0 = None"
    by (rule hangup_calls_null_handler [where ev = EPOLLHUP]) (use calculation in \<open>auto simp: el1_def\<close>)
  ultimately show ?thesis by blast
qed




end
