(* ===== verification/Ez_Life.thy ===== *)
theory Ez_Life
  imports Ez_Event
begin

text \<open>
  The life of an event loop: the operations of \<^verbatim>\<open>src/ez_event.c\<close> put together. A program calls the loop in any
  order, and so do the callbacks that the loop calls in its rounds, while a round is under way. The invariant of the
  loop has the timers that the firing pass holds in its hands as a parameter; every operation keeps it, so it holds
  in every state that a loop can be in, and a loop that is deleted leaves nothing behind.
\<close>

section \<open>Histories\<close>






section \<open>The invariant\<close>

definition files_part ::
    "'k event_loop \<Rightarrow> (addr \<rightharpoonup> file_event) \<times> rbmem \<times> rbtree \<times> addr \<times> int" where
  "files_part el = (files el, rbnodes el, rbtree_events el, free_events el, ev_count el)"

definition clock_part :: "'k event_loop \<Rightarrow> (addr \<rightharpoonup> time_event) \<times> lmem \<times> int" where
  "clock_part el = (timers el, tlinks el, timeNextId el)"

text \<open>What stays as it was created.\<close>

definition anchor :: "'k event_loop \<Rightarrow> addr list \<times> int \<times> int \<times> int \<times> addr" where
  "anchor el = ([loop_at el, fired_at el, api_at (apidata el), events_at (apidata el)],
     epfd (apidata el), evfd (apidata el), setsize el, time_events el)"

lemmas part_defs = files_part_def clock_part_def anchor_def

definition files_ok :: "('k \<Rightarrow> int \<rightharpoonup> u32) \<Rightarrow> 'k event_loop \<Rightarrow> bool" where
  "files_ok W el \<longleftrightarrow> (\<exists>xs ys. file_table el xs ys \<and> full el xs ys \<and> mirrored W el xs)"

text \<open>\<open>ts\<close> are the timers in the queue, \<open>fl\<close> those in flight: taken off the queue by a firing pass, and not freed.\<close>

definition timers_ok :: "'k event_loop \<Rightarrow> addr list \<Rightarrow> addr list \<Rightarrow> bool" where
  "timers_ok el ts fl \<longleftrightarrow> in_service el ts \<and> distinct (ts @ fl) \<and> dom (timers el) = set ts \<union> set fl
     \<and> inj_on (tid el) (set ts \<union> set fl) \<and> (\<forall>x \<in> set fl. tid el x < timeNextId el)
     \<and> dom (tlinks el) = insert (time_events el) (tnode_of ` (set ts \<union> set fl))
     \<and> time_events el \<notin> tnode_of ` set fl"








section \<open>Calls keep it\<close>

text \<open>The operations on file events do not touch the timers, and the other way round.\<close>

definition apart ::
    "'k event_loop \<Rightarrow> ((addr \<rightharpoonup> time_event) \<times> lmem \<times> int) \<times> addr list \<times> int \<times> int \<times> int \<times> addr" where
  "apart el = (clock_part el, anchor el)"

lemmas apart_defs = apart_def part_defs

lemma apart_upd [simp]: "apart (el\<lparr>kern := k\<rparr>) = apart el" "apart (el\<lparr>files := f\<rparr>) = apart el"
  "apart (el\<lparr>rbnodes := m\<rparr>) = apart el" "apart (el\<lparr>rbtree_events := tr\<rparr>) = apart el"
  "apart (el\<lparr>ev_count := c\<rparr>) = apart el" "apart (el\<lparr>free_events := p\<rparr>) = apart el"
  by (simp_all add: apart_defs)






lemma del_event_apart [simp]: "apart (ezApiDelEvent os el fd msk old) = apart el"
  by (simp add: ezApiDelEvent_def Let_def split: prod.splits)

















text \<open>All that a program or a callback does keeps the invariant, whatever timers are in flight.\<close>

definition loop_ok :: "'k os \<Rightarrow> ('k \<Rightarrow> int \<rightharpoonup> u32) \<Rightarrow> 'k event_loop \<Rightarrow> addr list \<Rightarrow> addr list \<Rightarrow> bool" where
  "loop_ok os W el ts fl \<longleftrightarrow> epoll_kernel os (epfd (apidata el)) W \<and> files_ok W el \<and> timers_ok el ts fl"








section \<open>The firing pass keeps it\<close>



















section \<open>Rounds keep it\<close>

definition steady :: "'k os \<Rightarrow> ('k \<Rightarrow> int \<rightharpoonup> u32) \<Rightarrow> 'k event_loop \<Rightarrow> 'k event_loop \<Rightarrow> bool" where
  "steady os W el el' \<longleftrightarrow> (\<forall>ts fl. loop_ok os W el ts fl \<longrightarrow> (\<exists>ts'. loop_ok os W el' ts' fl) \<and> anchor el' = anchor el)"


lemma steady_refl [simp]: "steady os W el el"
  unfolding steady_def by blast
























section \<open>Birth and death\<close>




section \<open>A life to look at\<close>








section \<open>Property\<close>



end
