(* ===== verification/Ez_Util.thy ===== *)
theory Ez_Util
  imports Ez_Loop
begin

text \<open>
  The number parsers of \<^verbatim>\<open>src/ez_util.c\<close>, on byte strings, and the reading of a file. The three conversions of the
  C library that the wrappers call are modelled here as the standard describes them (C locale, 64-bit
  \<^verbatim>\<open>long\<close>); the system calls of \<^verbatim>\<open>ez_read_file\<close> are parameters.
\<close>

section \<open>Characters\<close>

definition is_digit :: "u8 \<Rightarrow> bool" where
  "is_digit c \<longleftrightarrow> 48 \<le> c \<and> c \<le> 57"

definition digit_of :: "u8 \<Rightarrow> int" where
  "digit_of c = int (unat c) - 48"

text \<open>
  \<^verbatim>\<open>isspace\<close> takes an \<^verbatim>\<open>unsigned char\<close> value; a byte from 128 on is a negative \<^verbatim>\<open>char\<close>, for which the call is
  undefined.
\<close>

definition is_space :: "u8 \<Rightarrow> bool" where
  "is_space c \<longleftrightarrow> c = 32 \<or> 9 \<le> c \<and> c \<le> 13"

definition c_isspace :: "u8 \<Rightarrow> bool option" where
  "c_isspace c = (if c < 128 then Some (is_space c) else None)"

section \<open>\<^verbatim>\<open>ez_atoi\<close>\<close>

definition i32 :: "int \<Rightarrow> int option" where
  "i32 x = (if - (2 ^ 31) \<le> x \<and> x < 2 ^ 31 then Some x else None)"

fun atoi_loop :: "u8 list \<Rightarrow> nat \<Rightarrow> int \<Rightarrow> int option" where
  "atoi_loop line 0 value = Some (if value < 0 then - 1 else value)"
| "atoi_loop [] (Suc n) value = None"
| "atoi_loop (c # line) (Suc n) value =
     (if c < 48 \<or> c > 57 then Some (- 1)
      else do {
        value \<leftarrow> i32 (value * 10);
        value \<leftarrow> i32 (value + digit_of c);
        atoi_loop line n value
      })"

definition ez_atoi :: "u8 list \<Rightarrow> nat \<Rightarrow> int option" where
  "ez_atoi line n = (if n = 0 then Some (- 1) else atoi_loop line n 0)"

section \<open>\<^verbatim>\<open>ez_strtoull_len\<close>\<close>

fun ez_skip_space :: "u8 list \<Rightarrow> nat \<Rightarrow> (u8 list \<times> nat) option" where
  "ez_skip_space str 0 = Some (str, 0)"
| "ez_skip_space [] (Suc len) = None"
| "ez_skip_space (c # str) (Suc len) = do {
     b \<leftarrow> c_isspace c;
     (if b then ez_skip_space str len else Some (c # str, Suc len))
   }"

text \<open>The loop over the digits answers the rest, the value, and whether it left the function with \<^verbatim>\<open>return false\<close>.\<close>

fun strtoull_loop :: "u8 list \<Rightarrow> nat \<Rightarrow> u64 \<Rightarrow> (u8 list \<times> nat \<times> u64 \<times> bool) option" where
  "strtoull_loop str 0 out = Some (str, 0, out, False)"
| "strtoull_loop [] (Suc len) out = None"
| "strtoull_loop (c # str) (Suc len) out =
     (if is_digit c then
        (if out \<ge> (2 ^ 64 - 1) div 10 then Some (c # str, Suc len, out, True)
         else strtoull_loop str len (out * 10 + ucast c - 48))
      else Some (c # str, Suc len, out, False))"

definition ez_strtoull_len :: "u8 list \<Rightarrow> nat \<Rightarrow> (bool \<times> u64) option" where
  "ez_strtoull_len str len = do {
     (str, len) \<leftarrow> ez_skip_space str len;
     (str, len, out, ret) \<leftarrow> strtoull_loop str len 0;
     (if ret then Some (False, out)
      else do {
        (str, len) \<leftarrow> ez_skip_space str len;
        Some (len = 0, out)
      })
   }"

section \<open>The conversions of the C library\<close>

text \<open>
  A string ends at its terminator, which is not part of the list. A conversion skips white space, takes an optional
  sign and the longest run of digits; without a digit nothing is converted and the end pointer is the
  start. \<open>c_number\<close> answers the sign, the digits and the end, as an index.
\<close>

definition base_digit :: "int \<Rightarrow> u8 \<Rightarrow> bool" where
  "base_digit b c \<longleftrightarrow> is_digit c \<and> digit_of c < b"

definition number_of :: "int \<Rightarrow> u8 list \<Rightarrow> int" where
  "number_of b ds = foldl (\<lambda>v c. v * b + digit_of c) 0 ds"

definition c_number :: "int \<Rightarrow> u8 list \<Rightarrow> bool \<times> u8 list \<times> nat" where
  "c_number b s =
     (let sp = takeWhile is_space s;
          r = dropWhile is_space s;
          neg = (r \<noteq> [] \<and> hd r = 45);
          sgned = (r \<noteq> [] \<and> (hd r = 45 \<or> hd r = 43));
          r = (if sgned then tl r else r);
          ds = takeWhile (base_digit b) r
      in (neg, ds, if ds = [] then 0 else length sp + (if sgned then 1 else 0) + length ds))"

text \<open>Value, end pointer, and whether \<^verbatim>\<open>errno\<close> is \<^verbatim>\<open>ERANGE\<close>.\<close>

definition c_strtoull :: "int \<Rightarrow> u8 list \<Rightarrow> u64 \<times> nat \<times> bool" where
  "c_strtoull b s = (let (neg, ds, e) = c_number b s; v = number_of b ds in
     if v \<ge> 2 ^ 64 then (2 ^ 64 - 1, e, True)
     else (word_of_int (if neg then - v else v), e, False))"

definition c_strtoll :: "int \<Rightarrow> u8 list \<Rightarrow> int \<times> nat \<times> bool" where
  "c_strtoll b s = (let (neg, ds, e) = c_number b s; v = (if neg then - number_of b ds else number_of b ds) in
     if v \<ge> 2 ^ 63 then (2 ^ 63 - 1, e, True)
     else if v < - (2 ^ 63) then (- (2 ^ 63), e, True)
     else (v, e, False))"

definition char_at :: "u8 list \<Rightarrow> nat \<Rightarrow> u8" where
  "char_at s e = (if e < length s then s ! e else 0)"

text \<open>\<^verbatim>\<open>isspace(*endptr) || (*endptr == '\0' && endptr != str)\<close>.\<close>

definition good_end :: "u8 list \<Rightarrow> nat \<Rightarrow> bool option" where
  "good_end s e = do { b \<leftarrow> c_isspace (char_at s e); Some (b \<or> char_at s e = 0 \<and> e \<noteq> 0) }"

section \<open>The wrappers\<close>

text \<open>They answer the result and what is in \<^verbatim>\<open>*out\<close> afterwards.\<close>

definition ez_strtoull :: "u8 list \<Rightarrow> (bool \<times> u64) option" where
  "ez_strtoull s = (let (ull, e, erange) = c_strtoull 10 s in
     if erange then Some (False, 0)
     else do {
       g \<leftarrow> good_end s e;
       (if g then
          (if sint ull < 0 \<and> 45 \<in> set s then Some (False, 0) else Some (True, ull))
        else Some (False, 0))
     })"

definition ez_strtoll :: "u8 list \<Rightarrow> (bool \<times> int) option" where
  "ez_strtoll s = (let (ll, e, erange) = c_strtoll 10 s in
     if erange then Some (False, 0)
     else do { g \<leftarrow> good_end s e; (if g then Some (True, ll) else Some (False, 0)) })"

text \<open>The value is an \<^verbatim>\<open>unsigned long\<close> (a \<^verbatim>\<open>long\<close> below) of 64 bits; the assignment to \<^verbatim>\<open>*out\<close> keeps 32.\<close>

definition ez_strtoul :: "u8 list \<Rightarrow> (bool \<times> u32) option" where
  "ez_strtoul s = (let (l, e, erange) = c_strtoull 10 s in
     if erange then Some (False, 0)
     else do {
       g \<leftarrow> good_end s e;
       (if g then
          (if sint l < 0 \<and> 45 \<in> set s then Some (False, 0) else Some (True, ucast l))
        else Some (False, 0))
     })"

definition to_int32 :: "int \<Rightarrow> int" where
  "to_int32 x = sint (word_of_int x :: u32)"

definition ez_strtol :: "u8 list \<Rightarrow> (bool \<times> int) option" where
  "ez_strtol s = (let (l, e, erange) = c_strtoll 10 s in
     if erange then Some (False, 0)
     else do { g \<leftarrow> good_end s e; (if g then Some (True, to_int32 l) else Some (False, 0)) })"

definition ez_str2oct :: "u8 list \<Rightarrow> (bool \<times> int) option" where
  "ez_str2oct s = (let (l, e, erange) = c_strtoll 8 s in
     if erange then Some (False, 0)
     else do { g \<leftarrow> good_end s e; (if g then Some (True, to_int32 l) else Some (False, 0)) })"

section \<open>\<^verbatim>\<open>ez_read_file\<close>\<close>

text \<open>\<open>rdf\<close> answers the result of \<^verbatim>\<open>read\<close> and the bytes it stored.\<close>

definition ez_read_file ::
    "('k \<Rightarrow> u8 list \<Rightarrow> 'k \<times> int) \<Rightarrow> ('k \<Rightarrow> int \<Rightarrow> nat \<Rightarrow> 'k \<times> int \<times> u8 list) \<Rightarrow> ('k \<Rightarrow> int \<Rightarrow> 'k)
      \<Rightarrow> 'k \<Rightarrow> u8 list \<Rightarrow> u8 list \<Rightarrow> nat \<Rightarrow> 'k \<times> u8 list \<times> int" where
  "ez_read_file opn rdf cls k file_name buf len =
     (let (k, fd) = opn k file_name in
      if fd > 0 then
        let (k, n, bs) = rdf k fd len;
            buf = bs @ drop (length bs) buf;
            n = (if n < 0 then 0 else n)
        in (cls k fd, buf, n)
      else (k, buf, 0))"

section \<open>Values of digit strings\<close>

lemma digit_range: "is_digit c \<Longrightarrow> 0 \<le> digit_of c \<and> digit_of c \<le> 9"
proof -
  assume "is_digit c"
  then have "unat (48 :: u8) \<le> unat c" "unat c \<le> unat (57 :: u8)" by (simp_all add: is_digit_def word_le_nat_alt)
  then have "48 \<le> unat c" "unat c \<le> 57" by simp_all
  then show ?thesis unfolding digit_of_def by linarith
qed

abbreviation value_from :: "int \<Rightarrow> u8 list \<Rightarrow> int" where
  "value_from v ds \<equiv> foldl (\<lambda>v c. v * 10 + digit_of c) v ds"

lemma value_mono: "\<forall>c \<in> set ds. is_digit c \<Longrightarrow> 0 \<le> v \<Longrightarrow> v \<le> value_from v ds"
proof (induction ds arbitrary: v)
  case (Cons c ds)
  have "0 \<le> digit_of c" using Cons.prems(1) digit_range by simp
  then have "v \<le> v * 10 + digit_of c" "0 \<le> v * 10 + digit_of c" using Cons.prems(2) by auto
  with Cons.IH [of "v * 10 + digit_of c"] Cons.prems(1) show ?case by simp
qed simp

lemma not_digit: "c < 48 \<or> c > 57 \<longleftrightarrow> \<not> is_digit c"
  by (auto simp: is_digit_def)

lemma atoi_loop_spec:
  assumes "n \<le> length line" "0 \<le> v" "v < 2 ^ 31"
  shows "atoi_loop line n v =
    (let p = takeWhile is_digit (take n line) in
     if value_from v p \<ge> 2 ^ 31 then None
     else if p = take n line then Some (value_from v p) else Some (- 1))"
  using assms
proof (induction line n v rule: atoi_loop.induct)
  case (1 line v)
  then show ?case by simp
next
  case (2 n v)
  then show ?case by simp
next
  case (3 c line n v)
  show ?case
  proof (cases "is_digit c")
    case False
    then show ?thesis using 3 by (simp add: not_digit)
  next
    case True
    let ?v = "v * 10 + digit_of c" and ?p = "takeWhile is_digit (take n line)"
    have d: "0 \<le> digit_of c" "digit_of c \<le> 9" using digit_range [OF True] by auto
    have le: "?v \<le> value_from ?v ?p" using d 3 by (intro value_mono) (auto dest: set_takeWhileD)
    show ?thesis
    proof (cases "?v < 2 ^ 31")
      case small: True
      then have "i32 (v * 10) = Some (v * 10)" "i32 ?v = Some ?v" using d 3 by (auto simp: i32_def)
      moreover from this True have "atoi_loop line n ?v = (if value_from ?v ?p \<ge> 2 ^ 31 then None
          else if ?p = take n line then Some (value_from ?v ?p) else Some (- 1))"
        using 3 small d not_digit [of c] by (simp add: Let_def)
      ultimately show ?thesis using True by (simp add: not_digit Let_def)
    next
      case False
      then have "i32 (v * 10) = None \<or> i32 (v * 10) = Some (v * 10) \<and> i32 ?v = None" using d 3 by (auto simp: i32_def)
      then have "atoi_loop (c # line) (Suc n) v = None" using True by (auto simp: not_digit)
      moreover have "value_from ?v ?p \<ge> 2 ^ 31" using False le by simp
      ultimately show ?thesis using True by (simp add: Let_def del: atoi_loop.simps)
    qed
  qed
qed

section \<open>\<^verbatim>\<open>ez_strtoull_len\<close> accepts the right strings\<close>

lemma skip_spec:
  assumes "len \<le> length str" "\<forall>c \<in> set str. c < 128"
  shows "ez_skip_space str len =
    Some (drop (length (takeWhile is_space (take len str))) str, len - length (takeWhile is_space (take len str)))"
  using assms by (induction str len rule: ez_skip_space.induct) (auto simp: c_isspace_def)

lemma u64_step:
  assumes "is_digit c" "out < (2 ^ 64 - 1) div 10"
  shows "int (unat (out * 10 + ucast c - 48 :: u64)) = int (unat out) * 10 + digit_of c"
proof -
  have c: "48 \<le> unat c" "unat c \<le> 57"
    using assms(1) by (simp_all add: is_digit_def word_le_nat_alt)
  have o: "unat out < 1844674407370955161" using assms(2) by (simp add: word_less_nat_alt)
  have u: "unat (ucast c :: u64) = unat c" unfolding unsigned_ucast_eq by (rule take_bit_nat_eq_self) (use c in simp)
  have m: "unat (out * 10) = unat out * 10" using o by (simp add: unat_word_ariths)
  have "(48 :: u64) \<le> ucast c" using u c by (simp add: word_le_nat_alt)
  then have d: "unat (ucast c - 48 :: u64) = unat c - 48" using u by (simp add: unat_sub)
  have "unat (out * 10 + (ucast c - 48)) = unat out * 10 + (unat c - 48)"
    unfolding unat_word_ariths(1) m d by (rule mod_less) (use o c in simp)
  then have "unat (out * 10 + ucast c - 48) = unat out * 10 + (unat c - 48)" by (simp only: add_diff_eq)
  moreover have "int (unat c - 48) = digit_of c" using c unfolding digit_of_def by linarith
  ultimately show ?thesis by linarith
qed

text \<open>The bound in the source: a value at or above it is not multiplied by ten any more.\<close>

lemma strtoull_loop_spec:
  assumes "len \<le> length str" "v = int (unat out)" "unat out \<le> 18446744073709551609"
  defines "p \<equiv> takeWhile is_digit (take len str)"
  shows "if value_from v p \<le> 18446744073709551609
     then \<exists>w. strtoull_loop str len out = Some (drop (length p) str, len - length p, w, False) \<and> int (unat w) = value_from v p
     else \<exists>r n w. strtoull_loop str len out = Some (r, n, w, True)"
  using assms(1-3) unfolding p_def
proof (induction str len out arbitrary: v rule: strtoull_loop.induct)
  case (1 str out)
  then have "v \<le> 18446744073709551609" by linarith
  with 1 show ?case by simp
next
  case (2 len out)
  then show ?case by simp
next
  case (3 c str len out)
  show ?case
  proof (cases "is_digit c")
    case False
    have "v \<le> 18446744073709551609" using 3(3,4) by linarith
    then show ?thesis using False 3(3) by simp
  next
    case True
    let ?v = "v * 10 + digit_of c" and ?p = "takeWhile is_digit (take len str)"
    have d: "0 \<le> digit_of c" "digit_of c \<le> 9" using digit_range [OF True] by auto
    have le: "?v \<le> value_from ?v ?p" using d 3(3) by (intro value_mono) (auto dest: set_takeWhileD)
    have b: "out \<ge> (2 ^ 64 - 1) div 10 \<longleftrightarrow> unat out \<ge> 1844674407370955161" by (simp add: word_le_nat_alt)
    show ?thesis
    proof (cases "out \<ge> (2 ^ 64 - 1) div 10")
      case big: True
      then have "unat out \<ge> 1844674407370955161" using b by blast
      then have "?v > 18446744073709551609" using d 3(3) by linarith
      then have "value_from ?v ?p > 18446744073709551609" using le by linarith
      then show ?thesis using True big by simp
    next
      case small: False
      let ?o = "out * 10 + ucast c - 48"
      have o: "int (unat ?o) = ?v" using u64_step [OF True, of out] small 3(3) by simp
      have "unat out < 1844674407370955161" using small b by (metis linorder_not_le)
      then have "?v \<le> 18446744073709551609" using d 3(3) by linarith
      then have "unat ?o \<le> 18446744073709551609" using o by linarith
      moreover have "len \<le> length str" using 3(2) by simp
      ultimately have "if value_from ?v ?p \<le> 18446744073709551609
        then \<exists>w. strtoull_loop str len ?o = Some (drop (length ?p) str, len - length ?p, w, False) \<and> int (unat w) = value_from ?v ?p
        else \<exists>r n w. strtoull_loop str len ?o = Some (r, n, w, True)"
        by (intro 3(1) [OF True small]) (simp_all only: o)
      then show ?thesis using True small by (simp del: of_nat_unat)
    qed
  qed
qed

definition MAX_PARSED :: int where "MAX_PARSED = 2 ^ 64 - 1 - 6"

text \<open>The three parts of a text: white space, digits, the rest.\<close>

definition digits_in :: "u8 list \<Rightarrow> u8 list" where
  "digits_in bs = takeWhile is_digit (dropWhile is_space bs)"

definition after_digits :: "u8 list \<Rightarrow> u8 list" where
  "after_digits bs = dropWhile is_digit (dropWhile is_space bs)"

lemma drop_takeWhile: "drop (length (takeWhile P xs)) xs = dropWhile P xs"
  by (metis dropWhile_eq_drop)

lemma take_drop_part:
  assumes "take len str = bs" "n \<le> length bs" "length bs = len"
  shows "take (len - n) (drop n str) = drop n bs"
  using assms(1) drop_take [of n len str] by simp

lemma ez_strtoull_len_spec:
  assumes len: "len \<le> length str" and ascii: "\<forall>c \<in> set str. c < 128"
  shows "\<exists>out. ez_strtoull_len str len =
      Some (number_of 10 (digits_in (take len str)) \<le> MAX_PARSED \<and> (\<forall>c \<in> set (after_digits (take len str)). is_space c), out)
    \<and> (number_of 10 (digits_in (take len str)) \<le> MAX_PARSED \<longrightarrow>
        int (unat out) = number_of 10 (digits_in (take len str)))"
proof -
  define bs where "bs = take len str"
  define a where "a = length (takeWhile is_space bs)"
  define ds where "ds = digits_in bs"
  have lb: "length bs = len" using len by (simp add: bs_def)
  have al: "a \<le> len" unfolding a_def lb [symmetric] by (rule length_takeWhile_le)
  have s1: "ez_skip_space str len = Some (drop a str, len - a)" using skip_spec [OF len ascii] by (simp add: a_def bs_def)
  have t1: "take (len - a) (drop a str) = dropWhile is_space bs"
    using take_drop_part [of len str bs a] lb al by (simp add: bs_def [symmetric] a_def drop_takeWhile)
  have l1: "len - a \<le> length (drop a str)" using len by simp
  have v: "value_from 0 ds = number_of 10 ds" by (simp add: number_of_def)
  note loop = strtoull_loop_spec [OF l1, of 0 0, unfolded t1]
  have ds': "takeWhile is_digit (dropWhile is_space bs) = ds" by (simp add: ds_def digits_in_def)
  show ?thesis
  proof (cases "number_of 10 ds \<le> MAX_PARSED")
    case False
    then obtain r n w where "strtoull_loop (drop a str) (len - a) 0 = Some (r, n, w, True)"
      using loop unfolding ds' v by (auto simp: MAX_PARSED_def split: if_splits)
    then have "ez_strtoull_len str len = Some (False, w)" using s1 by (simp add: ez_strtoull_len_def)
    then show ?thesis using False unfolding bs_def [symmetric] ds_def [symmetric] by simp
  next
    case True
    then obtain w where w: "strtoull_loop (drop a str) (len - a) 0 = Some (drop (length ds) (drop a str), len - a - length ds, w, False)"
      "int (unat w) = number_of 10 ds"
      using loop unfolding ds' v by (auto simp: MAX_PARSED_def split: if_splits)
    let ?s = "drop (length ds) (drop a str)" and ?n = "len - a - length ds"
    have lt: "length (dropWhile is_space bs) = len - a" using t1 l1 by (metis length_take min.absorb2)
    have dl: "length ds \<le> len - a" unfolding lt [symmetric] ds_def digits_in_def by (rule length_takeWhile_le)
    have t2: "take ?n ?s = after_digits bs"
      using take_drop_part [OF t1 _ lt, of "length ds"] dl lt by (simp add: after_digits_def ds_def digits_in_def drop_takeWhile)
    have l2: "?n \<le> length ?s" "\<forall>c \<in> set ?s. c < 128" using len ascii by (auto dest: in_set_dropD)
    have "length (after_digits bs) = ?n" unfolding t2 [symmetric] using l2(1) by simp
    moreover have "length (takeWhile is_space (after_digits bs)) = length (after_digits bs) \<longleftrightarrow> (\<forall>c \<in> set (after_digits bs). is_space c)"
      by (metis takeWhile_eq_all_conv takeWhile_eq_take take_all_iff order_refl)
    moreover have "length (takeWhile is_space (after_digits bs)) \<le> length (after_digits bs)" by (rule length_takeWhile_le)
    ultimately have z: "?n - length (takeWhile is_space (after_digits bs)) = 0 \<longleftrightarrow> (\<forall>c \<in> set (after_digits bs). is_space c)"
      by linarith
    have "ez_skip_space ?s ?n = Some (drop (length (takeWhile is_space (after_digits bs))) ?s,
        ?n - length (takeWhile is_space (after_digits bs)))"
      using skip_spec [OF l2] unfolding t2 .
    then have "ez_strtoull_len str len = Some (?n - length (takeWhile is_space (after_digits bs)) = 0, w)"
      unfolding ez_strtoull_len_def s1 bind.bind_lunit prod.case w(1) by simp
    then show ?thesis using True w(2) unfolding bs_def [symmetric] ds_def [symmetric] z by simp
  qed
qed

section \<open>Decimal texts\<close>

fun dec_text :: "nat \<Rightarrow> u8 list" where
  "dec_text n = (if n < 10 then [of_nat (48 + n)] else dec_text (n div 10) @ [of_nat (48 + n mod 10)])"

declare dec_text.simps [simp del]

definition int_text :: "int \<Rightarrow> u8 list" where
  "int_text v = (if v < 0 then 45 # dec_text (nat (- v)) else dec_text (nat v))"

lemma digit_char:
  assumes "n < 10"
  shows "is_digit (of_nat (48 + n))" "digit_of (of_nat (48 + n)) = int n"
proof -
  have u: "unat (of_nat (48 + n) :: u8) = 48 + n"
    unfolding unat_of_nat by (rule mod_less) (use assms in simp)
  show "is_digit (of_nat (48 + n))"
    using assms unfolding is_digit_def word_le_nat_alt u by simp
  show "digit_of (of_nat (48 + n)) = int n" unfolding digit_of_def u by simp
qed

lemma number_of_snoc: "number_of b (ds @ [c]) = number_of b ds * b + digit_of c"
  by (simp add: number_of_def)

lemma dec_text_spec: "dec_text n \<noteq> [] \<and> (\<forall>c \<in> set (dec_text n). is_digit c) \<and> number_of 10 (dec_text n) = int n"
proof (induction n rule: dec_text.induct)
  case (1 n)
  show ?case
  proof (cases "n < 10")
    case True
    then show ?thesis using digit_char [OF True] by (subst (1 2 3) dec_text.simps) (simp add: number_of_def)
  next
    case False
    have m: "n mod 10 < 10" by simp
    have "dec_text n = dec_text (n div 10) @ [of_nat (48 + n mod 10)]" using False by (subst dec_text.simps) simp
    moreover have "int (n div 10 * 10 + n mod 10) = int n" by (simp only: div_mult_mod_eq)
    then have "int (n div 10) * 10 + int (n mod 10) = int n" by (simp only: of_nat_add of_nat_mult of_nat_numeral)
    ultimately show ?thesis using 1 [OF False] digit_char [OF m] by (simp add: number_of_snoc del: of_nat_add)
  qed
qed

lemmas dec_text_facts = dec_text_spec [THEN conjunct1] dec_text_spec [THEN conjunct2, THEN conjunct1]
  dec_text_spec [THEN conjunct2, THEN conjunct2]

lemma digit_facts: "is_digit c \<Longrightarrow> \<not> is_space c \<and> c \<noteq> 45 \<and> c \<noteq> 43 \<and> c < 128"
  by (auto simp: is_digit_def is_space_def word_le_nat_alt word_less_nat_alt)

lemma base_digit_10: "base_digit 10 = is_digit"
  using digit_range by (fastforce simp: base_digit_def fun_eq_iff)

lemma c_number_text: "c_number 10 (int_text v) = (v < 0, dec_text (nat \<bar>v\<bar>), length (int_text v))"
proof -
  define m where "m = nat \<bar>v\<bar>"
  note d = dec_text_facts [of "m"]
  have tw: "takeWhile is_digit (dec_text m) = dec_text m" using d(2) by (simp add: takeWhile_eq_all_conv)
  obtain c cs where c: "dec_text m = c # cs" using d(1) by (cases "dec_text m") auto
  then have "is_digit c" using d(2) by simp
  note f = digit_facts [OF this]
  show ?thesis
  proof (cases "v < 0")
    case True
    then have "int_text v = 45 # dec_text m" by (simp add: int_text_def m_def)
    moreover have "\<not> is_space 45" by (simp add: is_space_def)
    ultimately show ?thesis using True d(1) unfolding m_def [symmetric] by (simp add: tw c_number_def base_digit_10 Let_def)
  next
    case False
    then have t: "int_text v = dec_text m" by (simp add: int_text_def m_def)
    have "hd (int_text v) = c" "dropWhile is_space (int_text v) = int_text v" "takeWhile is_space (int_text v) = []"
      using f by (simp_all add: t c)
    then show ?thesis using False d(1) f unfolding m_def [symmetric] by (simp add: tw c_number_def base_digit_10 t Let_def)
  qed
qed

lemma number_of_text: "(if v < 0 then - number_of 10 (dec_text (nat \<bar>v\<bar>)) else number_of 10 (dec_text (nat \<bar>v\<bar>))) = v"
  "number_of 10 (dec_text (nat \<bar>v\<bar>)) = \<bar>v\<bar>"
  by (simp_all add: dec_text_facts(3))

lemma good_end_text: "good_end (int_text v) (length (int_text v)) = Some True"
  using dec_text_facts(1) by (auto simp: good_end_def char_at_def c_isspace_def is_space_def int_text_def)

lemma minus_in_text: "45 \<in> set (int_text v) \<longleftrightarrow> v < 0"
proof -
  have "(45 :: u8) \<notin> set (dec_text n)" for n
  proof
    assume "(45 :: u8) \<in> set (dec_text n)"
    then have "is_digit 45" using dec_text_facts(2) by blast
    then show False by (simp add: is_digit_def)
  qed
  then show ?thesis by (simp add: int_text_def)
qed

lemma c_strtoll_text:
  "- (2 ^ 63) \<le> v \<Longrightarrow> v < 2 ^ 63 \<Longrightarrow> c_strtoll 10 (int_text v) = (v, length (int_text v), False)"
  using number_of_text(1) [of v] by (simp add: c_strtoll_def c_number_text Let_def)

lemma c_strtoull_text:
  "- (2 ^ 64) < v \<Longrightarrow> v < 2 ^ 64 \<Longrightarrow> c_strtoull 10 (int_text v) = (word_of_int v, length (int_text v), False)"
  using number_of_text [of v] by (auto simp: c_strtoull_def c_number_text Let_def)

lemma sint_of_int64: "- (2 ^ 63) \<le> v \<Longrightarrow> v < 2 ^ 63 \<Longrightarrow> sint (word_of_int v :: u64) = v"
proof -
  assume "- (2 ^ 63) \<le> v" "v < 2 ^ 63"
  then have "signed_take_bit 63 v = v" by (intro signed_take_bit_int_eq_self) simp_all
  moreover have "sint (word_of_int v :: u64) = signed_take_bit (64 - 1) v" by (simp add: signed_of_int)
  ultimately show ?thesis by simp
qed

lemma ucast_word_of_int: "(ucast (word_of_int v :: u64) :: u32) = word_of_int v"
  by transfer simp

lemma wrapped: "- (2 ^ 64) < v \<Longrightarrow> v < - (2 ^ 63) \<Longrightarrow> 0 \<le> sint (word_of_int v :: u64)"
proof -
  assume v: "- (2 ^ 64) < v" "v < - (2 ^ 63)"
  have "(word_of_int v :: u64) = word_of_int (v + 2 ^ 64)" by transfer (simp add: take_bit_eq_mod)
  moreover have "sint (word_of_int (v + 2 ^ 64) :: u64) = v + 2 ^ 64" using v by (intro sint_of_int64) simp_all
  ultimately have "sint (word_of_int v :: u64) = v + 2 ^ 64" by (simp only:)
  then show ?thesis using v by linarith
qed

lemma unat_eq_of_int: "int (unat (w :: u64)) = v \<Longrightarrow> w = word_of_int v"
  by (metis of_nat_unat word_of_int_uint)

section \<open>Properties\<close>

text \<open>
  C30: \<^verbatim>\<open>ez_atoi\<close> on \<open>n\<close> readable bytes answers the decimal value when all are digits and the value fits an
  \<^verbatim>\<open>int\<close>, and -1 for no bytes and for a byte that is no digit; when the leading digits do not fit, the signed
  multiplication or addition overflows, which is undefined before the test \<^verbatim>\<open>value < 0\<close> is reached.
\<close>

theorem ez_atoi_correct:
  assumes "n \<le> length line"
  shows "ez_atoi line n =
    (if n = 0 then Some (- 1)
     else if number_of 10 (takeWhile is_digit (take n line)) \<ge> 2 ^ 31 then None
     else if \<forall>c \<in> set (take n line). is_digit c then Some (number_of 10 (take n line)) else Some (- 1))"
proof (cases "n = 0")
  case False
  let ?bs = "take n line"
  note loop = atoi_loop_spec [OF assms, of 0, unfolded Let_def]
  show ?thesis
  proof (cases "\<forall>c \<in> set ?bs. is_digit c")
    case True
    then have p: "takeWhile is_digit ?bs = ?bs" by (simp add: takeWhile_eq_all_conv)
    show ?thesis using loop [unfolded p] True False unfolding ez_atoi_def number_of_def p by simp
  next
    case no: False
    then have "takeWhile is_digit ?bs \<noteq> ?bs" by (simp add: takeWhile_eq_all_conv)
    with loop have "atoi_loop line n 0 =
        (if value_from 0 (takeWhile is_digit ?bs) \<ge> 2 ^ 31 then None else Some (- 1))" by (simp only: if_False) simp
    with no False show ?thesis unfolding ez_atoi_def number_of_def by (simp only: if_False)
  qed
qed (simp add: ez_atoi_def)

theorem ez_atoi_correct_witness:
  "ez_atoi [52, 50, 49] 3 = Some 421 \<and> ez_atoi [52, 45, 49] 3 = Some (- 1)
    \<and> ez_atoi [57, 57, 57, 57, 57, 57, 57, 57, 57, 57] 10 = None"
  using ez_atoi_correct [of 3 "[52, 50, 49]"] ez_atoi_correct [of 3 "[52, 45, 49]"]
    ez_atoi_correct [of 10 "[57, 57, 57, 57, 57, 57, 57, 57, 57, 57]"]
  by (simp add: number_of_def digit_of_def is_digit_def)

text \<open>
  C29: \<^verbatim>\<open>ez_strtoull_len\<close> on ASCII text succeeds exactly when the text is white space, digits and white space and the
  value is at most \<^verbatim>\<open>UINT64_MAX - 6\<close>, the bound its comment gives; then \<^verbatim>\<open>*out\<close> is the value, without wrap-around.
\<close>

theorem ez_strtoull_len_correct:
  assumes "len \<le> length str" "\<forall>c \<in> set str. c < 128"
  shows "\<exists>out. ez_strtoull_len str len =
      Some (number_of 10 (digits_in (take len str)) \<le> 2 ^ 64 - 1 - 6
        \<and> (\<forall>c \<in> set (after_digits (take len str)). is_space c), out)
    \<and> (number_of 10 (digits_in (take len str)) \<le> 2 ^ 64 - 1 - 6 \<longrightarrow>
        int (unat out) = number_of 10 (digits_in (take len str)))"
  using ez_strtoull_len_spec [OF assms] unfolding MAX_PARSED_def .

theorem ez_strtoull_len_correct_witness:
  "\<exists>out. ez_strtoull_len [32, 52, 50, 10, 55] 4 = Some (True, out) \<and> int (unat out) = 42"
  using ez_strtoull_len_correct [of 4 "[32, 52, 50, 10, 55]"]
  by (simp add: digits_in_def after_digits_def number_of_def is_digit_def digit_of_def is_space_def)

text \<open>
  C28: the decimal text of a number goes back to the number: \<^verbatim>\<open>ez_strtoll\<close> for every 64-bit signed value,
  \<^verbatim>\<open>ez_strtoull\<close> for every 64-bit unsigned value, \<^verbatim>\<open>ez_strtoull_len\<close> up to its bound. \<^verbatim>\<open>ez_strtol\<close> and
  \<^verbatim>\<open>ez_strtoul\<close> answer true for all of these too, with the value cut to 32 bits. \<^verbatim>\<open>ez_strtoull\<close> refuses the negative
  values down to -2^63, but accepts those below, up to -(2^64 - 1), as the value modulo 2^64.
\<close>

theorem number_text_roundtrip:
  shows "(- (2 ^ 63) \<le> v \<and> v < 2 ^ 63 \<longrightarrow> ez_strtoll (int_text v) = Some (True, v)
        \<and> ez_strtol (int_text v) = Some (True, to_int32 v))
    \<and> (0 \<le> v \<and> v < 2 ^ 64 \<longrightarrow> ez_strtoull (int_text v) = Some (True, word_of_int v)
        \<and> ez_strtoul (int_text v) = Some (True, word_of_int v))
    \<and> (0 \<le> v \<and> v \<le> 2 ^ 64 - 1 - 6 \<longrightarrow>
        ez_strtoull_len (int_text v) (length (int_text v)) = Some (True, word_of_int v))
    \<and> (- (2 ^ 63) \<le> v \<and> v < 0 \<longrightarrow> ez_strtoull (int_text v) = Some (False, 0))
    \<and> (- (2 ^ 64) < v \<and> v < - (2 ^ 63) \<longrightarrow> ez_strtoull (int_text v) = Some (True, word_of_int v))"
proof (intro conjI impI)
  note g = good_end_text [of v] and m = minus_in_text [of v]
  { assume v: "- (2 ^ 63) \<le> v \<and> v < 2 ^ 63"
    then show "ez_strtoll (int_text v) = Some (True, v)" "ez_strtol (int_text v) = Some (True, to_int32 v)"
      using c_strtoll_text [of v] g by (simp_all add: ez_strtoll_def ez_strtol_def) }
  { assume v: "0 \<le> v \<and> v < 2 ^ 64"
    then show "ez_strtoull (int_text v) = Some (True, word_of_int v)" "ez_strtoul (int_text v) = Some (True, word_of_int v)"
      using c_strtoull_text [of v] g m by (simp_all add: ez_strtoull_def ez_strtoul_def ucast_word_of_int) }
  { assume v: "- (2 ^ 63) \<le> v \<and> v < 0"
    then show "ez_strtoull (int_text v) = Some (False, 0)"
      using c_strtoull_text [of v] g m sint_of_int64 [of v] by (simp add: ez_strtoull_def) }
  { assume v: "- (2 ^ 64) < v \<and> v < - (2 ^ 63)"
    then have "\<not> sint (word_of_int v :: u64) < 0" using wrapped [of v] by linarith
    then show "ez_strtoull (int_text v) = Some (True, word_of_int v)"
      using c_strtoull_text [of v] g v by (simp add: ez_strtoull_def) }
  { assume v: "0 \<le> v \<and> v \<le> 2 ^ 64 - 1 - 6"
    then have t: "int_text v = dec_text (nat v)" by (simp add: int_text_def)
    note d = dec_text_facts [of "nat v"]
    have sp: "dropWhile is_space (dec_text (nat v)) = dec_text (nat v)"
      using d(1,2) digit_facts by (cases "dec_text (nat v)") auto
    have dt: "digits_in (dec_text (nat v)) = dec_text (nat v)" "after_digits (dec_text (nat v)) = []"
      using d(2) by (simp_all add: digits_in_def after_digits_def sp takeWhile_eq_all_conv dropWhile_eq_Nil_conv)
    have "\<forall>c \<in> set (int_text v). c < 128" using d(2) digit_facts unfolding t by blast
    from ez_strtoull_len_spec [OF le_refl this] v obtain out
      where "ez_strtoull_len (int_text v) (length (int_text v)) = Some (True, out)" "int (unat out) = v"
      by (auto simp: t dt d(3) MAX_PARSED_def)
    then show "ez_strtoull_len (int_text v) (length (int_text v)) = Some (True, word_of_int v)"
      using unat_eq_of_int [of out v] by simp }
qed

theorem number_text_roundtrip_witness:
  "ez_strtoll (int_text (- 42)) = Some (True, - 42) \<and> ez_strtol (int_text 4294967297) = Some (True, to_int32 4294967297)
    \<and> ez_strtoull (int_text (- 18446744073709551615)) = Some (True, 1)"
  using number_text_roundtrip [of "- 42"] number_text_roundtrip [of 4294967297]
    number_text_roundtrip [of "- 18446744073709551615"] by simp

text \<open>
  A text that begins with white space and has no number after it converts nothing, so the end pointer is the
  start, where \<^verbatim>\<open>isspace\<close> finds the white space: all five wrappers answer true with the value 0, whatever follows.
\<close>

theorem blank_text_is_zero:
  assumes "is_space c" and "\<forall>b \<in> {8, 10}. fst (snd (c_number b (c # s))) = []"
  shows "ez_strtoull (c # s) = Some (True, 0) \<and> ez_strtoll (c # s) = Some (True, 0) \<and> ez_strtoul (c # s) = Some (True, 0)
    \<and> ez_strtol (c # s) = Some (True, 0) \<and> ez_str2oct (c # s) = Some (True, 0)"
proof -
  have e: "\<exists>n. c_number b (c # s) = (n, [], 0)" if "b \<in> {8, 10}" for b
    using assms(2) that by (auto simp: c_number_def Let_def split: if_splits)
  have "c < 128" using assms(1) by (auto simp: is_space_def word_le_nat_alt word_less_nat_alt)
  then have "good_end (c # s) 0 = Some True" using assms(1) by (simp add: good_end_def char_at_def c_isspace_def)
  with e [of 8] e [of 10] show ?thesis
    by (auto simp: ez_strtoull_def ez_strtoll_def ez_strtoul_def ez_strtol_def ez_str2oct_def c_strtoull_def c_strtoll_def
        number_of_def to_int32_def)
qed

theorem blank_text_is_zero_witness: "ez_strtol [32, 97, 98, 99] = Some (True, 0)"
  using blank_text_is_zero [of 32 "[97, 98, 99]"]
  by (simp add: c_number_def is_space_def base_digit_def is_digit_def)

end
