(* ===== verification/Ez_Storage.thy ===== *)
theory Ez_Storage
  imports Ez_Bytebuf Ez_Max_Heap
begin

text \<open>
  The memory of the byte buffer (\<^verbatim>\<open>src/ez_bytebuf.c\<close>) and of the array heap (\<^verbatim>\<open>src/ez_max_heap.c\<close>): the calls
  of the allocator that their operations make, on the state of Ez_Malloc. What the blocks hold is the matter of
  Ez_Bytebuf and Ez_Max_Heap. A buffer is two blocks, its struct and its data; a heap is one block, which
  moves when it grows. Sizes are those of a 64-bit compiler.
\<close>

section \<open>The calls\<close>

definition and_then :: "'a outcome \<Rightarrow> ('a \<Rightarrow> 'b outcome) \<Rightarrow> 'b outcome" where
  "and_then r f = (case r of Return x \<Rightarrow> f x | Abort \<Rightarrow> Abort | Undef \<Rightarrow> Undef)"

lemma and_then_simps [simp]: "and_then (Return x) f = f x" "and_then Abort f = Abort" "and_then Undef f = Undef"
  by (simp_all add: and_then_def)









section \<open>Lives\<close>



text \<open>The state differs from \<open>st0\<close> in the blocks \<open>ps\<close> only, which are new and live.\<close>

definition holds_blocks :: "alloc_state \<Rightarrow> alloc_state \<Rightarrow> addr list \<Rightarrow> bool" where
  "holds_blocks st0 st ps \<longleftrightarrow> kept_abort st \<and> distinct ps
     \<and> (\<forall>p \<in> set ps. live st0 p = None \<and> live st p \<noteq> None) \<and> (\<forall>q. q \<notin> set ps \<longrightarrow> live st q = live st0 q)"






lemma holds_swap: "holds_blocks st0 st [p, q] \<Longrightarrow> holds_blocks st0 st [q, p]"
  by (auto simp: holds_blocks_def insert_commute)





section \<open>Property\<close>




end
