(* ===== verification/Ez_Net.thy ===== *)
theory Ez_Net
  imports Ez_Bytebuf Ez_Util
begin

text \<open>
  The socket layer of \<^verbatim>\<open>src/ez_net.c\<close> and \<^verbatim>\<open>src/ez_net.h\<close>: servers, accepting, clients, socket options, names,
  and the reads and writes on descriptors and byte buffers. The operating system and the resolver are a
  parameter, a record of functions on a system state \<open>'k\<close> with one field per call that the code makes; \<^verbatim>\<open>errno\<close>
  is a part of that state. The build defines neither \<^verbatim>\<open>USE_IOCTL\<close> nor \<^verbatim>\<open>EZ_USE_ACCEPT4\<close>; log output is left out.
\<close>

section \<open>Constants\<close>

text \<open>The values of the Linux headers.\<close>

definition AF_UNIX :: int where "AF_UNIX = 1"
definition AF_INET :: int where "AF_INET = 2"
definition AF_INET6 :: int where "AF_INET6 = 10"
definition AF_UNSPEC :: int where "AF_UNSPEC = 0"
definition SOCK_STREAM :: int where "SOCK_STREAM = 1"
definition SOCK_DGRAM :: int where "SOCK_DGRAM = 2"
definition SOCK_RAW :: int where "SOCK_RAW = 3"
definition IPPROTO_IP :: int where "IPPROTO_IP = 0"
definition IPPROTO_TCP :: int where "IPPROTO_TCP = 6"
definition IPPROTO_UDP :: int where "IPPROTO_UDP = 17"
definition IPPROTO_IPV6 :: int where "IPPROTO_IPV6 = 41"
definition IPPROTO_RAW :: int where "IPPROTO_RAW = 255"
definition SOL_SOCKET :: int where "SOL_SOCKET = 1"
definition SO_REUSEADDR :: int where "SO_REUSEADDR = 2"
definition SO_SNDBUF :: int where "SO_SNDBUF = 7"
definition SO_RCVBUF :: int where "SO_RCVBUF = 8"
definition SO_KEEPALIVE :: int where "SO_KEEPALIVE = 9"
definition SO_REUSEPORT :: int where "SO_REUSEPORT = 15"
definition TCP_NODELAY :: int where "TCP_NODELAY = 1"
definition TCP_KEEPIDLE :: int where "TCP_KEEPIDLE = 4"
definition TCP_KEEPINTVL :: int where "TCP_KEEPINTVL = 5"
definition TCP_KEEPCNT :: int where "TCP_KEEPCNT = 6"
definition IPV6_V6ONLY :: int where "IPV6_V6ONLY = 26"
definition FD_CLOEXEC :: u32 where "FD_CLOEXEC = 1"
definition O_NONBLOCK :: u32 where "O_NONBLOCK = 2048"
definition AI_PASSIVE :: int where "AI_PASSIVE = 1"
definition AI_NUMERICHOST :: int where "AI_NUMERICHOST = 4"
definition EINTR :: int where "EINTR = 4"
definition EAGAIN :: int where "EAGAIN = 11"
definition ENFILE :: int where "ENFILE = 23"
definition EMFILE :: int where "EMFILE = 24"
definition EINPROGRESS :: int where "EINPROGRESS = 115"

lemmas family_defs = AF_UNIX_def AF_INET_def AF_INET6_def AF_UNSPEC_def
lemmas option_defs = SOL_SOCKET_def SO_REUSEADDR_def SO_REUSEPORT_def IPPROTO_IPV6_def IPV6_V6ONLY_def

definition ANET_OK :: int where "ANET_OK = 0"
definition ANET_ERR :: int where "ANET_ERR = - 1"
definition ANET_EAGAIN :: int where "ANET_EAGAIN = - EAGAIN"
definition ANET_EMEN_FILE :: int where "ANET_EMEN_FILE = - ENFILE"

lemmas anet_defs = ANET_OK_def ANET_ERR_def

section \<open>The system below\<close>

text \<open>
  The members of the address structures; \<open>sin_port\<close> is also \<^verbatim>\<open>sin6_port\<close>, which is at the same place, in
  network byte order.
\<close>

record sockaddr =
  ss_family :: int
  sin_port :: "16 word"
  sin_addr :: "u8 list"
  sin6_addr :: "u8 list"
  sun_path :: "u8 list"

record addrinfo =
  ai_family :: int
  ai_socktype :: int
  ai_protocol :: int
  ai_addr :: sockaddr

text \<open>
  A call answers the next state and its results. \<open>net_getaddrinfo\<close> takes host, service, and the flags, the family and
  the socket type of its hints; \<open>net_ntop\<close> takes family, address, the buffer and its size, and answers the buffer.
\<close>

record 'k net =
  net_errno :: "'k \<Rightarrow> int"
  net_socket :: "'k \<Rightarrow> int \<Rightarrow> int \<Rightarrow> int \<Rightarrow> 'k \<times> int"
  net_bind :: "'k \<Rightarrow> int \<Rightarrow> sockaddr \<Rightarrow> 'k \<times> int"
  net_listen :: "'k \<Rightarrow> int \<Rightarrow> int \<Rightarrow> 'k \<times> int"
  net_accept :: "'k \<Rightarrow> int \<Rightarrow> 'k \<times> int \<times> sockaddr"
  net_connect :: "'k \<Rightarrow> int \<Rightarrow> sockaddr \<Rightarrow> 'k \<times> int"
  net_setsockopt :: "'k \<Rightarrow> int \<Rightarrow> int \<Rightarrow> int \<Rightarrow> int \<Rightarrow> 'k \<times> int"
  net_getfl :: "'k \<Rightarrow> int \<Rightarrow> 'k \<times> int"
  net_setfl :: "'k \<Rightarrow> int \<Rightarrow> u32 \<Rightarrow> 'k \<times> int"
  net_close :: "'k \<Rightarrow> int \<Rightarrow> 'k"
  net_read :: "'k \<Rightarrow> int \<Rightarrow> nat \<Rightarrow> 'k \<times> int \<times> u8 list"
  net_write :: "'k \<Rightarrow> int \<Rightarrow> u8 list \<Rightarrow> 'k \<times> int"
  net_getaddrinfo :: "'k \<Rightarrow> u8 list option \<Rightarrow> u8 list option \<Rightarrow> int \<Rightarrow> int \<Rightarrow> int \<Rightarrow> 'k \<times> int \<times> addrinfo list"
  net_freeaddrinfo :: "'k \<Rightarrow> addrinfo list \<Rightarrow> 'k"
  net_getpeername :: "'k \<Rightarrow> int \<Rightarrow> 'k \<times> int \<times> sockaddr"
  net_getsockname :: "'k \<Rightarrow> int \<Rightarrow> 'k \<times> int \<times> sockaddr"
  net_ntop :: "int \<Rightarrow> u8 list \<Rightarrow> u8 list \<Rightarrow> u32 \<Rightarrow> u8 list"

text \<open>\<^verbatim>\<open>if (first == ANET_ERR) goto error;\<close> and then the next call.\<close>

definition or_error :: "'k \<times> int \<Rightarrow> ('k \<Rightarrow> 'k \<times> int) \<Rightarrow> 'k \<times> int" where
  "or_error first f = (case first of (k, r) \<Rightarrow> if r = ANET_ERR then (k, r) else f k)"

section \<open>Names of constants\<close>

definition socket_family_name :: "int \<Rightarrow> string" where
  "socket_family_name sf =
     (if sf = AF_UNIX then ''AF_UNIX'' else if sf = AF_INET then ''AF_INET''
      else if sf = AF_INET6 then ''AF_INET6'' else '''')"

definition socket_socktype_name :: "int \<Rightarrow> string" where
  "socket_socktype_name st =
     (if st = SOCK_STREAM then ''SOCK_STREAM'' else if st = SOCK_DGRAM then ''SOCK_DGRAM''
      else if st = SOCK_RAW then ''SOCK_RAW'' else '''')"

definition socket_protocol_name :: "int \<Rightarrow> string" where
  "socket_protocol_name sp =
     (if sp = IPPROTO_IP then ''IPPROTO_IP'' else if sp = IPPROTO_TCP then ''IPPROTO_TCP''
      else if sp = IPPROTO_UDP then ''IPPROTO_UDP'' else if sp = IPPROTO_IPV6 then ''IPPROTO_IPV6''
      else if sp = IPPROTO_RAW then ''IPPROTO_RAW'' else '''')"

section \<open>Socket options\<close>

definition ez_net_set_send_buf_size :: "'k net \<Rightarrow> 'k \<Rightarrow> int \<Rightarrow> int \<Rightarrow> 'k \<times> int" where
  "ez_net_set_send_buf_size net k fd bufsize =
     (let (k, r) = net_setsockopt net k fd SOL_SOCKET SO_SNDBUF bufsize in
      if r = - 1 then (k, ANET_ERR) else (k, ANET_OK))"

definition ez_net_set_recv_buf_size :: "'k net \<Rightarrow> 'k \<Rightarrow> int \<Rightarrow> int \<Rightarrow> 'k \<times> int" where
  "ez_net_set_recv_buf_size net k fd bufsize =
     (let (k, r) = net_setsockopt net k fd SOL_SOCKET SO_RCVBUF bufsize in
      if r = - 1 then (k, ANET_ERR) else (k, ANET_OK))"

definition ez_net_set_closexec :: "'k net \<Rightarrow> 'k \<Rightarrow> int \<Rightarrow> 'k \<times> int" where
  "ez_net_set_closexec net k fd =
     (let (k, flags) = net_getfl net k fd in
      if flags = - 1 then (k, ANET_ERR)
      else let (k, r) = net_setfl net k fd (word_of_int flags OR FD_CLOEXEC) in
        if r = - 1 then (k, ANET_ERR) else (k, ANET_OK))"

definition ez_net_set_non_block :: "'k net \<Rightarrow> 'k \<Rightarrow> int \<Rightarrow> 'k \<times> int" where
  "ez_net_set_non_block net k fd =
     (let (k, flags) = net_getfl net k fd in
      if flags = - 1 then (k, ANET_ERR)
      else let (k, r) = net_setfl net k fd (word_of_int flags OR O_NONBLOCK) in
        if r = - 1 then (k, ANET_ERR) else (k, ANET_OK))"

definition ez_net_set_reuse_port :: "'k net \<Rightarrow> 'k \<Rightarrow> int \<Rightarrow> 'k \<times> int" where
  "ez_net_set_reuse_port net k fd =
     (let (k, r) = net_setsockopt net k fd SOL_SOCKET SO_REUSEPORT 1 in
      if r = - 1 then (k, ANET_ERR) else (k, ANET_OK))"

definition ez_net_set_reuse_addr :: "'k net \<Rightarrow> 'k \<Rightarrow> int \<Rightarrow> 'k \<times> int" where
  "ez_net_set_reuse_addr net k fd =
     (let (k, r) = net_setsockopt net k fd SOL_SOCKET SO_REUSEADDR 1 in
      if r = - 1 then (k, ANET_ERR) else (k, ANET_OK))"

definition ez_net_set_tcp_nodelay :: "'k net \<Rightarrow> 'k \<Rightarrow> int \<Rightarrow> int \<Rightarrow> 'k \<times> int" where
  "ez_net_set_tcp_nodelay net k fd val =
     (let (k, r) = net_setsockopt net k fd IPPROTO_TCP TCP_NODELAY val in
      if r = - 1 then (k, ANET_ERR) else (k, ANET_OK))"

text \<open>The three calls for a positive interval test for a negative result.\<close>

definition ez_net_tcp_keepalive :: "'k net \<Rightarrow> 'k \<Rightarrow> int \<Rightarrow> int \<Rightarrow> 'k \<times> int" where
  "ez_net_tcp_keepalive net k fd interval =
     (let (k, r) = net_setsockopt net k fd SOL_SOCKET SO_KEEPALIVE 1 in
      if r = - 1 then (k, ANET_ERR)
      else if interval > 0 then
        let (k, r) = net_setsockopt net k fd IPPROTO_TCP TCP_KEEPIDLE interval in
        if r < 0 then (k, ANET_ERR)
        else
          let val = interval div 3;
              val = (if val = 0 then 1 else val);
              (k, r) = net_setsockopt net k fd IPPROTO_TCP TCP_KEEPINTVL val in
          if r < 0 then (k, ANET_ERR)
          else
            let (k, r) = net_setsockopt net k fd IPPROTO_TCP TCP_KEEPCNT 3 in
            if r < 0 then (k, ANET_ERR) else (k, ANET_OK)
      else (k, ANET_OK))"

definition ez_net_set_ipv6_only :: "'k net \<Rightarrow> 'k \<Rightarrow> int \<Rightarrow> 'k \<times> int" where
  "ez_net_set_ipv6_only net k fd =
     (let (k, r) = net_setsockopt net k fd IPPROTO_IPV6 IPV6_V6ONLY 1 in
      if r = - 1 then (k, ANET_ERR) else (k, ANET_OK))"

section \<open>Servers\<close>

definition ez_net_bind :: "'k net \<Rightarrow> 'k \<Rightarrow> int \<Rightarrow> sockaddr \<Rightarrow> 'k \<times> int" where
  "ez_net_bind net k s sa =
     (let (k, r) = net_bind net k s sa in if r = - 1 then (k, ANET_ERR) else (k, ANET_OK))"

definition ez_net_listen :: "'k net \<Rightarrow> 'k \<Rightarrow> int \<Rightarrow> int \<Rightarrow> 'k \<times> int" where
  "ez_net_listen net k s backlog =
     (let (k, r) = net_listen net k s backlog in if r = - 1 then (k, ANET_ERR) else (k, ANET_OK))"

definition ez_net_close_socket :: "'k net \<Rightarrow> 'k \<Rightarrow> int \<Rightarrow> 'k \<times> int" where
  "ez_net_close_socket net k s = (if s > 0 then (net_close net k s, ANET_OK) else (k, ANET_OK))"

text \<open>The text of a port in a buffer of six characters.\<close>

definition port_text :: "int \<Rightarrow> u8 list" where
  "port_text port = take 5 (int_text port)"

definition server_setup :: "'k net \<Rightarrow> int \<Rightarrow> int \<Rightarrow> 'k \<Rightarrow> int \<Rightarrow> addrinfo \<Rightarrow> 'k \<times> int" where
  "server_setup net af backlog k s p =
     or_error (if af = AF_INET6 then ez_net_set_ipv6_only net k s else (k, ANET_OK)) (\<lambda>k.
     or_error (ez_net_set_reuse_addr net k s) (\<lambda>k.
     or_error (ez_net_set_non_block net k s) (\<lambda>k.
     or_error (ez_net_set_reuse_port net k s) (\<lambda>k.
     or_error (ez_net_bind net k s (ai_addr p)) (\<lambda>k.
       ez_net_listen net k s backlog)))))"

text \<open>The loop over the addresses answers the last descriptor, and whether it left with \<^verbatim>\<open>goto end\<close>.\<close>

primrec server_loop :: "'k net \<Rightarrow> int \<Rightarrow> int \<Rightarrow> 'k \<Rightarrow> int \<Rightarrow> addrinfo list \<Rightarrow> 'k \<times> int \<times> bool" where
  "server_loop net af backlog k s [] = (k, s, False)"
| "server_loop net af backlog k s (p # ps) =
     (let (k, s) = net_socket net k (ai_family p) (ai_socktype p) (ai_protocol p) in
      if s = - 1 then server_loop net af backlog k s ps
      else let (k, r) = server_setup net af backlog k s p in (k, s, r \<noteq> ANET_ERR))"

definition ez_net_generic_server :: "'k net \<Rightarrow> 'k \<Rightarrow> int \<Rightarrow> u8 list option \<Rightarrow> int \<Rightarrow> int \<Rightarrow> 'k \<times> int" where
  "ez_net_generic_server net k port bindaddr af backlog =
     (let (k, rv, servinfo) = net_getaddrinfo net k bindaddr (Some (port_text port)) AI_PASSIVE af SOCK_STREAM in
      if rv \<noteq> 0 then (k, ANET_ERR)
      else
        let (k, s, done) = server_loop net af backlog k 0 servinfo;
            (k, s) = (if done then (k, s)
                      else (if s \<noteq> 0 then fst (ez_net_close_socket net k s) else k, ANET_ERR))
        in (net_freeaddrinfo net k servinfo, s))"

definition ez_net_tcp_server :: "'k net \<Rightarrow> 'k \<Rightarrow> int \<Rightarrow> u8 list option \<Rightarrow> int \<Rightarrow> 'k \<times> int" where
  "ez_net_tcp_server net k port bindaddr backlog = ez_net_generic_server net k port bindaddr AF_INET backlog"

definition ez_net_tcp6_server :: "'k net \<Rightarrow> 'k \<Rightarrow> int \<Rightarrow> u8 list option \<Rightarrow> int \<Rightarrow> 'k \<times> int" where
  "ez_net_tcp6_server net k port bindaddr backlog = ez_net_generic_server net k port bindaddr AF_INET6 backlog"

text \<open>\<^verbatim>\<open>sun_path\<close> has 108 characters, the last of which stays zero.\<close>

definition unix_addr :: "u8 list \<Rightarrow> sockaddr" where
  "unix_addr path = \<lparr>ss_family = AF_UNIX, sin_port = 0, sin_addr = [], sin6_addr = [], sun_path = take 107 path\<rparr>"

definition ez_net_unix_server :: "'k net \<Rightarrow> 'k \<Rightarrow> u8 list \<Rightarrow> int \<Rightarrow> 'k \<times> int" where
  "ez_net_unix_server net k path backlog =
     (let (k, s) = net_socket net k AF_UNIX SOCK_STREAM 0 in
      if s = - 1 then (k, ANET_ERR)
      else
        let (k, r) = ez_net_bind net k s (unix_addr path) in
        if r = ANET_ERR then (fst (ez_net_close_socket net k s), ANET_ERR)
        else
          let (k, r) = ez_net_listen net k s backlog in
          if r = ANET_ERR then (fst (ez_net_close_socket net k s), ANET_ERR)
          else (k, s))"

section \<open>Accepting\<close>

definition ntohs :: "16 word \<Rightarrow> int" where
  "ntohs p = uint (push_bit 8 p OR drop_bit 8 p)"

definition ez_net_tcp_generic_accept :: "'k net \<Rightarrow> 'k \<Rightarrow> int \<Rightarrow> 'k \<times> int \<times> sockaddr" where
  "ez_net_tcp_generic_accept net k s =
     (let (k, fd, sa) = net_accept net k s in
      if fd = - 1 then
        let ezerrno = net_errno net k in
        if ezerrno = EAGAIN \<or> ezerrno = EINTR then (k, ANET_EAGAIN, sa)
        else if ezerrno = EMFILE \<or> ezerrno = ENFILE then (k, ANET_EMEN_FILE, sa)
        else (k, ANET_ERR, sa)
      else
        let (k, r) = ez_net_set_closexec net k fd;
            (k, r) = ez_net_set_non_block net k fd
        in (k, fd, sa))"

definition ez_net_unix_accept :: "'k net \<Rightarrow> 'k \<Rightarrow> int \<Rightarrow> 'k \<times> int" where
  "ez_net_unix_accept net k s =
     (let (k, fd, sa) = ez_net_tcp_generic_accept net k s in if fd < ANET_OK then (k, ANET_ERR) else (k, fd))"

text \<open>What is stored through \<^verbatim>\<open>ip\<close> and \<^verbatim>\<open>port\<close>, each of which may be null.\<close>

definition store_name :: "'k net \<Rightarrow> sockaddr \<Rightarrow> u8 list option \<Rightarrow> u64 \<Rightarrow> int option \<Rightarrow> u8 list option \<times> int option" where
  "store_name net sa ip ip_len port =
     (if ss_family sa = AF_INET then
        (map_option (\<lambda>ip. net_ntop net AF_INET (sin_addr sa) ip (ucast ip_len)) ip,
         map_option (\<lambda>port. ntohs (sin_port sa)) port)
      else
        (map_option (\<lambda>ip. net_ntop net AF_INET6 (sin6_addr sa) ip (ucast ip_len)) ip,
         map_option (\<lambda>port. ntohs (sin_port sa)) port))"

definition ez_net_tcp_accept2 ::
    "'k net \<Rightarrow> 'k \<Rightarrow> int \<Rightarrow> u8 list option \<Rightarrow> u64 \<Rightarrow> int option \<Rightarrow> 'k \<times> int \<times> u8 list option \<times> int option" where
  "ez_net_tcp_accept2 net k s ip ip_len port =
     (let (k, fd, sa) = ez_net_tcp_generic_accept net k s in
      if fd < ANET_OK then (k, fd, ip, port)
      else (k, fd, store_name net sa ip ip_len port))"

definition ez_net_tcp_accept :: "'k net \<Rightarrow> 'k \<Rightarrow> int \<Rightarrow> 'k \<times> int" where
  "ez_net_tcp_accept net k s = (let (k, fd, out) = ez_net_tcp_accept2 net k s None 0 None in (k, fd))"

section \<open>Clients\<close>

definition ANET_CONNECT_NONE :: int where "ANET_CONNECT_NONE = 0"
definition ANET_CONNECT_NONBLOCK :: int where "ANET_CONNECT_NONBLOCK = 1"

definition ez_net_unix_connect_ex :: "'k net \<Rightarrow> 'k \<Rightarrow> u8 list \<Rightarrow> int \<Rightarrow> 'k \<times> int" where
  "ez_net_unix_connect_ex net k path flags =
     (let (k, s) = net_socket net k AF_UNIX SOCK_STREAM 0 in
      if s = - 1 then (k, ANET_ERR)
      else
        let (k, r) = (if flags AND ANET_CONNECT_NONBLOCK \<noteq> 0 then ez_net_set_non_block net k s else (k, ANET_OK)) in
        if r \<noteq> ANET_OK then (fst (ez_net_close_socket net k s), ANET_ERR)
        else
          let (k, r) = net_connect net k s (unix_addr path) in
          if r = - 1 then
            if net_errno net k = EINPROGRESS \<and> flags AND ANET_CONNECT_NONBLOCK \<noteq> 0 then (k, s)
            else if s \<noteq> ANET_ERR then (fst (ez_net_close_socket net k s), ANET_ERR)
            else (k, s)
          else (k, s))"

definition ez_net_unix_connect :: "'k net \<Rightarrow> 'k \<Rightarrow> u8 list \<Rightarrow> 'k \<times> int" where
  "ez_net_unix_connect net k path = ez_net_unix_connect_ex net k path ANET_CONNECT_NONE"

definition ez_net_unix_connect_non_block :: "'k net \<Rightarrow> 'k \<Rightarrow> u8 list \<Rightarrow> 'k \<times> int" where
  "ez_net_unix_connect_non_block net k path = ez_net_unix_connect_ex net k path ANET_CONNECT_NONBLOCK"

primrec connect_loop :: "'k net \<Rightarrow> int \<Rightarrow> 'k \<Rightarrow> int \<Rightarrow> addrinfo list \<Rightarrow> 'k \<times> int \<times> bool" where
  "connect_loop net flags k s [] = (k, s, False)"
| "connect_loop net flags k s (p # ps) =
     (let (k, s) = net_socket net k (ai_family p) (ai_socktype p) (ai_protocol p) in
      if s = - 1 then connect_loop net flags k s ps
      else
        let (k, r) = ez_net_set_reuse_addr net k s in
        if r = ANET_ERR then (k, s, False)
        else
          let (k, r) = (if flags AND ANET_CONNECT_NONBLOCK \<noteq> 0 then ez_net_set_non_block net k s else (k, ANET_OK)) in
          if r \<noteq> ANET_OK then (k, s, False)
          else
            let (k, r) = net_connect net k s (ai_addr p) in
            if r = - 1 then
              if net_errno net k = EINPROGRESS \<and> flags AND ANET_CONNECT_NONBLOCK \<noteq> 0 then (k, s, True)
              else
                let (k, s) = (if s \<noteq> ANET_ERR then (fst (ez_net_close_socket net k s), ANET_ERR) else (k, s))
                in connect_loop net flags k s ps
            else (k, s, True))"

definition ez_net_tcp_connect_ex :: "'k net \<Rightarrow> 'k \<Rightarrow> u8 list option \<Rightarrow> int \<Rightarrow> int \<Rightarrow> 'k \<times> int" where
  "ez_net_tcp_connect_ex net k addr port flags =
     (let (k, rv, servinfo) = net_getaddrinfo net k addr (Some (port_text port)) 0 AF_UNSPEC SOCK_STREAM in
      if rv \<noteq> 0 then (k, ANET_ERR)
      else
        let (k, s, done) = connect_loop net flags k ANET_ERR servinfo;
            (k, s) = (if \<not> done \<and> s \<noteq> ANET_ERR then (fst (ez_net_close_socket net k s), ANET_ERR) else (k, s))
        in (net_freeaddrinfo net k servinfo, s))"

definition ez_net_tcp_connect :: "'k net \<Rightarrow> 'k \<Rightarrow> u8 list option \<Rightarrow> int \<Rightarrow> 'k \<times> int" where
  "ez_net_tcp_connect net k addr port = ez_net_tcp_connect_ex net k addr port ANET_CONNECT_NONE"

definition ez_net_tcp_connect_non_block :: "'k net \<Rightarrow> 'k \<Rightarrow> u8 list option \<Rightarrow> int \<Rightarrow> 'k \<times> int" where
  "ez_net_tcp_connect_non_block net k addr port = ez_net_tcp_connect_ex net k addr port ANET_CONNECT_NONBLOCK"

section \<open>Names and addresses\<close>

definition RESOLVE_NAME :: int where "RESOLVE_NAME = 0"
definition RESOLVE_IP_ONLY :: int where "RESOLVE_IP_ONLY = 1"

definition ez_net_resolve_generic ::
    "'k net \<Rightarrow> 'k \<Rightarrow> u8 list option \<Rightarrow> u8 list \<Rightarrow> u64 \<Rightarrow> int \<Rightarrow> ('k \<times> u8 list \<times> int) option" where
  "ez_net_resolve_generic net k host ipbuf ipbuf_len flags =
     (let ai_flags = (if flags AND RESOLVE_IP_ONLY \<noteq> 0 then AI_NUMERICHOST else 0);
          (k, rv, info) = net_getaddrinfo net k host None ai_flags AF_UNSPEC SOCK_STREAM in
      if rv \<noteq> 0 then Some (k, ipbuf, ANET_ERR)
      else case info of
        [] \<Rightarrow> None
      | p # ps \<Rightarrow>
          let ipbuf = (if ai_family p = AF_INET then net_ntop net AF_INET (sin_addr (ai_addr p)) ipbuf (ucast ipbuf_len)
                       else net_ntop net AF_INET6 (sin6_addr (ai_addr p)) ipbuf (ucast ipbuf_len))
          in Some (net_freeaddrinfo net k info, ipbuf, ANET_OK))"

definition ez_net_resolve_host_name ::
    "'k net \<Rightarrow> 'k \<Rightarrow> u8 list option \<Rightarrow> u8 list \<Rightarrow> u64 \<Rightarrow> ('k \<times> u8 list \<times> int) option" where
  "ez_net_resolve_host_name net k host ipbuf ipbuf_len = ez_net_resolve_generic net k host ipbuf ipbuf_len RESOLVE_NAME"

definition ez_net_resolve_host_ip ::
    "'k net \<Rightarrow> 'k \<Rightarrow> u8 list option \<Rightarrow> u8 list \<Rightarrow> u64 \<Rightarrow> ('k \<times> u8 list \<times> int) option" where
  "ez_net_resolve_host_ip net k host ipbuf ipbuf_len = ez_net_resolve_generic net k host ipbuf ipbuf_len RESOLVE_IP_ONLY"

text \<open>On failure the name becomes a question mark; the two stores are undefined in a shorter buffer.\<close>

definition no_name :: "u8 list option \<Rightarrow> u8 list option option" where
  "no_name ip = (case ip of None \<Rightarrow> Some None
     | Some ip \<Rightarrow> if 2 \<le> length ip then Some (Some (ip[0 := 63, 1 := 0])) else None)"

definition ez_net_peer_name ::
    "'k net \<Rightarrow> 'k \<Rightarrow> int \<Rightarrow> u8 list option \<Rightarrow> u64 \<Rightarrow> int option \<Rightarrow> ('k \<times> int \<times> u8 list option \<times> int option) option" where
  "ez_net_peer_name net k fd ip ip_len port =
     (let (k, r, sa) = net_getpeername net k fd in
      if r = - 1 then do { ip \<leftarrow> no_name ip; Some (k, - 1, ip, map_option (\<lambda>port. 0) port) }
      else Some (k, 0, store_name net sa ip ip_len port))"

definition ez_net_socket_name ::
    "'k net \<Rightarrow> 'k \<Rightarrow> int \<Rightarrow> u8 list option \<Rightarrow> u64 \<Rightarrow> int option \<Rightarrow> ('k \<times> int \<times> u8 list option \<times> int option) option" where
  "ez_net_socket_name net k fd ip ip_len port =
     (let (k, r, sa) = net_getsockname net k fd in
      if r = - 1 then do { ip \<leftarrow> no_name ip; Some (k, - 1, ip, map_option (\<lambda>port. 0) port) }
      else Some (k, 0, store_name net sa ip ip_len port))"

section \<open>Reading and writing\<close>

text \<open>\<open>ez_net_read\<close> answers the result, what is in \<^verbatim>\<open>*nbytes\<close>, and the bytes that were stored.\<close>

definition ez_net_read :: "'k net \<Rightarrow> 'k \<Rightarrow> int \<Rightarrow> nat \<Rightarrow> 'k \<times> int \<times> int \<times> u8 list" where
  "ez_net_read net k fd bufsize =
     (let (k, r, bs) = net_read net k fd bufsize in
      if r = 0 then
        let ezerrno = net_errno net k in
        if ezerrno = EAGAIN \<or> ezerrno = EINTR then (k, ANET_EAGAIN, 0, bs) else (k, ANET_OK, 0, bs)
      else if r > 0 then (k, ANET_OK, r, bs)
      else
        let ezerrno = net_errno net k in
        if ezerrno = EAGAIN \<or> ezerrno = EINTR then (k, ANET_EAGAIN, 0, bs) else (k, ANET_ERR, 0, bs))"

definition ez_net_write :: "'k net \<Rightarrow> 'k \<Rightarrow> int \<Rightarrow> u8 list \<Rightarrow> 'k \<times> int \<times> int" where
  "ez_net_write net k fd buf =
     (let (k, r) = net_write net k fd buf in
      if r = 0 then
        let ezerrno = net_errno net k in
        if ezerrno = EAGAIN \<or> ezerrno = EINTR then (k, ANET_EAGAIN, 0) else (k, ANET_OK, 0)
      else if r > 0 then (k, ANET_OK, r)
      else
        let ezerrno = net_errno net k in
        if ezerrno = EAGAIN \<or> ezerrno = EINTR then (k, ANET_EAGAIN, 0) else (k, ANET_ERR, 0))"

text \<open>Bytes stored at the writer position, and the bytes from the reader position on.\<close>

definition store_bytes :: "bytebuf \<Rightarrow> u8 list \<Rightarrow> bytebuf option" where
  "store_bytes b bs =
     (let w = unat (bw b) in
      if w + length bs \<le> length (bdata b)
      then Some (b\<lparr>bdata := take w (bdata b) @ map Some bs @ drop (w + length bs) (bdata b)\<rparr>) else None)"

definition load_bytes :: "bytebuf \<Rightarrow> nat \<Rightarrow> u8 list option" where
  "load_bytes b n =
     (let r = unat (br b) in if r + n \<le> length (bdata b) then those (take n (drop r (bdata b))) else None)"

definition ez_net_read_bf :: "'k net \<Rightarrow> 'k \<Rightarrow> int \<Rightarrow> bytebuf \<Rightarrow> ('k \<times> int \<times> int \<times> bytebuf) option" where
  "ez_net_read_bf net k fd buf =
     (let size = unat (bytebuf_writeable_size buf);
          (k, r, nbytes, bs) = ez_net_read net k fd size in
      do {
        buf \<leftarrow> store_bytes buf bs;
        Some (k, r, nbytes, if r = ANET_OK then buf\<lparr>bw := bw buf + word_of_int nbytes\<rparr> else buf)
      })"

definition ez_net_write_bf :: "'k net \<Rightarrow> 'k \<Rightarrow> int \<Rightarrow> bytebuf \<Rightarrow> ('k \<times> int \<times> int \<times> bytebuf) option" where
  "ez_net_write_bf net k fd buf =
     (let size = unat (bytebuf_readable_size buf) in
      do {
        bs \<leftarrow> load_bytes buf size;
        let (k, r, nbytes) = ez_net_write net k fd bs;
        Some (k, r, nbytes, if r = ANET_OK then buf\<lparr>br := br buf + word_of_int nbytes\<rparr> else buf)
      })"

end
