(* ===== verification/Ez_Socket.thy ===== *)
theory Ez_Socket
  imports Ez_Net
begin

text \<open>
  What the functions of Ez_Net achieve, against a documented system: a view of the open sockets that the
  system calls read and change, and a view of the bytes that arrived and left. The contracts are
  predicates on the parameter of Ez_Net.
\<close>

section \<open>The open sockets\<close>

record sock =
  so_family :: int
  so_type :: int
  so_proto :: int
  so_opts :: "int \<times> int \<rightharpoonup> int"
  so_status :: u32
  so_cloexec :: bool
  so_bound :: "sockaddr option"
  so_backlog :: "int option"
  so_peer :: "sockaddr option"

type_synonym sockets = "int \<rightharpoonup> sock"

definition O_RDWR :: u32 where "O_RDWR = 2"

text \<open>The status flags that \<^verbatim>\<open>F_SETFL\<close> changes on Linux; it ignores all others.\<close>

definition settable :: u32 where "settable = 0x46C00"

definition new_sock :: "int \<Rightarrow> int \<Rightarrow> int \<Rightarrow> sock" where
  "new_sock f t p = \<lparr>so_family = f, so_type = t, so_proto = p, so_opts = Map.empty, so_status = O_RDWR,
     so_cloexec = False, so_bound = None, so_backlog = None, so_peer = None\<rparr>"

text \<open>A call on an open socket answers -1 and changes nothing, or 0 and changes that socket.\<close>

definition changes :: "sockets \<Rightarrow> sockets \<Rightarrow> int \<Rightarrow> int \<Rightarrow> (sock \<Rightarrow> sock) \<Rightarrow> bool" where
  "changes v v' s r f \<longleftrightarrow> r = - 1 \<and> v' = v \<or> r = 0 \<and> (\<exists>x. v s = Some x \<and> v' = v(s \<mapsto> f x))"

definition opened :: "sockets \<Rightarrow> sockets \<Rightarrow> int \<Rightarrow> sock \<Rightarrow> bool" where
  "opened v v' s x \<longleftrightarrow> s = - 1 \<and> v' = v \<or> 0 \<le> s \<and> v s = None \<and> v' = v(s \<mapsto> x)"

definition socket_layer :: "'k net \<Rightarrow> ('k \<Rightarrow> sockets) \<Rightarrow> bool" where
  "socket_layer net v \<longleftrightarrow>
     (\<forall>k f t p k' s. net_socket net k f t p = (k', s) \<longrightarrow> opened (v k) (v k') s (new_sock f t p)) \<and>
     (\<forall>k s l opt x k' r. net_setsockopt net k s l opt x = (k', r) \<longrightarrow>
        changes (v k) (v k') s r (so_opts_update (\<lambda>m. m((l, opt) \<mapsto> x)))) \<and>
     (\<forall>k s k' r. net_getfl net k s = (k', r) \<longrightarrow> v k' = v k) \<and>
     (\<forall>k s k' r x. net_getfl net k s = (k', r) \<longrightarrow> r \<noteq> - 1 \<longrightarrow> v k s = Some x \<longrightarrow> word_of_int r = so_status x) \<and>
     (\<forall>k s a k' r. net_setfl net k s a = (k', r) \<longrightarrow>
        changes (v k) (v k') s r (so_status_update (\<lambda>b. b AND NOT settable OR a AND settable))) \<and>
     (\<forall>k s sa k' r. net_bind net k s sa = (k', r) \<longrightarrow> changes (v k) (v k') s r (so_bound_update (\<lambda>_. Some sa))) \<and>
     (\<forall>k s n k' r. net_listen net k s n = (k', r) \<longrightarrow> changes (v k) (v k') s r (so_backlog_update (\<lambda>_. Some n))) \<and>
     (\<forall>k s sa k' r. net_connect net k s sa = (k', r) \<longrightarrow>
        changes (v k) (v k') s (if r = - 1 \<and> net_errno net k' = EINPROGRESS then 0 else r) (so_peer_update (\<lambda>_. Some sa))) \<and>
     (\<forall>k s k' fd sa. net_accept net k s = (k', fd, sa) \<longrightarrow>
        opened (v k) (v k') fd ((case v k s of None \<Rightarrow> new_sock 0 0 0
          | Some l \<Rightarrow> new_sock (so_family l) (so_type l) (so_proto l))\<lparr>so_peer := Some sa\<rparr>)) \<and>
     (\<forall>k s. v (net_close net k s) = (v k)(s := None)) \<and>
     (\<forall>k h sv fl af ty k' rv ps. net_getaddrinfo net k h sv fl af ty = (k', rv, ps) \<longrightarrow> v k' = v k) \<and>
     (\<forall>k ps. v (net_freeaddrinfo net k ps) = v k)"

text \<open>
  A system in which no call on an open socket is refused, save connections to addresses that \<open>reach\<close> does not hold
  of, and which does not run out of descriptors.
\<close>

definition obliging :: "'k net \<Rightarrow> ('k \<Rightarrow> sockets) \<Rightarrow> (sockaddr \<Rightarrow> bool) \<Rightarrow> bool" where
  "obliging net v reach \<longleftrightarrow>
     (\<forall>k f t p. finite (dom (v k)) \<longrightarrow> snd (net_socket net k f t p) \<noteq> - 1) \<and>
     (\<forall>k s. v k s \<noteq> None \<longrightarrow>
        (\<forall>l opt x. snd (net_setsockopt net k s l opt x) \<noteq> - 1) \<and>
        snd (net_getfl net k s) \<noteq> - 1 \<and> (\<forall>a. snd (net_setfl net k s a) \<noteq> - 1) \<and>
        (\<forall>sa. snd (net_bind net k s sa) \<noteq> - 1) \<and> (\<forall>n. snd (net_listen net k s n) \<noteq> - 1) \<and>
        (\<forall>sa. if reach sa then snd (net_connect net k s sa) \<noteq> - 1
           else snd (net_connect net k s sa) = - 1 \<and> net_errno net (fst (net_connect net k s sa)) \<noteq> EINPROGRESS))"

lemma obligingD:
  assumes "obliging net v reach"
  shows "finite (dom (v k)) \<Longrightarrow> net_socket net k f t p = (k', s) \<Longrightarrow> s \<noteq> - 1"
    and "v k s = Some y \<Longrightarrow> net_setsockopt net k s l opt x = (k', r) \<Longrightarrow> r \<noteq> - 1"
    and "v k s = Some y \<Longrightarrow> net_getfl net k s = (k', r) \<Longrightarrow> r \<noteq> - 1"
    and "v k s = Some y \<Longrightarrow> net_setfl net k s a = (k', r) \<Longrightarrow> r \<noteq> - 1"
    and "v k s = Some y \<Longrightarrow> net_bind net k s sa = (k', r) \<Longrightarrow> r \<noteq> - 1"
    and "v k s = Some y \<Longrightarrow> net_listen net k s n = (k', r) \<Longrightarrow> r \<noteq> - 1"
    and "v k s = Some y \<Longrightarrow> net_connect net k s sa = (k', r) \<Longrightarrow> reach sa \<Longrightarrow> r \<noteq> - 1"
    and "v k s = Some y \<Longrightarrow> net_connect net k s sa = (k', r) \<Longrightarrow> \<not> reach sa \<Longrightarrow> r = - 1 \<and> net_errno net k' \<noteq> EINPROGRESS"
  using assms unfolding obliging_def by (metis option.distinct(1) fst_conv snd_conv)+

lemma socket_layerD:
  assumes "socket_layer net v"
  shows "net_socket net k f t p = (k', s) \<Longrightarrow> opened (v k) (v k') s (new_sock f t p)"
    and "net_setsockopt net k s l opt x = (k', r) \<Longrightarrow> changes (v k) (v k') s r (so_opts_update (\<lambda>m. m((l, opt) \<mapsto> x)))"
    and "net_getfl net k s = (k', r) \<Longrightarrow> v k' = v k"
    and "net_getfl net k s = (k', r) \<Longrightarrow> r \<noteq> - 1 \<Longrightarrow> v k s = Some y \<Longrightarrow> word_of_int r = so_status y"
    and "net_setfl net k s a = (k', r) \<Longrightarrow>
      changes (v k) (v k') s r (so_status_update (\<lambda>b. b AND NOT settable OR a AND settable))"
    and "net_bind net k s sa = (k', r) \<Longrightarrow> changes (v k) (v k') s r (so_bound_update (\<lambda>_. Some sa))"
    and "net_listen net k s n = (k', r) \<Longrightarrow> changes (v k) (v k') s r (so_backlog_update (\<lambda>_. Some n))"
    and "net_connect net k s sa = (k', r) \<Longrightarrow> changes (v k) (v k') s
      (if r = - 1 \<and> net_errno net k' = EINPROGRESS then 0 else r) (so_peer_update (\<lambda>_. Some sa))"
    and "net_accept net k s = (k', fd, sa) \<Longrightarrow> opened (v k) (v k') fd ((case v k s of None \<Rightarrow> new_sock 0 0 0
          | Some l \<Rightarrow> new_sock (so_family l) (so_type l) (so_proto l))\<lparr>so_peer := Some sa\<rparr>)"
    and "v (net_close net k s) = (v k)(s := None)"
    and "net_getaddrinfo net k h sv fl af ty = (k', rv, ps) \<Longrightarrow> v k' = v k"
    and "v (net_freeaddrinfo net k ps) = v k"
  subgoal using assms unfolding socket_layer_def by (elim conjE) simp
  subgoal using assms unfolding socket_layer_def by (elim conjE) simp
  subgoal using assms unfolding socket_layer_def by (elim conjE) metis
  subgoal using assms unfolding socket_layer_def by (elim conjE) simp
  subgoal using assms unfolding socket_layer_def by (elim conjE) simp
  subgoal using assms unfolding socket_layer_def by (elim conjE) simp
  subgoal using assms unfolding socket_layer_def by (elim conjE) simp
  subgoal using assms unfolding socket_layer_def by (elim conjE) simp
  subgoal using assms unfolding socket_layer_def by (elim conjE) simp
  subgoal using assms unfolding socket_layer_def by (elim conjE) simp
  subgoal using assms unfolding socket_layer_def by (elim conjE) metis
  subgoal using assms unfolding socket_layer_def by (elim conjE) simp
  done

section \<open>A step of the set-up of a socket\<close>

text \<open>
  The step found the socket \<open>s\<close> open and the others as in \<open>m\<close>; it fails, which changes no other socket, or it
  leaves the socket as \<open>y\<close>; when \<open>ob\<close> holds, as on an obliging system, it does not fail.
\<close>

definition takes :: "bool \<Rightarrow> ('k \<Rightarrow> sockets) \<Rightarrow> sockets \<Rightarrow> int \<Rightarrow> 'k \<times> int \<Rightarrow> sock \<Rightarrow> bool" where
  "takes ob v m s res y \<longleftrightarrow> \<not> ob \<and> snd res = ANET_ERR \<and> (\<exists>z. v (fst res) = m(s \<mapsto> z)) \<or> snd res = ANET_OK \<and> v (fst res) = m(s \<mapsto> y)"


lemma takes_call:
  assumes "changes (v k) (v k') s r f" "v k = m(s \<mapsto> x)" "f x = y" "ob \<Longrightarrow> r \<noteq> - 1"
  shows "takes ob v m s (if r = - 1 then (k', ANET_ERR) else (k', ANET_OK)) y"
  using assms by (auto simp: changes_def takes_def anet_defs)

lemma sock_updates:
  "so_opts_update f x = x\<lparr>so_opts := f (so_opts x)\<rparr>" "so_status_update g x = x\<lparr>so_status := g (so_status x)\<rparr>"
  by (cases x, simp)+

lemma status_or:
  "b AND NOT settable OR (b OR a) AND settable = b OR (a AND settable)" for a b :: u32
  by (rule bit_word_eqI) (auto simp: bit_simps)

lemma setfl_takes:
  assumes "socket_layer net v" "v k = m(s \<mapsto> x)" "ob \<Longrightarrow> obliging net v reach"
  shows "takes ob v m s (let (k, flags) = net_getfl net k s in
      if flags = - 1 then (k, ANET_ERR)
      else let (k, r) = net_setfl net k s (word_of_int flags OR a) in
        if r = - 1 then (k, ANET_ERR) else (k, ANET_OK)) (x\<lparr>so_status := so_status x OR (a AND settable)\<rparr>)"
proof -
  obtain k1 fl where g: "net_getfl net k s = (k1, fl)" by (rule prod.exhaust)
  have k1: "v k1 = v k" by (rule socket_layerD(3) [OF assms(1) g])
  show ?thesis
  proof (cases "fl = - 1")
    case True
    moreover have "\<not> ob" using obligingD(3) [OF assms(3) _ g, of x] assms(2) True by auto
    ultimately show ?thesis using g k1 assms(2) by (auto simp: takes_def)
  next
    case False
    then have w: "word_of_int fl = so_status x" using socket_layerD(4) [OF assms(1) g False] assms(2) by simp
    obtain k2 r where f: "net_setfl net k1 s (so_status x OR a) = (k2, r)" by (rule prod.exhaust)
    have "v k1 = m(s \<mapsto> x)" using k1 assms(2) by simp
    from takes_call [OF socket_layerD(5) [OF assms(1) f] this sock_updates(2), of ob] obligingD(4) [OF assms(3) _ f, of x] this
    show ?thesis
      by (simp add: g w f False status_or del: if_split)
  qed
qed


lemma option_takes:
  assumes "socket_layer net v" "v k = m(s \<mapsto> x)" "ob \<Longrightarrow> obliging net v reach"
  shows "takes ob v m s (ez_net_set_ipv6_only net k s) (x\<lparr>so_opts := (so_opts x)((IPPROTO_IPV6, IPV6_V6ONLY) \<mapsto> 1)\<rparr>)"
    and "takes ob v m s (ez_net_set_reuse_addr net k s) (x\<lparr>so_opts := (so_opts x)((SOL_SOCKET, SO_REUSEADDR) \<mapsto> 1)\<rparr>)"
    and "takes ob v m s (ez_net_set_reuse_port net k s) (x\<lparr>so_opts := (so_opts x)((SOL_SOCKET, SO_REUSEPORT) \<mapsto> 1)\<rparr>)"
    and "takes ob v m s (ez_net_set_non_block net k s) (x\<lparr>so_status := so_status x OR O_NONBLOCK\<rparr>)"
    and "takes ob v m s (ez_net_bind net k s sa) (x\<lparr>so_bound := Some sa\<rparr>)"
    and "takes ob v m s (ez_net_listen net k s n) (x\<lparr>so_backlog := Some n\<rparr>)"
proof -
  have option: "takes ob v m s (let (k, r) = net_setsockopt net k s l opt y in if r = - 1 then (k, ANET_ERR) else (k, ANET_OK))
      (x\<lparr>so_opts := (so_opts x)((l, opt) \<mapsto> y)\<rparr>)" for l opt y
  proof -
    obtain k1 r where c: "net_setsockopt net k s l opt y = (k1, r)" by (rule prod.exhaust)
    have "ob \<Longrightarrow> r \<noteq> - 1" using obligingD(2) [OF assms(3) _ c, of x] assms(2) by simp
    from takes_call [OF socket_layerD(2) [OF assms(1) c] assms(2) sock_updates(1) this] show ?thesis
      by (simp only: c Let_def prod.case)
  qed
  show "takes ob v m s (ez_net_set_ipv6_only net k s) (x\<lparr>so_opts := (so_opts x)((IPPROTO_IPV6, IPV6_V6ONLY) \<mapsto> 1)\<rparr>)"
    "takes ob v m s (ez_net_set_reuse_addr net k s) (x\<lparr>so_opts := (so_opts x)((SOL_SOCKET, SO_REUSEADDR) \<mapsto> 1)\<rparr>)"
    "takes ob v m s (ez_net_set_reuse_port net k s) (x\<lparr>so_opts := (so_opts x)((SOL_SOCKET, SO_REUSEPORT) \<mapsto> 1)\<rparr>)"
    unfolding ez_net_set_ipv6_only_def ez_net_set_reuse_addr_def ez_net_set_reuse_port_def by (rule option)+
  have "O_NONBLOCK AND settable = O_NONBLOCK" by (simp add: O_NONBLOCK_def settable_def)
  with setfl_takes [OF assms, where a = O_NONBLOCK]
  show "takes ob v m s (ez_net_set_non_block net k s) (x\<lparr>so_status := so_status x OR O_NONBLOCK\<rparr>)"
    by (simp add: ez_net_set_non_block_def)
  obtain k1 r where b: "net_bind net k s sa = (k1, r)" by (rule prod.exhaust)
  have "ob \<Longrightarrow> r \<noteq> - 1" using obligingD(5) [OF assms(3) _ b, of x] assms(2) by simp
  from takes_call [OF socket_layerD(6) [OF assms(1) b] assms(2) refl this]
  show "takes ob v m s (ez_net_bind net k s sa) (x\<lparr>so_bound := Some sa\<rparr>)" by (simp add: ez_net_bind_def b)
  obtain k2 r2 where l: "net_listen net k s n = (k2, r2)" by (rule prod.exhaust)
  have "ob \<Longrightarrow> r2 \<noteq> - 1" using obligingD(6) [OF assms(3) _ l, of x] assms(2) by simp
  from takes_call [OF socket_layerD(7) [OF assms(1) l] assms(2) refl this]
  show "takes ob v m s (ez_net_listen net k s n) (x\<lparr>so_backlog := Some n\<rparr>)" by (simp add: ez_net_listen_def l)
qed

text \<open>\<^verbatim>\<open>F_SETFL\<close> ignores \<^verbatim>\<open>FD_CLOEXEC\<close>, which is a flag of \<^verbatim>\<open>F_SETFD\<close>.\<close>

lemma closexec_takes:
  assumes "socket_layer net v" "v k = m(s \<mapsto> x)" "ob \<Longrightarrow> obliging net v reach"
  shows "takes ob v m s (ez_net_set_closexec net k s) x"
proof -
  have "FD_CLOEXEC AND settable = 0" by (simp add: FD_CLOEXEC_def settable_def)
  with setfl_takes [OF assms, where a = FD_CLOEXEC] show ?thesis by (simp add: ez_net_set_closexec_def)
qed

section \<open>Servers\<close>









lemma takesD:
  assumes "takes ob v m s (k, r) y"
  shows "r = ANET_ERR \<Longrightarrow> \<exists>z. v k = m(s \<mapsto> z)" "r = ANET_ERR \<Longrightarrow> \<not> ob" "r \<noteq> ANET_ERR \<Longrightarrow> r = ANET_OK \<and> v k = m(s \<mapsto> y)"
  using assms by (auto simp: takes_def anet_defs)


section \<open>Clients\<close>









section \<open>Accepting\<close>

definition accepted :: "sock \<Rightarrow> sockaddr \<Rightarrow> sock" where
  "accepted l sa = (new_sock (so_family l) (so_type l) (so_proto l))\<lparr>so_peer := Some sa\<rparr>"

definition accept_error :: "int \<Rightarrow> int" where
  "accept_error e = (if e = EAGAIN \<or> e = EINTR then ANET_EAGAIN
     else if e = EMFILE \<or> e = ENFILE then ANET_EMEN_FILE else ANET_ERR)"

lemma accept_error_negative: "accept_error e < ANET_OK"
  by (simp add: accept_error_def anet_defs ANET_EAGAIN_def ANET_EMEN_FILE_def EAGAIN_def ENFILE_def)

lemma generic_accept_spec:
  assumes "socket_layer net v" "v k s = Some l" "net_accept net k s = (k1, r, sa)"
    and "ez_net_tcp_generic_accept net k s = (k', fd, sa')"
  shows "sa' = sa \<and> (if r = - 1 then fd = accept_error (net_errno net k1) \<and> v k' = v k
    else fd = r \<and> 0 \<le> fd \<and> v k fd = None \<and> (\<exists>st. (st = O_RDWR \<or> st = O_RDWR OR O_NONBLOCK)
      \<and> (obliging net v reach \<longrightarrow> st = O_RDWR OR O_NONBLOCK) \<and> v k' = (v k)(fd \<mapsto> (accepted l sa)\<lparr>so_status := st\<rparr>)))"
proof -
  have op: "opened (v k) (v k1) r (accepted l sa)"
    using socket_layerD(9) [OF assms(1,3)] assms(2) by (simp add: accepted_def)
  show ?thesis
  proof (cases "r = - 1")
    case True
    then show ?thesis using op assms(4)
      by (auto simp: ez_net_tcp_generic_accept_def assms(3) opened_def accept_error_def Let_def split: if_splits)
  next
    case False
    with op have r: "0 \<le> r" "v k r = None" "v k1 = (v k)(r \<mapsto> accepted l sa)" by (auto simp: opened_def)
    obtain k2 q where c: "ez_net_set_closexec net k1 r = (k2, q)" by (rule prod.exhaust)
    have "takes False v (v k) r (k2, q) (accepted l sa)" using closexec_takes [OF assms(1) r(3), where ob = False] by (simp add: c)
    moreover have "v k2 = v k1 \<or> q = ANET_OK"
    proof -
      obtain k3 fl where g: "net_getfl net k1 r = (k3, fl)" by (rule prod.exhaust)
      obtain k4 t where f: "net_setfl net k3 r (word_of_int fl OR FD_CLOEXEC) = (k4, t)" by (rule prod.exhaust)
      show ?thesis using c socket_layerD(3) [OF assms(1) g] socket_layerD(5) [OF assms(1) f]
        by (auto simp: ez_net_set_closexec_def g f changes_def split: if_splits)
    qed
    ultimately have k2: "v k2 = (v k)(r \<mapsto> accepted l sa)" using r(3) by (auto simp: takes_def anet_defs)
    obtain k3 q3 where n: "ez_net_set_non_block net k2 r = (k3, q3)" by (rule prod.exhaust)
    have t: "takes (obliging net v reach) v (v k) r (k3, q3) ((accepted l sa)\<lparr>so_status := O_RDWR OR O_NONBLOCK\<rparr>)"
      using option_takes(4) [OF assms(1) k2, where ob = "obliging net v reach" and reach = reach] by (simp add: n accepted_def new_sock_def)
    have kept: "v k3 = v k2 \<or> q3 = ANET_OK"
    proof -
      obtain k4 fl where g: "net_getfl net k2 r = (k4, fl)" by (rule prod.exhaust)
      obtain k5 t where f: "net_setfl net k4 r (word_of_int fl OR O_NONBLOCK) = (k5, t)" by (rule prod.exhaust)
      show ?thesis using n socket_layerD(3) [OF assms(1) g] socket_layerD(5) [OF assms(1) f]
        by (auto simp: ez_net_set_non_block_def g f changes_def split: if_splits)
    qed
    have res: "k' = k3" "fd = r" "sa' = sa"
      using assms(4) False by (simp_all add: ez_net_tcp_generic_accept_def assms(3) c n)
    have plain: "(accepted l sa)\<lparr>so_status := O_RDWR\<rparr> = accepted l sa" by (simp add: accepted_def new_sock_def)
    show ?thesis
    proof (cases "q3 = ANET_ERR")
      case True
      have "\<not> obliging net v reach" by (rule takesD(2) [OF t True])
      moreover have "v k3 = (v k)(r \<mapsto> (accepted l sa)\<lparr>so_status := O_RDWR\<rparr>)"
        unfolding plain using kept k2 True by (auto simp: anet_defs)
      ultimately show ?thesis using False r(1,2) res by auto
    next
      case ok: False
      from takesD(3) [OF t ok] False r(1,2) res show ?thesis by auto
    qed
  qed
qed

lemma ntohs_bytes:
  "ntohs (ucast (hi :: u8) OR push_bit 8 (ucast (lo :: u8))) = 256 * uint hi + uint lo"
proof -
  have "push_bit 8 (ucast hi OR push_bit 8 (ucast lo)) OR drop_bit 8 (ucast hi OR push_bit 8 (ucast lo))
      = push_bit 8 (ucast hi) OR (ucast lo :: 16 word)"
    by (rule bit_word_eqI) (auto simp: bit_simps dest: bit_imp_le_length)
  then have "ntohs (ucast hi OR push_bit 8 (ucast lo)) = uint (push_bit 8 (ucast hi) OR (ucast lo :: 16 word))"
    by (simp add: ntohs_def)
  also have "push_bit 8 (ucast hi) OR (ucast lo :: 16 word) = push_bit 8 (ucast hi) + ucast lo"
    by (rule disjunctive_add [symmetric]) (auto simp: bit_simps dest: bit_imp_le_length)
  also have "uint (push_bit 8 (ucast hi) + ucast lo :: 16 word) = 256 * uint hi + uint lo"
  proof -
    have "uint hi < 2 ^ LENGTH(8)" "uint lo < 2 ^ LENGTH(8)" "0 \<le> uint hi" "0 \<le> uint lo" by (rule uint_lt2p uint_ge_0)+
    moreover from this have "take_bit 16 (uint hi) = uint hi" "take_bit 16 (uint lo) = uint lo"
      by (simp_all add: take_bit_int_eq_self)
    ultimately show ?thesis by (simp add: push_bit_eq_mult uint_word_ariths unsigned_ucast_eq mod_pos_pos_trivial)
  qed
  finally show ?thesis .
qed

section \<open>Streams through a buffer\<close>

text \<open>\<open>inn\<close> is what a descriptor delivered so far, \<open>out\<close> what it took.\<close>

definition stream_layer :: "'k net \<Rightarrow> ('k \<Rightarrow> int \<Rightarrow> u8 list) \<Rightarrow> ('k \<Rightarrow> int \<Rightarrow> u8 list) \<Rightarrow> bool" where
  "stream_layer net inn out \<longleftrightarrow>
     (\<forall>k fd n k' r bs. net_read net k fd n = (k', r, bs) \<longrightarrow> out k' = out k \<and>
        (r = int (length bs) \<and> length bs \<le> n \<and> inn k' = (inn k)(fd := inn k fd @ bs) \<or> r = - 1 \<and> bs = [] \<and> inn k' = inn k)) \<and>
     (\<forall>k fd bs k' r. net_write net k fd bs = (k', r) \<longrightarrow> inn k' = inn k \<and>
        (0 \<le> r \<and> r \<le> int (length bs) \<and> out k' = (out k)(fd := out k fd @ take (nat r) bs) \<or> r = - 1 \<and> out k' = out k))"

lemma writeable_free: "holds b bs \<Longrightarrow> unat (bytebuf_writeable_size b) = free b"
proof -
  assume h: "holds b bs"
  have u: "unat (ucast (bw b) :: u64) = unat (bw b)" by (rule unat_ucast_index)
  then have "(ucast (bw b) :: u64) \<le> bcap b" using h by (simp add: word_le_nat_alt holds_def)
  then show ?thesis by (simp add: bytebuf_writeable_size_def free_def unat_sub u)
qed

lemma readable_held: "holds b bs \<Longrightarrow> unat (bytebuf_readable_size b) = length bs"
proof -
  assume h: "holds b bs"
  then have eq: "unat (br b) + length bs = unat (bw b)" by (simp add: holds_def)
  then have "br b \<le> bw b" by (simp add: word_le_nat_alt)
  then have "unat (bytebuf_readable_size b) = unat (bw b) - unat (br b)" by (simp add: bytebuf_readable_size_def unat_sub)
  with eq show ?thesis by linarith
qed

lemma store_bytes_holds:
  assumes "holds b held" "length bs \<le> free b"
  shows "\<exists>b'. store_bytes b bs = Some b' \<and> holds (b'\<lparr>bw := bw b' + of_nat (length bs)\<rparr>) (held @ bs) \<and> (bs = [] \<longrightarrow> b' = b)"
proof -
  let ?w = "unat (bw b)"
  let ?d = "take ?w (bdata b) @ map Some bs @ drop (?w + length bs) (bdata b)"
  have room: "?w + length bs \<le> length (bdata b)" by (rule free_bound [OF assms])
  have "holds (b\<lparr>bdata := ?d, bw := bw b + of_nat (length bs)\<rparr>) (held @ bs)"
    by (rule conjunct1 [OF holds_store [OF assms refl]]) (use room in \<open>auto simp: nth_append\<close>)
  moreover have "?d = bdata b" if "bs = []" using that by simp
  ultimately show ?thesis using room by (auto simp: store_bytes_def Let_def)
qed

lemma those_map_Some: "those (map Some xs) = Some xs"
  by (induction xs) simp_all

lemma load_bytes_held: "holds b held \<Longrightarrow> load_bytes b (length held) = Some held"
proof -
  assume h: "holds b held"
  have "take (length held) (drop (unat (br b)) (bdata b)) = map Some held"
    by (rule nth_equalityI) (use h in \<open>auto simp: holds_def\<close>)
  with h show ?thesis by (simp add: load_bytes_def those_map_Some holds_def)
qed

lemma read_bf_spec:
  assumes "stream_layer net inn out" "holds b held"
  shows "\<exists>k' r n b' bs. ez_net_read_bf net k fd b = Some (k', r, n, b') \<and> holds b' (held @ bs)
    \<and> inn k' = (inn k)(fd := inn k fd @ bs) \<and> out k' = out k"
proof -
  obtain k' r bs where c: "net_read net k fd (free b) = (k', r, bs)" by (metis prod.exhaust)
  with assms(1) have s: "out k' = out k" "r = int (length bs) \<and> length bs \<le> free b \<and> inn k' = (inn k)(fd := inn k fd @ bs)
      \<or> r = - 1 \<and> bs = [] \<and> inn k' = inn k" unfolding stream_layer_def by blast+
  then have "length bs \<le> free b" by auto
  from store_bytes_holds [OF assms(2) this] obtain b' where b': "store_bytes b bs = Some b'"
    "holds (b'\<lparr>bw := bw b' + of_nat (length bs)\<rparr>) (held @ bs)" "bs = [] \<longrightarrow> b' = b" by blast
  have w: "word_of_int (int (length bs)) = (of_nat (length bs) :: u32)" by simp
  show ?thesis
  proof (cases "bs = []")
    case True
    with b' have "b' = b" by simp
    moreover have "b\<lparr>bw := bw b + 0\<rparr> = b" by simp
    ultimately have "\<exists>q n. ez_net_read_bf net k fd b = Some (k', q, n, b)"
      using s True b'(1) by (auto simp: ez_net_read_bf_def writeable_free [OF assms(2)] ez_net_read_def c Let_def)
    moreover have "inn k' = (inn k)(fd := inn k fd @ [])" using s True by (auto simp: fun_upd_idem)
    moreover have "holds b (held @ [])" using assms(2) by simp
    ultimately show ?thesis using s(1) by blast
  next
    case False
    with s have "r = int (length bs)" "0 < r" "inn k' = (inn k)(fd := inn k fd @ bs)" by auto
    with b' s(1) show ?thesis
      by (auto simp: ez_net_read_bf_def writeable_free [OF assms(2)] ez_net_read_def c Let_def w)
  qed
qed

lemma write_bf_spec:
  assumes "stream_layer net inn out" "holds b held"
  shows "\<exists>k' r n b' j. ez_net_write_bf net k fd b = Some (k', r, n, b') \<and> holds b' (drop j held)
    \<and> out k' = (out k)(fd := out k fd @ take j held) \<and> inn k' = inn k"
proof -
  obtain k' r where c: "net_write net k fd held = (k', r)" by (rule prod.exhaust)
  with assms(1) have s: "inn k' = inn k" "0 \<le> r \<and> r \<le> int (length held) \<and> out k' = (out k)(fd := out k fd @ take (nat r) held)
      \<or> r = - 1 \<and> out k' = out k" unfolding stream_layer_def by blast+
  have size: "load_bytes b (unat (bytebuf_readable_size b)) = Some held"
    using load_bytes_held [OF assms(2)] by (simp add: readable_held [OF assms(2)])
  show ?thesis
  proof (cases "r > 0")
    case True
    with s have j: "nat r \<le> length held" "out k' = (out k)(fd := out k fd @ take (nat r) held)" by auto
    have "holds b (take (nat r) held @ drop (nat r) held)" using assms(2) by simp
    then have "holds (b\<lparr>br := br b + of_nat (length (take (nat r) held))\<rparr>) (drop (nat r) held)"
      by (rule conjunct1 [OF holds_skip])
    moreover have "length (take (nat r) held) = nat r" using j(1) by simp
    moreover have "of_nat (nat r) = (word_of_int r :: u32)" using True by (metis int_nat_eq less_imp_le of_int_of_nat_eq)
    ultimately have "holds (b\<lparr>br := br b + word_of_int r\<rparr>) (drop (nat r) held)" by simp
    moreover have "ez_net_write_bf net k fd b = Some (k', ANET_OK, r, b\<lparr>br := br b + word_of_int r\<rparr>)"
      using True size by (simp add: ez_net_write_bf_def ez_net_write_def c Let_def)
    ultimately show ?thesis using j(2) s(1) by blast
  next
    case False
    have "b\<lparr>br := br b + 0\<rparr> = b" by simp
    with False size have "\<exists>q n. ez_net_write_bf net k fd b = Some (k', q, n, b)"
      by (auto simp: ez_net_write_bf_def ez_net_write_def c Let_def)
    moreover have "out k' = out k" using s(2) False by (auto simp: fun_upd_idem)
    ultimately show ?thesis using assms(2) s(1)
      by (auto simp: fun_upd_idem intro!: exI [of _ "0 :: nat"])
  qed
qed

datatype io = Fill | Drain

primrec relay :: "'k net \<Rightarrow> int \<Rightarrow> int \<Rightarrow> io list \<Rightarrow> 'k \<Rightarrow> bytebuf \<Rightarrow> ('k \<times> bytebuf) option" where
  "relay net i j [] k b = Some (k, b)"
| "relay net i j (x # xs) k b = do {
     (k, r, n, b) \<leftarrow> (case x of Fill \<Rightarrow> ez_net_read_bf net k i b | Drain \<Rightarrow> ez_net_write_bf net k j b);
     relay net i j xs k b
   }"

lemma relay_spec:
  assumes "stream_layer net inn out" "holds b held"
  shows "\<exists>k' b' held' xs ys. relay net i j ops k b = Some (k', b') \<and> holds b' held' \<and> held @ xs = ys @ held'
    \<and> inn k' = (inn k)(i := inn k i @ xs) \<and> out k' = (out k)(j := out k j @ ys)"
  using assms(2)
proof (induction ops arbitrary: k b held)
  case Nil
  have "held @ [] = [] @ held" "inn k = (inn k)(i := inn k i @ [])" "out k = (out k)(j := out k j @ [])" by simp_all
  moreover have "relay net i j [] k b = Some (k, b)" by simp
  ultimately show ?case using Nil by blast
next
  case (Cons x ops)
  show ?case
  proof (cases x)
    case Fill
    from read_bf_spec [OF assms(1) Cons.prems, of k i] obtain k1 r n b1 bs
      where r: "ez_net_read_bf net k i b = Some (k1, r, n, b1)" "holds b1 (held @ bs)"
        "inn k1 = (inn k)(i := inn k i @ bs)" "out k1 = out k" by blast
    from Cons.IH [OF r(2), of k1] obtain k' b' held' xs ys where t: "relay net i j ops k1 b1 = Some (k', b')"
      "holds b' held'" "(held @ bs) @ xs = ys @ held'" "inn k' = (inn k1)(i := inn k1 i @ xs)"
      "out k' = (out k1)(j := out k1 j @ ys)" by blast
    have "relay net i j (x # ops) k b = Some (k', b')" using Fill r(1) t(1) by simp
    moreover have "held @ (bs @ xs) = ys @ held'" "inn k' = (inn k)(i := inn k i @ (bs @ xs))"
      "out k' = (out k)(j := out k j @ ys)" using t(3-5) r(3,4) by simp_all
    ultimately show ?thesis using t(2) by blast
  next
    case Drain
    from write_bf_spec [OF assms(1) Cons.prems, of k j] obtain k1 r n b1 c
      where r: "ez_net_write_bf net k j b = Some (k1, r, n, b1)" "holds b1 (drop c held)"
        "out k1 = (out k)(j := out k j @ take c held)" "inn k1 = inn k" by blast
    from Cons.IH [OF r(2), of k1] obtain k' b' held' xs ys where t: "relay net i j ops k1 b1 = Some (k', b')"
      "holds b' held'" "drop c held @ xs = ys @ held'" "inn k' = (inn k1)(i := inn k1 i @ xs)"
      "out k' = (out k1)(j := out k1 j @ ys)" by blast
    have "relay net i j (x # ops) k b = Some (k', b')" using Drain r(1) t(1) by simp
    moreover have "held @ xs = (take c held @ ys) @ held'"
      using arg_cong [OF t(3), of "\<lambda>l. take c held @ l"] by (simp add: append_take_drop_id flip: append_assoc)
    moreover have "inn k' = (inn k)(i := inn k i @ xs)" "out k' = (out k)(j := out k j @ (take c held @ ys))"
      using t(4,5) r(3,4) by simp_all
    ultimately show ?thesis using t(2) by blast
  qed
qed

section \<open>A concrete system\<close>

definition demo_sa :: sockaddr where
  "demo_sa = \<lparr>ss_family = AF_INET, sin_port = 0x901F, sin_addr = [127, 0, 0, 1], sin6_addr = [], sun_path = []\<rparr>"

definition demo_ai :: addrinfo where
  "demo_ai = \<lparr>ai_family = AF_INET, ai_socktype = SOCK_STREAM, ai_protocol = IPPROTO_TCP, ai_addr = demo_sa\<rparr>"

definition on_open :: "sockets \<Rightarrow> int \<Rightarrow> (sock \<Rightarrow> sock) \<Rightarrow> sockets \<times> int" where
  "on_open v s f = (case v s of None \<Rightarrow> (v, - 1) | Some x \<Rightarrow> (v(s \<mapsto> f x), 0))"

definition open_at :: "sockets \<Rightarrow> int \<Rightarrow> sock \<Rightarrow> sockets \<times> int" where
  "open_at v s x = (if finite (dom v) \<and> v s = None then (v(s \<mapsto> x), s) else (v, - 1))"

text \<open>A system that opens the descriptor above all others; nothing can be read or written.\<close>

definition demo_net :: "sockets net" where
  "demo_net = \<lparr>net_errno = (\<lambda>k. 111), net_socket = (\<lambda>k f t p. open_at k (1 + Max (insert 4 (dom k))) (new_sock f t p)),
     net_bind = (\<lambda>k s sa. on_open k s (so_bound_update (\<lambda>_. Some sa))),
     net_listen = (\<lambda>k s n. on_open k s (so_backlog_update (\<lambda>_. Some n))),
     net_accept = (\<lambda>k s. case k s of None \<Rightarrow> (k, - 1, demo_sa)
        | Some l \<Rightarrow> (let (k, fd) = open_at k (1 + Max (insert 4 (dom k))) (accepted l demo_sa) in (k, fd, demo_sa))),
     net_connect = (\<lambda>k s sa. on_open k s (so_peer_update (\<lambda>_. Some sa))),
     net_setsockopt = (\<lambda>k s l opt x. on_open k s (so_opts_update (\<lambda>m. m((l, opt) \<mapsto> x)))),
     net_getfl = (\<lambda>k s. case k s of None \<Rightarrow> (k, - 1) | Some x \<Rightarrow> (k, uint (so_status x))),
     net_setfl = (\<lambda>k s a. on_open k s (so_status_update (\<lambda>b. b AND NOT settable OR a AND settable))),
     net_close = (\<lambda>k s. k(s := None)), net_read = (\<lambda>k fd n. (k, - 1, [])), net_write = (\<lambda>k fd bs. (k, - 1)),
     net_getaddrinfo = (\<lambda>k h sv fl af ty. (k, 0, [demo_ai])), net_freeaddrinfo = (\<lambda>k ps. k),
     net_getpeername = (\<lambda>k fd. (k, - 1, demo_sa)), net_getsockname = (\<lambda>k fd. (k, - 1, demo_sa)),
     net_ntop = (\<lambda>af a buf n. buf)\<rparr>"

lemma above_all: "0 \<le> 1 + Max (insert 4 (dom (k :: sockets))) \<or> infinite (dom k)"
  "finite (dom k) \<Longrightarrow> k (1 + Max (insert 4 (dom k))) = None"
proof -
  show "0 \<le> 1 + Max (insert 4 (dom k)) \<or> infinite (dom k)"
  proof (cases "finite (dom k)")
    case True
    then have "4 \<le> Max (insert 4 (dom k))" by (intro Max_ge) auto
    then show ?thesis by simp
  qed simp
  show "k (1 + Max (insert 4 (dom k))) = None" if "finite (dom k)"
  proof (rule ccontr)
    assume "k (1 + Max (insert 4 (dom k))) \<noteq> None"
    then have "1 + Max (insert 4 (dom k)) \<le> Max (insert 4 (dom k))" using that by (intro Max_ge) auto
    then show False by simp
  qed
qed

definition demo_sockets :: sockets where
  "demo_sockets = [0 \<mapsto> new_sock 0 0 0, 3 \<mapsto> new_sock AF_INET SOCK_STREAM IPPROTO_TCP]"

lemma demo_layer: "socket_layer demo_net (\<lambda>k. k)"
  unfolding socket_layer_def using above_all
  by (auto simp: demo_net_def on_open_def open_at_def changes_def opened_def accepted_def EINPROGRESS_def Let_def
      split: option.splits if_splits prod.splits)

lemma demo_obliging: "obliging demo_net (\<lambda>k. k) (\<lambda>_. True)"
proof -
  have "0 \<le> 1 + Max (insert 4 (dom k))" if "finite (dom k)" for k :: sockets using above_all(1) [of k] that by simp
  then have "1 + Max (insert 4 (dom k)) \<noteq> - 1" if "finite (dom k)" for k :: sockets using that by force
  moreover have "uint (w :: u32) \<noteq> - 1" for w using uint_ge_0 [of w] by linarith
  ultimately show ?thesis unfolding obliging_def
    by (auto simp: demo_net_def on_open_def open_at_def above_all(2))
qed

section \<open>Properties\<close>





text \<open>
  C25: accepting a connection answers the new descriptor, and the peer's address and port in the caller's variables; the
  new socket is non-blocking unless a system call was refused, but never close-on-exec, although the code asks for that
  (with \<^verbatim>\<open>F_SETFL\<close>, and the call succeeds). A failure is told apart as would-block, out-of-descriptors or error, and
  touches nothing; for a local socket all failures are the same error.
\<close>

theorem ez_net_tcp_accept_correct:
  assumes "socket_layer net v" "v k s = Some l" "net_accept net k s = (k1, r, sa)"
    and "ez_net_tcp_accept2 net k s ip n port = (k', fd, ip', port')" "ez_net_unix_accept net k s = (k2, fd2)"
    and "sin_port sa = ucast (hi :: u8) OR push_bit 8 (ucast (lo :: u8))"
  shows "(if r = - 1 then fd = accept_error (net_errno net k1) \<and> fd2 = ANET_ERR \<and> v k' = v k \<and> ip' = ip \<and> port' = port
    else fd = r \<and> fd2 = r \<and> 0 \<le> fd \<and> v k fd = None
      \<and> (\<exists>st. (st = O_RDWR \<or> st = O_RDWR OR O_NONBLOCK) \<and> (obliging net v reach \<longrightarrow> st = O_RDWR OR O_NONBLOCK)
          \<and> v k' = (v k)(fd \<mapsto> (accepted l sa)\<lparr>so_status := st, so_cloexec := False\<rparr>))
      \<and> ip' = map_option (\<lambda>b. if ss_family sa = AF_INET then net_ntop net AF_INET (sin_addr sa) b (ucast n)
          else net_ntop net AF_INET6 (sin6_addr sa) b (ucast n)) ip
      \<and> port' = map_option (\<lambda>_. 256 * uint hi + uint lo) port)"
proof -
  obtain k3 fd3 sa3 where g: "ez_net_tcp_generic_accept net k s = (k3, fd3, sa3)" by (metis prod.exhaust)
  note spec = generic_accept_spec [OF assms(1-3) g, of reach]
  have plain: "x\<lparr>so_status := st, so_cloexec := False\<rparr> = x\<lparr>so_status := st\<rparr>" if "x = accepted l sa" for x st
    using that by (simp add: accepted_def new_sock_def)
  have port: "ntohs (sin_port sa) = 256 * uint hi + uint lo" using ntohs_bytes by (simp add: assms(6))
  show ?thesis
  proof (cases "r = - 1")
    case True
    with spec have fd: "fd3 = accept_error (net_errno net k1)" "v k3 = v k" by simp_all
    with accept_error_negative have "fd3 < ANET_OK" by simp
    then show ?thesis using assms(4,5) True fd by (simp add: ez_net_tcp_accept2_def ez_net_unix_accept_def g)
  next
    case False
    with spec have fd: "fd3 = r" "0 \<le> fd3" "sa3 = sa" by simp_all
    then have "\<not> fd3 < ANET_OK" by (simp add: anet_defs)
    then have "fd = fd3" "fd2 = fd3" "k' = k3" "(ip', port') = store_name net sa ip n port"
      using assms(4,5) fd(3) by (simp_all add: ez_net_tcp_accept2_def ez_net_unix_accept_def g)
    with False spec fd show ?thesis unfolding plain [OF refl]
      by (auto simp: store_name_def port split: if_splits)
  qed
qed

theorem ez_net_tcp_accept_correct_witness:
  "\<exists>k fd. ez_net_tcp_accept2 demo_net demo_sockets 3 None 0 (Some 0) = (k, fd, None, Some 8080) \<and> 0 \<le> fd
    \<and> (\<exists>y. k fd = Some y \<and> so_status y = O_RDWR OR O_NONBLOCK \<and> \<not> so_cloexec y)"
proof -
  have l: "demo_sockets 3 = Some (new_sock AF_INET SOCK_STREAM IPPROTO_TCP)" by (simp add: demo_sockets_def)
  obtain k1 r sa where a: "net_accept demo_net demo_sockets 3 = (k1, r, sa)" by (metis prod.exhaust)
  then have sa: "sa = demo_sa" by (auto simp: demo_net_def l Let_def split: prod.splits)
  have "finite (dom demo_sockets)" by (simp add: demo_sockets_def)
  then have r: "r \<noteq> - 1" using a above_all [of demo_sockets] by (auto simp: demo_net_def l open_at_def Let_def)
  obtain k' fd ip' port' where c: "ez_net_tcp_accept2 demo_net demo_sockets 3 None 0 (Some 0) = (k', fd, ip', port')"
    by (metis prod.exhaust)
  obtain k2 fd2 where u: "ez_net_unix_accept demo_net demo_sockets 3 = (k2, fd2)" by (rule prod.exhaust)
  have p: "sin_port sa = ucast (0x1F :: u8) OR push_bit 8 (ucast (0x90 :: u8))" by (simp add: sa demo_sa_def)
  from ez_net_tcp_accept_correct [OF demo_layer l a c u p, of "\<lambda>_. True"] demo_obliging r c show ?thesis by auto
qed

text \<open>
  \<^verbatim>\<open>ez_net_read\<close> consults \<^verbatim>\<open>errno\<close> also when \<^verbatim>\<open>read\<close> answers 0, although a read that succeeds does not set it:
  after a read that would block, data is still reported as \<^verbatim>\<open>ANET_OK\<close> with its length, but the end of the stream is
  reported as \<^verbatim>\<open>ANET_EAGAIN\<close> with no bytes, exactly as the blocked read was, and the caller cannot see it.
\<close>

theorem ez_net_read_eof:
  assumes "net_read net k fd n = (k1, - 1, [])" "net_errno net k1 = EAGAIN"
    and "net_read net k1 fd n = (k2, r, bs)" "0 \<le> r" "net_errno net k2 = net_errno net k1"
  shows "ez_net_read net k fd n = (k1, ANET_EAGAIN, 0, [])
    \<and> ez_net_read net k1 fd n = (if r = 0 then (k2, ANET_EAGAIN, 0, bs) else (k2, ANET_OK, r, bs))"
  using assms by (simp add: ez_net_read_def)

definition demo_eof_net :: "nat net" where
  "demo_eof_net = \<lparr>net_errno = (\<lambda>k. 11), net_socket = (\<lambda>k f t p. (k, - 1)), net_bind = (\<lambda>k s sa. (k, - 1)),
     net_listen = (\<lambda>k s n. (k, - 1)), net_accept = (\<lambda>k s. (k, - 1, demo_sa)), net_connect = (\<lambda>k s sa. (k, - 1)),
     net_setsockopt = (\<lambda>k s l opt x. (k, - 1)), net_getfl = (\<lambda>k s. (k, - 1)), net_setfl = (\<lambda>k s a. (k, - 1)),
     net_close = (\<lambda>k s. k), net_read = (\<lambda>k fd n. if k = 0 then (1, - 1, []) else (k, 0, [])),
     net_write = (\<lambda>k fd bs. (k, - 1)), net_getaddrinfo = (\<lambda>k h sv fl af ty. (k, - 2, [])), net_freeaddrinfo = (\<lambda>k ps. k),
     net_getpeername = (\<lambda>k fd. (k, - 1, demo_sa)), net_getsockname = (\<lambda>k fd. (k, - 1, demo_sa)),
     net_ntop = (\<lambda>af a buf n. buf)\<rparr>"

theorem ez_net_read_eof_witness: "ez_net_read demo_eof_net 1 7 64 = (1, ANET_EAGAIN, 0, [])"
  using ez_net_read_eof [of demo_eof_net 0 7 64 1 1 0 "[]"] by (simp add: demo_eof_net_def EAGAIN_def)

text \<open>
  C11: any sequence of reads into a byte buffer from one descriptor and writes from it to another (which may be the same)
  stays inside the buffer and keeps the bytes in order: what was in the buffer followed by all that arrived is all that
  left followed by what the buffer holds now, whatever parts the system transfers and whichever calls fail.
\<close>

theorem ez_net_bf_fifo:
  assumes "stream_layer net inn out" "holds b held"
  shows "\<exists>k' b' held' xs ys. relay net i j ops k b = Some (k', b') \<and> holds b' held' \<and> held @ xs = ys @ held'
    \<and> inn k' = (inn k)(i := inn k i @ xs) \<and> out k' = (out k)(j := out k j @ ys)"
  by (rule relay_spec [OF assms])

text \<open>A system that delivers at most two zero bytes at a time and takes one.\<close>

type_synonym demo_streams = "(int \<Rightarrow> u8 list) \<times> (int \<Rightarrow> u8 list)"

definition demo_stream_net :: "demo_streams net" where
  "demo_stream_net = \<lparr>net_errno = (\<lambda>k. 11), net_socket = (\<lambda>k f t p. (k, - 1)), net_bind = (\<lambda>k s sa. (k, - 1)),
     net_listen = (\<lambda>k s n. (k, - 1)), net_accept = (\<lambda>k s. (k, - 1, demo_sa)), net_connect = (\<lambda>k s sa. (k, - 1)),
     net_setsockopt = (\<lambda>k s l opt x. (k, - 1)), net_getfl = (\<lambda>k s. (k, - 1)), net_setfl = (\<lambda>k s a. (k, - 1)),
     net_close = (\<lambda>k s. k),
     net_read = (\<lambda>(a, c) fd n. let bs = replicate (min 2 n) 0 in ((a(fd := a fd @ bs), c), int (length bs), bs)),
     net_write = (\<lambda>(a, c) fd bs. let n = min 1 (length bs) in ((a, c(fd := c fd @ take n bs)), int n)),
     net_getaddrinfo = (\<lambda>k h sv fl af ty. (k, - 2, [])), net_freeaddrinfo = (\<lambda>k ps. k),
     net_getpeername = (\<lambda>k fd. (k, - 1, demo_sa)), net_getsockname = (\<lambda>k fd. (k, - 1, demo_sa)),
     net_ntop = (\<lambda>af a buf n. buf)\<rparr>"

theorem ez_net_bf_fifo_witness:
  "\<exists>k b. relay demo_stream_net 4 5 [Fill, Drain, Fill, Drain] (\<lambda>_. [], \<lambda>_. []) (new_bytebuf 8) = Some (k, b)"
proof -
  have "stream_layer demo_stream_net fst snd"
    by (auto simp: stream_layer_def demo_stream_net_def Let_def)
  moreover have "holds (new_bytebuf 8) []" using new_bytebuf_holds [of 8] by (simp add: EZ_ALIGN_def ez_align_to_def EZ_MARK_def)
  ultimately show ?thesis
    using ez_net_bf_fifo [of demo_stream_net fst snd "new_bytebuf 8" "[]" 4 5] by blast
qed

end
