(* ===== verification/Ez_Log.thy ===== *)
theory Ez_Log
  imports Ez_Util Ez_String
begin

text \<open>
  The logger of \<^verbatim>\<open>src/ez_log.c\<close> and the macros of \<^verbatim>\<open>src/ez_log.h\<close>: the level, the descriptor of the log file, log
  lines and hex dumps in buffers of fixed size. The system is a parameter; the text of a message is the argument
  that \<^verbatim>\<open>vsnprintf\<close> would make of format and arguments.
\<close>

section \<open>The system below\<close>

record tm =
  tm_year :: int
  tm_mon :: int
  tm_mday :: int
  tm_hour :: int
  tm_min :: int
  tm_sec :: int

text \<open>\<open>lo_file\<close> is what the compiler puts for \<^verbatim>\<open>__FILE__\<close> in the source of the logger.\<close>

record 'k logos =
  lo_open :: "'k \<Rightarrow> u8 list \<Rightarrow> 'k \<times> int"
  lo_close :: "'k \<Rightarrow> int \<Rightarrow> 'k"
  lo_write :: "'k \<Rightarrow> int \<Rightarrow> u8 list \<Rightarrow> 'k \<times> int"
  lo_gettimeofday :: "'k \<Rightarrow> 'k \<times> int \<times> int"
  lo_localtime :: "int \<Rightarrow> tm"
  lo_errno :: "'k \<Rightarrow> int"
  lo_set_errno :: "'k \<Rightarrow> int \<Rightarrow> 'k"
  lo_strerror :: "int \<Rightarrow> u8 list"
  lo_file :: "u8 list"

definition ascii :: "string \<Rightarrow> u8 list" where
  "ascii s = map (\<lambda>c. of_nat (of_char c)) s"

section \<open>The logger\<close>

definition LOG_EMERG :: int where "LOG_EMERG = 0"
definition LOG_ALERT :: int where "LOG_ALERT = 1"
definition LOG_ERR :: int where "LOG_ERR = 2"
definition LOG_WARN :: int where "LOG_WARN = 3"
definition LOG_INFO :: int where "LOG_INFO = 4"
definition LOG_DEBUG :: int where "LOG_DEBUG = 5"

definition LOG_MAX_LEN :: nat where "LOG_MAX_LEN = 256"
definition STDERR_FILENO :: int where "STDERR_FILENO = 2"

text \<open>The name is \<open>None\<close> for a null pointer.\<close>

record logger =
  lg_name :: "u8 list option"
  lg_fd :: int
  lg_level :: int
  lg_nerror :: int

definition LOG_LEVEL_INFO :: "string list" where
  "LOG_LEVEL_INFO = [''EMERG'', ''ALERT'', ''ERROR'', ''WARN'', ''INFO'', ''DEBUG'']"

definition get_log_level_name :: "int \<Rightarrow> u8 list" where
  "get_log_level_name level =
     (if level < LOG_EMERG \<or> level > LOG_DEBUG then ascii ''-'' else ascii (LOG_LEVEL_INFO ! nat level))"

section \<open>Text in a buffer\<close>

text \<open>
  \<^verbatim>\<open>len += ez_snprintf(buf + len, size - len, ...)\<close>: \<open>out\<close> is the text of length \<^verbatim>\<open>len\<close> in the buffer, \<open>s\<close> what
  the format makes. In a full buffer the length would go down, which is left undefined here.
\<close>

definition append_text :: "nat \<Rightarrow> u8 list \<Rightarrow> u8 list \<Rightarrow> u8 list option" where
  "append_text sz out s =
     (if sz \<le> length out then None
      else Some (out @ take (nat (ez_snprintf (of_nat (sz - length out)) (int (length s)))) s))"

text \<open>\<^verbatim>\<open>buf[len++] = '\n'\<close>.\<close>

definition put_newline :: "nat \<Rightarrow> u8 list \<Rightarrow> u8 list option" where
  "put_newline sz out = (if length out < sz then Some (out @ [10]) else None)"

text \<open>\<^verbatim>\<open>%0wd\<close>, \<^verbatim>\<open>%6s\<close>, \<^verbatim>\<open>%02x\<close> and \<^verbatim>\<open>%08x\<close>; the last one takes the low 32 bits.\<close>

definition pad_dec :: "nat \<Rightarrow> int \<Rightarrow> u8 list" where
  "pad_dec w x =
     (if x < 0 then 45 # replicate (w - 1 - length (dec_text (nat (- x)))) 48 @ dec_text (nat (- x))
      else replicate (w - length (dec_text (nat x))) 48 @ dec_text (nat x))"

definition pad_text :: "nat \<Rightarrow> u8 list \<Rightarrow> u8 list" where
  "pad_text w s = replicate (w - length s) 32 @ s"

definition hex_digit :: "nat \<Rightarrow> u8" where
  "hex_digit d = (if d < 10 then of_nat (48 + d) else of_nat (87 + d))"

definition hex2 :: "u8 \<Rightarrow> u8 list" where
  "hex2 c = [hex_digit (unat c div 16), hex_digit (unat c mod 16)]"

definition hex8 :: "nat \<Rightarrow> u8 list" where
  "hex8 n = map (\<lambda>i. hex_digit (n div 16 ^ (7 - i) mod 16)) [0..<8]"

section \<open>Lines\<close>

definition log_stderr_line :: "u8 list \<Rightarrow> int \<Rightarrow> u8 list \<Rightarrow> u8 list option" where
  "log_stderr_line file line msg = do {
     out \<leftarrow> append_text (4 * LOG_MAX_LEN) [] (file @ ascii '':'' @ int_text line @ ascii '' '');
     out \<leftarrow> append_text (4 * LOG_MAX_LEN) out msg;
     put_newline (4 * LOG_MAX_LEN) out
   }"

definition log_stderr :: "'k logos \<Rightarrow> 'k \<Rightarrow> u8 list \<Rightarrow> int \<Rightarrow> u8 list \<Rightarrow> 'k option" where
  "log_stderr os k file line msg = do {
     out \<leftarrow> log_stderr_line file line msg;
     Some (fst (lo_write os k STDERR_FILENO out))
   }"

definition log_header :: "tm \<Rightarrow> int \<Rightarrow> int \<Rightarrow> u8 list \<Rightarrow> int \<Rightarrow> u8 list" where
  "log_header lt usec log_level file line =
     pad_dec 4 (tm_year lt + 1900) @ ascii ''-'' @ pad_dec 2 (tm_mon lt + 1) @ ascii ''-'' @ pad_dec 2 (tm_mday lt) @ ascii '' ''
       @ pad_dec 2 (tm_hour lt) @ ascii '':'' @ pad_dec 2 (tm_min lt) @ ascii '':'' @ pad_dec 2 (tm_sec lt) @ ascii '',''
       @ pad_dec 3 (c_div usec 1000) @ ascii '' ['' @ pad_text 6 (get_log_level_name log_level) @ ascii ''] ''
       @ file @ ascii '':'' @ int_text line @ ascii '' ''"

text \<open>\<open>log_core\<close> answers the next states and whether the program was aborted.\<close>

definition log_core ::
    "'k logos \<Rightarrow> 'k \<Rightarrow> logger \<Rightarrow> int \<Rightarrow> u8 list \<Rightarrow> int \<Rightarrow> bool \<Rightarrow> u8 list \<Rightarrow> ('k \<times> logger \<times> bool) option" where
  "log_core os k l log_level file line panic msg =
     (if lg_fd l < 0 then Some (k, l, False)
      else
        let save_error_no = lo_errno os k;
            (k, tv_sec, tv_usec) = lo_gettimeofday os k;
            lt = lo_localtime os tv_sec
        in do {
          out \<leftarrow> append_text LOG_MAX_LEN [] (log_header lt tv_usec log_level file line);
          out \<leftarrow> append_text LOG_MAX_LEN out msg;
          out \<leftarrow> put_newline LOG_MAX_LEN out;
          let (k, n) = lo_write os k (lg_fd l) out;
          let l = (if n < 0 then l\<lparr>lg_nerror := lg_nerror l + 1\<rparr> else l);
          Some (lo_set_errno os k save_error_no, l, panic)
        })"

section \<open>Life cycle and levels\<close>

definition log_init :: "'k logos \<Rightarrow> 'k \<Rightarrow> logger \<Rightarrow> int \<Rightarrow> u8 list option \<Rightarrow> ('k \<times> logger \<times> int) option" where
  "log_init os k l level name =
     (let l = l\<lparr>lg_level := level, lg_name := name\<rparr> in
      case name of
        None \<Rightarrow> Some (k, l\<lparr>lg_fd := STDERR_FILENO\<rparr>, 0)
      | Some f \<Rightarrow>
          if f = [] then Some (k, l\<lparr>lg_fd := STDERR_FILENO\<rparr>, 0)
          else
            let (k, fd) = lo_open os k f; l = l\<lparr>lg_fd := fd\<rparr> in
            if fd < 0 then do {
              k \<leftarrow> log_stderr os k (lo_file os) 54
                (ascii ''opening log file '' @ [39] @ f @ [39] @ ascii '' failed: '' @ lo_strerror os (lo_errno os k));
              Some (k, l, - 1)
            }
            else Some (k, l, 0))"

definition log_release :: "'k logos \<Rightarrow> 'k \<Rightarrow> logger \<Rightarrow> 'k \<times> logger" where
  "log_release os k l =
     (if lg_fd l \<noteq> STDERR_FILENO then (lo_close os k (lg_fd l), l\<lparr>lg_fd := - 1\<rparr>) else (k, l))"

definition log_reopen :: "'k logos \<Rightarrow> 'k \<Rightarrow> logger \<Rightarrow> ('k \<times> logger) option" where
  "log_reopen os k l =
     (let k = (if lg_fd l \<noteq> - 1 \<and> lg_fd l > STDERR_FILENO then lo_close os k (lg_fd l) else k) in
      case lg_name l of
        None \<Rightarrow> Some (k, l\<lparr>lg_fd := STDERR_FILENO\<rparr>)
      | Some f \<Rightarrow>
          if f = [] then Some (k, l\<lparr>lg_fd := STDERR_FILENO\<rparr>)
          else
            let (k, fd) = lo_open os k f; l = l\<lparr>lg_fd := fd\<rparr> in
            if fd < 0 then do {
              k \<leftarrow> log_stderr os k (lo_file os) 84
                (ascii ''reopening log file '' @ [39] @ f @ [39] @ ascii '' failed, ignored: '' @ lo_strerror os (lo_errno os k));
              Some (k, l)
            }
            else Some (k, l))"

definition log_level_up :: "'k logos \<Rightarrow> 'k \<Rightarrow> logger \<Rightarrow> ('k \<times> logger) option" where
  "log_level_up os k l =
     (if lg_level l < LOG_DEBUG then do {
        let l = l\<lparr>lg_level := lg_level l + 1\<rparr>;
        k \<leftarrow> log_stderr os k (lo_file os) 95 (ascii ''up log level to '' @ get_log_level_name (lg_level l));
        Some (k, l)
      }
      else Some (k, l))"

definition log_level_down :: "'k logos \<Rightarrow> 'k \<Rightarrow> logger \<Rightarrow> ('k \<times> logger) option" where
  "log_level_down os k l =
     (if lg_level l > LOG_EMERG then do {
        let l = l\<lparr>lg_level := lg_level l - 1\<rparr>;
        k \<leftarrow> log_stderr os k (lo_file os) 105 (ascii ''down log level to '' @ get_log_level_name (lg_level l));
        Some (k, l)
      }
      else Some (k, l))"

definition log_level_set :: "'k logos \<Rightarrow> 'k \<Rightarrow> logger \<Rightarrow> int \<Rightarrow> ('k \<times> logger) option" where
  "log_level_set os k l level = do {
     let l = l\<lparr>lg_level := level\<rparr>;
     k \<leftarrow> log_stderr os k (lo_file os) 114 (ascii ''set log level to '' @ get_log_level_name (lg_level l));
     Some (k, l)
   }"

definition log_loggable :: "logger \<Rightarrow> int \<Rightarrow> int" where
  "log_loggable l level = (if level > lg_level l then 0 else 1)"

section \<open>Hex dumps\<close>

definition HEX_SIZE :: nat where "HEX_SIZE = 8 * LOG_MAX_LEN"

definition sep :: "nat \<Rightarrow> u8 list" where
  "sep i = (if i = 7 then ascii ''  '' else ascii '' '')"

text \<open>\<^verbatim>\<open>isprint\<close> of a negative \<^verbatim>\<open>char\<close> is undefined.\<close>

definition c_isprint :: "u8 \<Rightarrow> bool option" where
  "c_isprint c = (if c < 128 then Some (32 \<le> c \<and> c \<le> 126) else None)"

text \<open>The three inner loops; the first answers the column it stopped at, the third where it stands in the data.\<close>

function hex_loop :: "nat \<Rightarrow> u8 list \<Rightarrow> int \<Rightarrow> u8 list \<Rightarrow> (nat \<times> u8 list) option" where
  "hex_loop i data datalen out =
     (if datalen \<noteq> 0 \<and> i < 16 then
        (case data of [] \<Rightarrow> None
         | c # data \<Rightarrow> do {
             out \<leftarrow> append_text HEX_SIZE out (hex2 c @ sep i);
             hex_loop (i + 1) data (datalen - 1) out
           })
      else Some (i, out))"
  by pat_completeness auto
termination by (relation "measure (\<lambda>(i, data, datalen, out). 16 - i)") auto

function pad_loop :: "nat \<Rightarrow> u8 list \<Rightarrow> u8 list option" where
  "pad_loop i out =
     (if i < 16 then do { out \<leftarrow> append_text HEX_SIZE out (ascii ''  '' @ sep i); pad_loop (i + 1) out }
      else Some out)"
  by pat_completeness auto
termination by (relation "measure (\<lambda>(i, out). 16 - i)") auto

function char_loop :: "nat \<Rightarrow> u8 list \<Rightarrow> int \<Rightarrow> u8 list \<Rightarrow> (u8 list \<times> int \<times> u8 list) option" where
  "char_loop i data datalen out =
     (if datalen \<noteq> 0 \<and> i < 16 then
        (case data of [] \<Rightarrow> None
         | c # data \<Rightarrow> do {
             p \<leftarrow> c_isprint c;
             out \<leftarrow> append_text HEX_SIZE out [if p then c else 46];
             char_loop (i + 1) data (datalen - 1) out
           })
      else Some (data, datalen, out))"
  by pat_completeness auto
termination by (relation "measure (\<lambda>(i, data, datalen, out). 16 - i)") auto

declare hex_loop.simps [simp del] pad_loop.simps [simp del] char_loop.simps [simp del]

lemma append_text_eq:
  assumes "length out < sz" "sz < 2 ^ 31" "length s < 2 ^ 31"
  shows "append_text sz out s = Some (take (sz - 1) (out @ s))"
proof -
  let ?n = "sz - length out"
  have n: "unat (of_nat ?n :: u64) = ?n" using assms(2) by (simp add: unat_of_nat)
  then have "0 < (of_nat ?n :: u64)" "(of_nat ?n :: u64) < 2 ^ 31" using assms(1,2)
    by (simp_all add: word_less_nat_alt)
  moreover have "int (length s) < 2 ^ 31" using assms(3) by simp
  ultimately have e: "ez_snprintf (of_nat ?n) (int (length s)) = min (int (length s)) (int ?n - 1)"
    by (simp add: ez_snprintf_def ez_vsnprintf_spec n del: of_nat_unat)
  have "nat (min (int a) (int b - 1)) = min a (b - 1)" if "0 < b" for a b using that by (auto simp: min_def)
  from this [of ?n "length s"] have "nat (ez_snprintf (of_nat ?n) (int (length s))) = min (length s) (?n - 1)"
    using assms(1) unfolding e by simp
  then have "take (nat (ez_snprintf (of_nat ?n) (int (length s)))) s = take (?n - 1) s" by (simp add: min_def)
  moreover have "?n - 1 = sz - 1 - length out" by simp
  ultimately show ?thesis using assms(1) by (simp add: append_text_def)
qed

text \<open>The buffer holds the beginning of a text that only grows.\<close>

lemma append_text_take:
  assumes "0 < sz" "sz < 2 ^ 31" "length s < 2 ^ 31"
  shows "append_text sz (take (sz - 1) t) s = Some (take (sz - 1) (t @ s))"
proof -
  have "take (sz - 1) (take (sz - 1) t @ s) = take (sz - 1) (t @ s)" by (simp add: min_def)
  moreover have "length (take (sz - 1) t) < sz" using assms(1) by simp
  ultimately show ?thesis using append_text_eq [OF _ assms(2,3)] by metis
qed

lemma append_text_length:
  assumes "append_text sz out s = Some out'"
  shows "length out \<le> length out'"
    and "length out < sz - 1 \<Longrightarrow> s \<noteq> [] \<Longrightarrow> sz < 2 ^ 31 \<Longrightarrow> length s < 2 ^ 31 \<Longrightarrow> length out < length out'"
proof -
  show "length out \<le> length out'" using assms by (auto simp: append_text_def split: if_splits)
  assume a: "length out < sz - 1" "s \<noteq> []" "sz < 2 ^ 31" "length s < 2 ^ 31"
  then have "append_text sz out s = Some (take (sz - 1) (out @ s))" by (intro append_text_eq) simp_all
  with assms a(1,2) show "length out < length out'" by (cases s) (auto simp: min_def)
qed

lemma hex_loop_length: "hex_loop i data datalen out = Some (j, out') \<Longrightarrow> length out \<le> length out'"
proof (induction i data datalen out rule: hex_loop.induct)
  case (1 i data datalen out)
  show ?case
  proof (cases "datalen \<noteq> 0 \<and> i < 16")
    case True
    with "1.prems" obtain c cs x where d: "data = c # cs" "append_text HEX_SIZE out (hex2 c @ sep i) = Some x"
      "hex_loop (i + 1) cs (datalen - 1) x = Some (j, out')"
      by (cases data) (auto simp: hex_loop.simps [of i] split: bind_splits)
    from "1.IH" [OF True d] append_text_length(1) [OF d(2)] show ?thesis by (rule order_trans [rotated])
  qed (use "1.prems" in \<open>auto simp: hex_loop.simps [of i]\<close>)
qed

lemma pad_loop_length: "pad_loop i out = Some out' \<Longrightarrow> length out \<le> length out'"
proof (induction i out rule: pad_loop.induct)
  case (1 i out)
  from "1.prems" show ?case
    by (subst (asm) pad_loop.simps)
      (fastforce split: if_splits bind_splits dest: append_text_length(1) "1.IH" [simplified])
qed

lemma char_loop_length: "char_loop i data datalen out = Some (d, n, out') \<Longrightarrow> length out \<le> length out'"
proof (induction i data datalen out rule: char_loop.induct)
  case (1 i data datalen out)
  show ?case
  proof (cases "datalen \<noteq> 0 \<and> i < 16")
    case True
    with "1.prems" obtain c cs p x where d: "data = c # cs" "c_isprint c = Some p"
      "append_text HEX_SIZE out [if p then c else 46] = Some x" "char_loop (i + 1) cs (datalen - 1) x = Some (d, n, out')"
      by (cases data) (auto simp: char_loop.simps [of i] split: bind_splits)
    from "1.IH" [OF True d] append_text_length(1) [OF d(3)] show ?thesis by (rule order_trans [rotated])
  qed (use "1.prems" in \<open>auto simp: char_loop.simps [of i]\<close>)
qed

text \<open>Every round writes something, so the loop ends when the buffer is full, at the latest.\<close>

function hexdump_loop :: "u8 list \<Rightarrow> int \<Rightarrow> nat \<Rightarrow> u8 list \<Rightarrow> u8 list option" where
  "hexdump_loop data datalen off out =
     (if datalen \<noteq> 0 \<and> length out < HEX_SIZE - 1 then do {
        out \<leftarrow> append_text HEX_SIZE out (hex8 off @ ascii ''  '');
        (i, out) \<leftarrow> hex_loop 0 data datalen out;
        out \<leftarrow> pad_loop i out;
        out \<leftarrow> append_text HEX_SIZE out (ascii ''  |'');
        (data, datalen, out) \<leftarrow> char_loop 0 data datalen out;
        out \<leftarrow> append_text HEX_SIZE out (ascii ''|'' @ [10]);
        hexdump_loop data datalen (off + 16) out
      }
      else Some out)"
  by pat_completeness auto
termination
proof (relation "measure (\<lambda>(data, datalen, off, out). HEX_SIZE - length out)")
  fix data datalen off out out1 p i out2 out3 out4 q d r n out5 out6
  assume "datalen \<noteq> 0 \<and> length out < HEX_SIZE - 1" and a: "append_text HEX_SIZE out (hex8 off @ ascii ''  '') = Some out1"
    "hex_loop 0 data datalen out1 = Some p" "(i, out2) = p" "pad_loop i out2 = Some out3"
    "append_text HEX_SIZE out3 (ascii ''  |'') = Some out4" "char_loop 0 data datalen out4 = Some q" "(d, r) = q"
    "(n, out5) = r" "append_text HEX_SIZE out5 (ascii ''|'' @ [10]) = Some out6"
  then have l: "length out < HEX_SIZE - 1" by simp
  have "length out < length out1"
    by (rule append_text_length(2) [OF a(1) l]) (simp_all add: hex8_def HEX_SIZE_def LOG_MAX_LEN_def ascii_def)
  also have "length out1 \<le> length out2" using hex_loop_length [of 0 data datalen out1 i out2] a(2,3) by simp
  also have "length out2 \<le> length out3" by (rule pad_loop_length [OF a(4)])
  also have "length out3 \<le> length out4" by (rule append_text_length(1) [OF a(5)])
  also have "length out4 \<le> length out5" using char_loop_length [of 0 data datalen out4 d n out5] a(6-8) by simp
  also have "length out5 \<le> length out6" by (rule append_text_length(1) [OF a(9)])
  finally show "((d, n, off + 16, out6), data, datalen, off, out)
      \<in> measure (\<lambda>(data, datalen, off, out). HEX_SIZE - length out)" using l by simp
qed simp

declare hexdump_loop.simps [simp del]

definition log_hexdump_text :: "'k logos \<Rightarrow> 'k \<Rightarrow> logger \<Rightarrow> u8 list \<Rightarrow> int \<Rightarrow> ('k \<times> logger) option" where
  "log_hexdump_text os k l data datalen =
     (if lg_fd l < 0 then Some (k, l)
      else do {
        let save_error_no = lo_errno os k;
        out \<leftarrow> hexdump_loop data datalen 0 [];
        let (k, n) = lo_write os k (lg_fd l) out;
        let l = (if n < 0 then l\<lparr>lg_nerror := lg_nerror l + 1\<rparr> else l);
        Some (lo_set_errno os k save_error_no, l)
      })"

section \<open>The macros\<close>

text \<open>\<open>log_at\<close> is what the macros have in common; \<open>file\<close> and \<open>line\<close> are \<^verbatim>\<open>__FILE__\<close> and \<^verbatim>\<open>__LINE__\<close> or the caller's.\<close>

definition log_at ::
    "int \<Rightarrow> bool \<Rightarrow> 'k logos \<Rightarrow> 'k \<Rightarrow> logger \<Rightarrow> u8 list \<Rightarrow> int \<Rightarrow> u8 list \<Rightarrow> ('k \<times> logger \<times> bool) option" where
  "log_at level panic os k l file line msg =
     (if log_loggable l level \<noteq> 0 then log_core os k l level file line panic msg else Some (k, l, False))"

definition log_debug where "log_debug = log_at LOG_DEBUG False"
definition log_debug_x where "log_debug_x = log_at LOG_DEBUG False"
definition log_info where "log_info = log_at LOG_INFO False"
definition log_info_x where "log_info_x = log_at LOG_INFO False"
definition log_warn where "log_warn = log_at LOG_WARN False"
definition log_warn_x where "log_warn_x = log_at LOG_WARN False"
definition log_error where "log_error = log_at LOG_ERR False"
definition log_error_x where "log_error_x = log_at LOG_ERR False"
definition log_panic where "log_panic = log_at LOG_EMERG True"
definition log_panic_x where "log_panic_x = log_at LOG_EMERG True"

definition log_hexdump ::
    "'k logos \<Rightarrow> 'k \<Rightarrow> logger \<Rightarrow> int \<Rightarrow> u8 list \<Rightarrow> int \<Rightarrow> u8 list \<Rightarrow> int \<Rightarrow> u8 list \<Rightarrow> ('k \<times> logger) option" where
  "log_hexdump os k l level data datalen file line msg =
     (if log_loggable l level \<noteq> 0 then do {
        (k, l, ab) \<leftarrow> log_core os k l level file line False msg;
        log_hexdump_text os k l data datalen
      }
      else Some (k, l))"

section \<open>What a hex dump shows\<close>

definition cell :: "nat \<Rightarrow> u8 list \<Rightarrow> u8 list" where
  "cell i ds = (if i < length ds then hex2 (ds ! i) else ascii ''  '') @ sep i"

definition printable :: "u8 \<Rightarrow> u8" where
  "printable c = (if 32 \<le> c \<and> c \<le> 126 then c else 46)"

definition hex_row :: "nat \<Rightarrow> u8 list \<Rightarrow> u8 list" where
  "hex_row off ds = hex8 off @ ascii ''  '' @ concat (map (\<lambda>i. cell i ds) [0..<16]) @ ascii ''  |''
     @ map printable ds @ ascii ''|'' @ [10]"

function hex_rows :: "nat \<Rightarrow> u8 list \<Rightarrow> u8 list" where
  "hex_rows off ds = (if ds = [] then [] else hex_row off (take 16 ds) @ hex_rows (off + 16) (drop 16 ds))"
  by pat_completeness auto
termination by (relation "measure (\<lambda>(off, ds). length ds)") auto

declare hex_rows.simps [simp del]

definition cut :: "u8 list \<Rightarrow> u8 list" where
  "cut t = take (HEX_SIZE - 1) t"

lemma append_cut: "length s < 2 ^ 31 \<Longrightarrow> append_text HEX_SIZE (cut t) s = Some (cut (t @ s))"
  unfolding cut_def by (rule append_text_take) (simp_all add: HEX_SIZE_def LOG_MAX_LEN_def)

lemma cut_full: "\<not> length (cut t) < HEX_SIZE - 1 \<Longrightarrow> cut (t @ s) = cut t"
  by (simp add: cut_def)

lemma short_pieces [simp]:
  "length (hex8 n) = 8" "length (hex2 c) = 2" "length (ascii s) = length s" "length (sep i) \<le> 2"
  by (simp_all add: hex8_def hex2_def ascii_def sep_def)

lemma sep_short: "length (sep i) < 2147483646"
  by (rule le_less_trans [OF short_pieces(4)]) simp

lemma hex_loop_spec:
  "i \<le> 16 \<Longrightarrow> n \<le> length data \<Longrightarrow> hex_loop i data (int n) (cut t) =
     Some (min 16 (i + n), cut (t @ concat (map (\<lambda>j. hex2 (data ! (j - i)) @ sep j) [i..<min 16 (i + n)])))"
proof (induction "16 - i" arbitrary: i n data t)
  case 0
  then show ?case by (simp add: hex_loop.simps)
next
  case (Suc m)
  then have i: "i < 16" by simp
  show ?case
  proof (cases n)
    case 0
    with i show ?thesis by (simp add: hex_loop.simps)
  next
    case (Suc n')
    with Suc.prems obtain c cs where d: "data = c # cs" "n' \<le> length cs" by (cases data) auto
    have a: "append_text HEX_SIZE (cut t) (hex2 c @ sep i) = Some (cut (t @ hex2 c @ sep i))"
      using sep_short [of i] by (intro append_cut) simp
    define K where "K = min 16 (Suc i + n')"
    have IH: "hex_loop (Suc i) cs (int n') (cut (t @ hex2 c @ sep i)) =
        Some (K, cut ((t @ hex2 c @ sep i) @ concat (map (\<lambda>j. hex2 (cs ! (j - Suc i)) @ sep j) [Suc i..<K])))"
      unfolding K_def by (rule Suc.hyps(1)) (use Suc.hyps(2) i d(2) in simp_all)
    have k: "min 16 (i + n) = K" "i < K" using i by (simp_all add: Suc K_def)
    have e: "map (\<lambda>j. hex2 (cs ! (j - Suc i)) @ sep j) [Suc i..<K] = map (\<lambda>j. hex2 (data ! (j - i)) @ sep j) [Suc i..<K]"
      by (rule map_cong) (auto simp: d(1) nth_Cons' Suc_diff_Suc)
    have "(t @ hex2 c @ sep i) @ concat (map (\<lambda>j. hex2 (cs ! (j - Suc i)) @ sep j) [Suc i..<K])
        = t @ concat (map (\<lambda>j. hex2 (data ! (j - i)) @ sep j) [i..<K])"
      unfolding e upt_conv_Cons [OF k(2)] by (simp add: d(1))
    with IH show ?thesis unfolding k(1) using i by (simp add: hex_loop.simps [of i] a d(1) Suc)
  qed
qed

lemma pad_loop_spec:
  "i \<le> 16 \<Longrightarrow> pad_loop i (cut t) = Some (cut (t @ concat (map (\<lambda>j. ascii ''  '' @ sep j) [i..<16])))"
proof (induction "16 - i" arbitrary: i t)
  case 0
  then show ?case by (simp add: pad_loop.simps)
next
  case (Suc m)
  then have i: "i < 16" by simp
  have "append_text HEX_SIZE (cut t) (ascii ''  '' @ sep i) = Some (cut (t @ ascii ''  '' @ sep i))"
    using sep_short [of i] by (intro append_cut) simp
  moreover have "pad_loop (Suc i) (cut (t @ ascii ''  '' @ sep i))
      = Some (cut ((t @ ascii ''  '' @ sep i) @ concat (map (\<lambda>j. ascii ''  '' @ sep j) [Suc i..<16])))"
    by (rule Suc.hyps(1)) (use Suc.hyps(2) i in simp_all)
  ultimately show ?case using i by (simp add: pad_loop.simps [of i] upt_conv_Cons)
qed

lemma char_loop_spec:
  "i \<le> 16 \<Longrightarrow> n \<le> length data \<Longrightarrow> \<forall>c \<in> set (take n data). c < 128 \<Longrightarrow> m = min (16 - i) n \<Longrightarrow>
     char_loop i data (int n) (cut t) = Some (drop m data, int (n - m), cut (t @ map printable (take m data)))"
proof (induction "16 - i" arbitrary: i n data t m)
  case 0
  then show ?case by (subst char_loop.simps) simp
next
  case (Suc q)
  then have i: "i < 16" by simp
  show ?case
  proof (cases n)
    case 0
    with i Suc.prems(4) show ?thesis by (subst char_loop.simps) simp
  next
    case (Suc n')
    with Suc.prems obtain c cs where d: "data = c # cs" "n' \<le> length cs" by (cases data) auto
    have c: "c_isprint c = Some (32 \<le> c \<and> c \<le> 126)" using Suc.prems(3) by (simp add: d(1) Suc c_isprint_def)
    have a: "append_text HEX_SIZE (cut t) [if 32 \<le> c \<and> c \<le> 126 then c else 46] = Some (cut (t @ [printable c]))"
      unfolding printable_def by (rule append_cut) simp
    have IH: "char_loop (Suc i) cs (int n') (cut (t @ [printable c])) = Some (drop (min (16 - Suc i) n') cs,
        int (n' - min (16 - Suc i) n'), cut ((t @ [printable c]) @ map printable (take (min (16 - Suc i) n') cs)))"
    proof (rule Suc.hyps(1))
      show "q = 16 - Suc i" using Suc.hyps(2) by simp
      show "\<forall>c \<in> set (take n' cs). c < 128" using Suc.prems(3) by (simp add: d(1) Suc)
    qed (use i d(2) in simp_all)
    have m: "m = Suc (min (16 - Suc i) n')" using Suc.prems(4) i Suc by simp
    show ?thesis using i IH by (subst char_loop.simps) (simp add: d(1) Suc c a m del: if_split)
  qed
qed

lemma hexdump_loop_spec:
  "n \<le> length data \<Longrightarrow> \<forall>c \<in> set (take n data). c < 128 \<Longrightarrow>
     hexdump_loop data (int n) off (cut t) = Some (cut (t @ hex_rows off (take n data)))"
proof (induction n arbitrary: data off t rule: less_induct)
  case (less n)
  let ?ds = "take n data"
  show ?case
  proof (cases "n = 0 \<or> \<not> length (cut t) < HEX_SIZE - 1")
    case True
    then have "hexdump_loop data (int n) off (cut t) = Some (cut t)" by (subst hexdump_loop.simps) auto
    moreover have "cut (t @ hex_rows off ?ds) = cut t" using True cut_full [of t] by (auto simp: hex_rows.simps [of off "[]"])
    ultimately show ?thesis by simp
  next
    case False
    define m where "m = min 16 n"
    have rest: "take (n - m) (drop m data) = drop m ?ds" by (simp add: drop_take)
    then have ascii7: "\<forall>c \<in> set (take (n - m) (drop m data)). c < 128"
      using less.prems(2) set_drop_subset [of m ?ds] by auto
    let ?t1 = "t @ hex8 off @ ascii ''  ''"
    let ?t2 = "?t1 @ concat (map (\<lambda>j. hex2 (data ! j) @ sep j) [0..<m])"
    let ?t3 = "?t2 @ concat (map (\<lambda>j. ascii ''  '' @ sep j) [m..<16])"
    let ?t4 = "?t3 @ ascii ''  |''"
    let ?t5 = "?t4 @ map printable (take m data)"
    let ?t6 = "?t5 @ ascii ''|'' @ [10]"
    have "append_text HEX_SIZE (cut t) (hex8 off @ ascii ''  '') = Some (cut ?t1)" by (rule append_cut) simp
    moreover have "hex_loop 0 data (int n) (cut ?t1) = Some (m, cut ?t2)"
      using hex_loop_spec [of 0 n data ?t1] less.prems(1) by (simp add: m_def)
    moreover have "pad_loop m (cut ?t2) = Some (cut ?t3)" by (rule pad_loop_spec) (simp add: m_def)
    moreover have "append_text HEX_SIZE (cut ?t3) (ascii ''  |'') = Some (cut ?t4)" by (rule append_cut) simp
    moreover have "char_loop 0 data (int n) (cut ?t4) = Some (drop m data, int (n - m), cut ?t5)"
      by (rule char_loop_spec) (use less.prems in \<open>simp_all add: m_def\<close>)
    moreover have "append_text HEX_SIZE (cut ?t5) (ascii ''|'' @ [10]) = Some (cut ?t6)" by (rule append_cut) simp
    moreover have "hexdump_loop (drop m data) (int (n - m)) (off + 16) (cut ?t6)
        = Some (cut (?t6 @ hex_rows (off + 16) (take (n - m) (drop m data))))"
      by (rule less.IH) (use False less.prems ascii7 in \<open>auto simp: m_def\<close>)
    ultimately have r: "hexdump_loop data (int n) off (cut t)
        = Some (cut (?t6 @ hex_rows (off + 16) (take (n - m) (drop m data))))"
      using False by (simp add: hexdump_loop.simps [of data])
    have m: "m \<le> 16" "m \<le> length data" "length (take 16 ?ds) = m" "take 16 ?ds = take m data"
      using less.prems(1) by (simp_all add: m_def min_def)
    have "[0..<16] = [0..<m] @ [m..<16]" using m(1) by (metis upt_add_eq_append le_add_diff_inverse zero_le)
    then have "concat (map (\<lambda>i. cell i (take 16 ?ds)) [0..<16])
        = concat (map (\<lambda>i. cell i (take 16 ?ds)) [0..<m]) @ concat (map (\<lambda>i. cell i (take 16 ?ds)) [m..<16])"
      by simp
    also have "map (\<lambda>i. cell i (take 16 ?ds)) [0..<m] = map (\<lambda>j. hex2 (data ! j) @ sep j) [0..<m]"
      unfolding m(4) by (rule map_cong) (use m(2) in \<open>simp_all add: cell_def\<close>)
    also have "map (\<lambda>i. cell i (take 16 ?ds)) [m..<16] = map (\<lambda>j. ascii ''  '' @ sep j) [m..<16]"
      by (rule map_cong) (use m(3) in \<open>auto simp: cell_def simp del: length_take\<close>)
    finally have "hex_row off (take 16 ?ds) = hex8 off @ ascii ''  '' @ concat (map (\<lambda>j. hex2 (data ! j) @ sep j) [0..<m])
        @ concat (map (\<lambda>j. ascii ''  '' @ sep j) [m..<16]) @ ascii ''  |'' @ map printable (take m data) @ ascii ''|'' @ [10]"
      unfolding hex_row_def by (simp only: m(4) append_assoc)
    moreover have "drop 16 ?ds = take (n - m) (drop m data)"
      by (cases "n \<le> 16") (simp_all add: m_def drop_take)
    moreover have "?ds \<noteq> []" using False less.prems(1) by auto
    ultimately have "t @ hex_rows off ?ds = ?t6 @ hex_rows (off + 16) (take (n - m) (drop m data))"
      by (simp add: hex_rows.simps [of off ?ds])
    with r show ?thesis by simp
  qed
qed

section \<open>Log lines\<close>

lemma two_pieces:
  assumes "0 < sz" "sz < 2 ^ 31" "length h < 2 ^ 31" "length msg < 2 ^ 31"
  shows "do { out \<leftarrow> append_text sz [] h; out \<leftarrow> append_text sz out msg; put_newline sz out }
    = Some (take (sz - 1) (h @ msg) @ [10])"
proof -
  have "append_text sz [] h = Some (take (sz - 1) h)" using append_text_take [OF assms(1,2,3), of "[]"] by simp
  moreover have "append_text sz (take (sz - 1) h) msg = Some (take (sz - 1) (h @ msg))"
    by (rule append_text_take [OF assms(1,2,4)])
  moreover have "put_newline sz (take (sz - 1) (h @ msg)) = Some (take (sz - 1) (h @ msg) @ [10])"
    using assms(1) by (simp add: put_newline_def)
  ultimately show ?thesis by simp
qed

lemma log_core_spec:
  assumes "0 \<le> lg_fd l" "lo_gettimeofday os k = (k1, sec, usec)" "length msg < 2 ^ 31"
    and "hdr = log_header (lo_localtime os sec) usec level file line" "length hdr < 2 ^ 31"
    and "lo_write os k1 (lg_fd l) (take 255 (hdr @ msg) @ [10]) = (k2, n)"
  shows "log_core os k l level file line panic msg = Some (lo_set_errno os k2 (lo_errno os k),
    if n < 0 then l\<lparr>lg_nerror := lg_nerror l + 1\<rparr> else l, panic)"
proof -
  define out where "out = take 255 (hdr @ msg) @ [10]"
  have "do { out \<leftarrow> append_text LOG_MAX_LEN [] hdr; out \<leftarrow> append_text LOG_MAX_LEN out msg; put_newline LOG_MAX_LEN out } = Some out"
    using two_pieces [of LOG_MAX_LEN, OF _ _ assms(5,3)] by (simp add: LOG_MAX_LEN_def out_def)
  then obtain o1 o2 where "append_text LOG_MAX_LEN [] hdr = Some o1" "append_text LOG_MAX_LEN o1 msg = Some o2"
    "put_newline LOG_MAX_LEN o2 = Some out" by (auto split: bind_splits)
  moreover have "lo_write os k1 (lg_fd l) out = (k2, n)" unfolding out_def by (rule assms(6))
  ultimately show ?thesis using assms(1) by (simp add: log_core_def assms(2) assms(4) [symmetric])
qed

lemma log_stderr_spec:
  assumes "length file + 22 < 2 ^ 31" "length (int_text line) \<le> 20" "length msg < 2 ^ 31"
  shows "log_stderr os k file line msg = Some (fst (lo_write os k STDERR_FILENO
    (take 1023 ((file @ ascii '':'' @ int_text line @ ascii '' '') @ msg) @ [10])))"
proof -
  define h where "h = file @ ascii '':'' @ int_text line @ ascii '' ''"
  have "length h < 2 ^ 31" using assms(1,2) by (simp add: h_def)
  then have line: "log_stderr_line file line msg = Some (take (4 * LOG_MAX_LEN - 1) (h @ msg) @ [10])"
    unfolding log_stderr_line_def h_def [symmetric] by (intro two_pieces) (use assms(3) in \<open>simp_all add: LOG_MAX_LEN_def\<close>)
  have size: "4 * LOG_MAX_LEN - 1 = 1023" by (simp add: LOG_MAX_LEN_def)
  show ?thesis unfolding log_stderr_def h_def [symmetric] line [unfolded size] by simp
qed

section \<open>The log file\<close>

text \<open>\<open>fds\<close> are the open descriptors; 0, 1 and 2 are in use, so a file gets a descriptor above them.\<close>

definition file_layer :: "'k logos \<Rightarrow> ('k \<Rightarrow> int set) \<Rightarrow> bool" where
  "file_layer os fds \<longleftrightarrow>
     (\<forall>k f k' fd. lo_open os k f = (k', fd) \<longrightarrow> fd = - 1 \<and> fds k' = fds k \<or> 2 < fd \<and> fd \<notin> fds k \<and> fds k' = insert fd (fds k)) \<and>
     (\<forall>k fd. fds (lo_close os k fd) = fds k - {fd}) \<and>
     (\<forall>k fd bs. fds (fst (lo_write os k fd bs)) = fds k)"

definition messages_fit :: "'k logos \<Rightarrow> logger \<Rightarrow> bool" where
  "messages_fit os l \<longleftrightarrow> length (lo_file os) + 22 < 2 ^ 31 \<and> (\<forall>e. length (lo_strerror os e) < 2 ^ 20)
     \<and> (\<forall>f. lg_name l = Some f \<longrightarrow> length f < 2 ^ 20)"

text \<open>The logger holds at most one file: \<open>base\<close> are the descriptors that were open before it was initialised.\<close>

definition holds_file :: "int set \<Rightarrow> int set \<Rightarrow> logger \<Rightarrow> bool" where
  "holds_file base now l \<longleftrightarrow>
     (lg_fd l = - 1 \<or> lg_fd l = STDERR_FILENO) \<and> now = base
     \<or> 2 < lg_fd l \<and> lg_fd l \<notin> base \<and> now = insert (lg_fd l) base"

lemma int_text_lines: "length (int_text 54) \<le> 20" "length (int_text 84) \<le> 20"
  by code_simp+

lemma file_layerD:
  assumes "file_layer os fds"
  shows "lo_open os k f = (k', fd) \<Longrightarrow> fd = - 1 \<and> fds k' = fds k \<or> 2 < fd \<and> fd \<notin> fds k \<and> fds k' = insert fd (fds k)"
    and "fds (lo_close os k fd) = fds k - {fd}" and "fds (fst (lo_write os k fd bs)) = fds k"
  subgoal using assms unfolding file_layer_def by (elim conjE) blast
  subgoal using assms unfolding file_layer_def by (elim conjE) simp
  subgoal using assms unfolding file_layer_def by (elim conjE) simp
  done

lemma log_init_holds:
  assumes "file_layer os fds" "messages_fit os (l\<lparr>lg_name := name\<rparr>)"
  shows "\<exists>k' l' r. log_init os k l level name = Some (k', l', r) \<and> holds_file (fds k) (fds k') l'
    \<and> lg_name l' = name \<and> lg_level l' = level \<and> (r = - 1 \<longleftrightarrow> lg_fd l' = - 1)"
proof (cases "name = None \<or> name = Some []")
  case True
  then show ?thesis by (auto simp: log_init_def holds_file_def STDERR_FILENO_def)
next
  case False
  then obtain f where f: "name = Some f" "f \<noteq> []" by (cases name) auto
  obtain k1 fd where o: "lo_open os k f = (k1, fd)" by (rule prod.exhaust)
  note eff = file_layerD(1) [OF assms(1) o]
  show ?thesis
  proof (cases "fd < 0")
    case True
    let ?msg = "ascii ''opening log file '' @ [39] @ f @ [39] @ ascii '' failed: '' @ lo_strerror os (lo_errno os k1)"
    have fits: "length (lo_file os) + 22 < 2 ^ 31" "length f < 2 ^ 20" "length (lo_strerror os (lo_errno os k1)) < 2 ^ 20"
      using assms(2) f(1) by (simp_all add: messages_fit_def)
    have "\<exists>k2. log_stderr os k1 (lo_file os) 54 ?msg = Some k2 \<and> fds k2 = fds k1"
      using log_stderr_spec [OF fits(1) int_text_lines(1), of ?msg os k1] fits(2,3)
      by (simp add: file_layerD(3) [OF assms(1)])
    then obtain k2 where "log_stderr os k1 (lo_file os) 54 ?msg = Some k2" "fds k2 = fds k1" by blast
    with True eff f show ?thesis by (simp add: log_init_def o holds_file_def)
  next
    case False
    with eff f show ?thesis by (auto simp: log_init_def o holds_file_def)
  qed
qed

lemma log_reopen_holds:
  assumes "file_layer os fds" "messages_fit os l" "holds_file base (fds k) l" "{0, 1, 2} \<subseteq> base"
  shows "\<exists>k' l'. log_reopen os k l = Some (k', l') \<and> holds_file base (fds k') l' \<and> lg_name l' = lg_name l
    \<and> lg_level l' = lg_level l"
proof -
  define k0 where "k0 = (if lg_fd l \<noteq> - 1 \<and> lg_fd l > STDERR_FILENO then lo_close os k (lg_fd l) else k)"
  have k0: "fds k0 = base"
    using assms(3) by (auto simp: k0_def holds_file_def STDERR_FILENO_def file_layerD(2) [OF assms(1)])
  show ?thesis
  proof (cases "lg_name l = None \<or> lg_name l = Some []")
    case True
    then show ?thesis using k0 by (auto simp: log_reopen_def k0_def [symmetric] holds_file_def)
  next
    case False
    then obtain f where f: "lg_name l = Some f" "f \<noteq> []" by (cases "lg_name l") auto
    obtain k1 fd where o: "lo_open os k0 f = (k1, fd)" by (rule prod.exhaust)
    note eff = file_layerD(1) [OF assms(1) o]
    show ?thesis
    proof (cases "fd < 0")
      case True
      let ?msg = "ascii ''reopening log file '' @ [39] @ f @ [39] @ ascii '' failed, ignored: '' @ lo_strerror os (lo_errno os k1)"
      have fits: "length (lo_file os) + 22 < 2 ^ 31" "length f < 2 ^ 20" "length (lo_strerror os (lo_errno os k1)) < 2 ^ 20"
        using assms(2) f(1) by (simp_all add: messages_fit_def)
      have "\<exists>k2. log_stderr os k1 (lo_file os) 84 ?msg = Some k2 \<and> fds k2 = fds k1"
        using log_stderr_spec [OF fits(1) int_text_lines(2), of ?msg os k1] fits(2,3)
        by (simp add: file_layerD(3) [OF assms(1)])
      then obtain k2 where "log_stderr os k1 (lo_file os) 84 ?msg = Some k2" "fds k2 = fds k1" by blast
      with True eff f k0 show ?thesis by (simp add: log_reopen_def k0_def [symmetric] o holds_file_def)
    next
      case False
      with eff f k0 show ?thesis by (auto simp: log_reopen_def k0_def [symmetric] o holds_file_def)
    qed
  qed
qed

primrec reopens :: "'k logos \<Rightarrow> nat \<Rightarrow> 'k \<Rightarrow> logger \<Rightarrow> ('k \<times> logger) option" where
  "reopens os 0 k l = Some (k, l)"
| "reopens os (Suc n) k l = do { (k, l) \<leftarrow> log_reopen os k l; reopens os n k l }"

lemma reopens_holds:
  assumes "file_layer os fds" "{0, 1, 2} \<subseteq> base"
  shows "messages_fit os l \<Longrightarrow> holds_file base (fds k) l \<Longrightarrow>
    \<exists>k' l'. reopens os n k l = Some (k', l') \<and> holds_file base (fds k') l'"
proof (induction n arbitrary: k l)
  case (Suc n)
  from log_reopen_holds [OF assms(1) Suc.prems assms(2)] obtain k1 l1 where
    r: "log_reopen os k l = Some (k1, l1)" "holds_file base (fds k1) l1" "lg_name l1 = lg_name l" by blast
  with Suc.prems(1) have "messages_fit os l1" by (simp add: messages_fit_def)
  from Suc.IH [OF this r(2)] r(1) show ?case by simp
qed simp

lemma log_release_closes:
  assumes "file_layer os fds" "holds_file base (fds k) l"
  shows "fds (fst (log_release os k l)) - {- 1} = base - {- 1}"
  using assms(2) by (auto simp: log_release_def holds_file_def STDERR_FILENO_def file_layerD(2) [OF assms(1)])

section \<open>Levels\<close>

datatype level_change = Up | Down | Set_to int

definition change_level :: "'k logos \<Rightarrow> level_change \<Rightarrow> 'k \<Rightarrow> logger \<Rightarrow> ('k \<times> logger) option" where
  "change_level os c k l = (case c of Up \<Rightarrow> log_level_up os k l | Down \<Rightarrow> log_level_down os k l
     | Set_to n \<Rightarrow> log_level_set os k l n)"

primrec change_levels :: "'k logos \<Rightarrow> level_change list \<Rightarrow> 'k \<Rightarrow> logger \<Rightarrow> ('k \<times> logger) option" where
  "change_levels os [] k l = Some (k, l)"
| "change_levels os (c # cs) k l = do { (k, l) \<leftarrow> change_level os c k l; change_levels os cs k l }"

definition is_level :: "int \<Rightarrow> bool" where
  "is_level n \<longleftrightarrow> LOG_EMERG \<le> n \<and> n \<le> LOG_DEBUG"

text \<open>The next level, with saturation at both ends.\<close>

definition next_level :: "level_change \<Rightarrow> int \<Rightarrow> int" where
  "next_level c n = (case c of Up \<Rightarrow> min LOG_DEBUG (n + 1) | Down \<Rightarrow> max LOG_EMERG (n - 1) | Set_to m \<Rightarrow> m)"

lemma level_lines: "length (int_text 95) \<le> 20" "length (int_text 105) \<le> 20" "length (int_text 114) \<le> 20"
  by code_simp+

lemma level_name_short: "length (get_log_level_name n) \<le> 5"
proof (cases "n < LOG_EMERG \<or> n > LOG_DEBUG")
  case False
  then have "nat n = 0 \<or> nat n = 1 \<or> nat n = 2 \<or> nat n = 3 \<or> nat n = 4 \<or> nat n = 5"
    by (auto simp: LOG_EMERG_def LOG_DEBUG_def)
  with False show ?thesis by (auto simp: get_log_level_name_def LOG_LEVEL_INFO_def)
qed (simp add: get_log_level_name_def)

lemma change_level_spec:
  assumes "length (lo_file os) + 22 < 2 ^ 31" "is_level (lg_level l)"
  shows "\<exists>k'. change_level os c k l = Some (k', l\<lparr>lg_level := next_level c (lg_level l)\<rparr>)"
proof -
  have out: "\<exists>k'. log_stderr os k (lo_file os) line (msg @ get_log_level_name n) = Some k'"
    if "length (int_text line) \<le> 20" "length msg \<le> 20" for line msg n
    using log_stderr_spec [OF assms(1) that(1), of "msg @ get_log_level_name n" os k] level_name_short [of n] that(2) by simp
  have same: "l\<lparr>lg_level := lg_level l\<rparr> = l" by simp
  show ?thesis
  proof (cases c)
    case Up
    with same assms(2) out [OF level_lines(1), of "ascii ''up log level to ''" "lg_level l + 1"] show ?thesis
      by (auto simp: change_level_def log_level_up_def next_level_def is_level_def)
  next
    case Down
    with same assms(2) out [OF level_lines(2), of "ascii ''down log level to ''" "lg_level l - 1"] show ?thesis
      by (auto simp: change_level_def log_level_down_def next_level_def is_level_def)
  next
    case (Set_to n)
    with out [OF level_lines(3), of "ascii ''set log level to ''" n] show ?thesis
      by (auto simp: change_level_def log_level_set_def next_level_def)
  qed
qed

section \<open>Properties\<close>

text \<open>
  C27: what the logging macros do: nothing when the level is above the logger's or there is no log file (even
  \<^verbatim>\<open>log_panic\<close> returns then), else they write exactly one line of at most 256 bytes, the header and the message cut off
  at 255 and a line break, inside the buffer; \<^verbatim>\<open>errno\<close> is as before, a failed write is counted, and only the panic
  macros end the program.
\<close>

theorem log_line_correct:
  assumes "(macro, level, panic) \<in> {(log_debug, LOG_DEBUG, False), (log_debug_x, LOG_DEBUG, False),
      (log_info, LOG_INFO, False), (log_info_x, LOG_INFO, False), (log_warn, LOG_WARN, False), (log_warn_x, LOG_WARN, False),
      (log_error, LOG_ERR, False), (log_error_x, LOG_ERR, False), (log_panic, LOG_EMERG, True), (log_panic_x, LOG_EMERG, True)}"
    and "lo_gettimeofday os k = (k1, sec, usec)" "length msg < 2 ^ 31"
    and "hdr = log_header (lo_localtime os sec) usec level file line" "length hdr < 2 ^ 31"
    and "text = take 255 (hdr @ msg) @ [10]" "lo_write os k1 (lg_fd l) text = (k2, n)"
  shows "macro os k l file line msg = Some (if level \<le> lg_level l \<and> 0 \<le> lg_fd l
      then (lo_set_errno os k2 (lo_errno os k), if n < 0 then l\<lparr>lg_nerror := lg_nerror l + 1\<rparr> else l, panic) else (k, l, False))
    \<and> length text \<le> 256"
proof -
  have "macro os k l file line msg = log_at level panic os k l file line msg"
    using assms(1) by (auto simp: log_debug_def log_debug_x_def log_info_def log_info_x_def log_warn_def log_warn_x_def
      log_error_def log_error_x_def log_panic_def log_panic_x_def)
  also have "log_at level panic os k l file line msg = Some (if level \<le> lg_level l \<and> 0 \<le> lg_fd l
      then (lo_set_errno os k2 (lo_errno os k), if n < 0 then l\<lparr>lg_nerror := lg_nerror l + 1\<rparr> else l, panic) else (k, l, False))"
  proof (cases "0 \<le> lg_fd l")
    case True
    from log_core_spec [OF True assms(2-5) assms(7) [unfolded assms(6)], of panic] True show ?thesis
      by (simp add: log_at_def log_loggable_def)
  next
    case False
    then show ?thesis by (simp add: log_at_def log_core_def)
  qed
  finally show ?thesis by (simp add: assms(6))
qed

text \<open>A system whose state is the text written last.\<close>

definition demo_logos :: "u8 list logos" where
  "demo_logos = \<lparr>lo_open = (\<lambda>k f. (k, - 1)), lo_close = (\<lambda>k fd. k), lo_write = (\<lambda>k fd bs. (bs, int (length bs))),
     lo_gettimeofday = (\<lambda>k. (k, 0, 7000)),
     lo_localtime = (\<lambda>t. \<lparr>tm_year = 121, tm_mon = 0, tm_mday = 23, tm_hour = 12, tm_min = 30, tm_sec = 5\<rparr>),
     lo_errno = (\<lambda>k. 0), lo_set_errno = (\<lambda>k e. k), lo_strerror = (\<lambda>e. []), lo_file = []\<rparr>"

definition demo_logger :: logger where
  "demo_logger = \<lparr>lg_name = None, lg_fd = 2, lg_level = LOG_INFO, lg_nerror = 0\<rparr>"

theorem log_line_correct_witness:
  "log_warn demo_logos [] demo_logger (ascii ''a.c'') 7 (ascii ''hello'')
     = Some (ascii ''2021-01-23 12:30:05,007 [  WARN] a.c:7 hello'' @ [10], demo_logger, False)"
proof -
  let ?lt = "\<lparr>tm_year = 121, tm_mon = 0, tm_mday = 23, tm_hour = 12, tm_min = 30, tm_sec = 5\<rparr>"
  have h: "ascii ''2021-01-23 12:30:05,007 [  WARN] a.c:7 '' = log_header ?lt 7000 LOG_WARN (ascii ''a.c'') 7"
    by code_simp
  have t: "ascii ''2021-01-23 12:30:05,007 [  WARN] a.c:7 hello'' @ [10]
      = take 255 (ascii ''2021-01-23 12:30:05,007 [  WARN] a.c:7 '' @ ascii ''hello'') @ [10]" by code_simp
  have lt: "lo_localtime demo_logos 0 = ?lt" by (simp add: demo_logos_def)
  have w: "lo_write demo_logos [] (lg_fd demo_logger) t = (t, int (length t))" for t by (simp add: demo_logos_def)
  have g: "lo_gettimeofday demo_logos [] = ([], 0, 7000)" by (simp add: demo_logos_def)
  have "LOG_WARN \<le> lg_level demo_logger \<and> 0 \<le> lg_fd demo_logger" by (simp add: demo_logger_def LOG_WARN_def LOG_INFO_def)
  moreover have "lo_set_errno demo_logos k e = k" for k e by (simp add: demo_logos_def)
  ultimately show ?thesis
    using log_line_correct [of log_warn LOG_WARN False, OF _ g _ h [folded lt] _ t w] by simp
qed

text \<open>
  C15: a hex dump of text is the canonical dump, offset, sixteen columns, and the characters with a dot for those that
  do not print, row by row, cut off at 2047 characters; the loops end, stay inside the buffer and read only the given
  bytes. For a byte above 127 the call of \<^verbatim>\<open>isprint\<close> is undefined.
\<close>

theorem log_hexdump_correct:
  assumes "0 \<le> lg_fd l" "n \<le> length data" "\<forall>c \<in> set (take n data). c < 128"
    and "lo_write os k (lg_fd l) (take 2047 (hex_rows 0 (take n data))) = (k1, r)"
  shows "log_hexdump_text os k l data (int n) = Some (lo_set_errno os k1 (lo_errno os k),
    if r < 0 then l\<lparr>lg_nerror := lg_nerror l + 1\<rparr> else l)"
proof -
  have "hexdump_loop data (int n) 0 [] = Some (take 2047 (hex_rows 0 (take n data)))"
    using hexdump_loop_spec [OF assms(2,3), of 0 "[]"] by (simp add: cut_def HEX_SIZE_def LOG_MAX_LEN_def)
  with assms(1,4) show ?thesis by (simp add: log_hexdump_text_def)
qed

theorem log_hexdump_correct_witness:
  "log_hexdump_text demo_logos [] demo_logger (ascii ''GET /'' @ [13, 10]) 7
     = Some (ascii ''00000000  47 45 54 20 2f 0d 0a                               |GET /..|'' @ [10], demo_logger)"
proof -
  have t: "take 2047 (hex_rows 0 (take 7 (ascii ''GET /'' @ [13, 10])))
      = ascii ''00000000  47 45 54 20 2f 0d 0a                               |GET /..|'' @ [10]"
    by (simp add: hex_rows.simps hex_row_def hex8_def hex2_def hex_digit_def cell_def sep_def ascii_def printable_def
        upt_conv_Cons)
  have w: "lo_write demo_logos [] (lg_fd demo_logger) (take 2047 (hex_rows 0 (take 7 (ascii ''GET /'' @ [13, 10]))))
      = (ascii ''00000000  47 45 54 20 2f 0d 0a                               |GET /..|'' @ [10], 71)"
    unfolding t by (simp add: demo_logos_def)
  have a: "0 \<le> lg_fd demo_logger" "7 \<le> length (ascii ''GET /'' @ [13, 10])"
    "\<forall>c \<in> set (take 7 (ascii ''GET /'' @ [13, 10])). c < 128" by (simp_all add: demo_logger_def) code_simp
  have "lo_set_errno demo_logos k e = k" for k e by (simp add: demo_logos_def)
  then show ?thesis using log_hexdump_correct [OF a w] by simp
qed

text \<open>
  C36: any sequence of level changes (with valid levels) succeeds and keeps the level one of the six, each change with
  the expected result and saturation at both ends; a level is logged exactly when it is not above the logger's.
\<close>

theorem log_levels_typed:
  assumes "length (lo_file os) + 22 < 2 ^ 31" "is_level (lg_level l)" "\<forall>n. Set_to n \<in> set cs \<longrightarrow> is_level n"
  shows "\<exists>k' l'. change_levels os cs k l = Some (k', l') \<and> is_level (lg_level l')
    \<and> lg_level l' = fold next_level cs (lg_level l) \<and> lg_fd l' = lg_fd l
    \<and> (\<forall>m. log_loggable l' m = (if m \<le> lg_level l' then 1 else 0))"
  using assms(2,3)
proof (induction cs arbitrary: k l)
  case (Cons c cs)
  obtain k1 where c: "change_level os c k l = Some (k1, l\<lparr>lg_level := next_level c (lg_level l)\<rparr>)"
    using change_level_spec [OF assms(1) Cons.prems(1)] by blast
  have "is_level (next_level c (lg_level l))"
    using Cons.prems by (cases c) (auto simp: next_level_def is_level_def LOG_EMERG_def LOG_DEBUG_def)
  with Cons.IH [of "l\<lparr>lg_level := next_level c (lg_level l)\<rparr>" k1] Cons.prems(2) c show ?case by simp
qed (auto simp: log_loggable_def)

theorem log_levels_typed_witness:
  "\<exists>k l. change_levels demo_logos [Up, Up, Down, Set_to 1, Down, Down] [] demo_logger = Some (k, l) \<and> lg_level l = 0"
proof -
  have f: "length (lo_file demo_logos) + 22 < 2 ^ 31" by (simp add: demo_logos_def)
  have i: "is_level (lg_level demo_logger)" by (simp add: demo_logger_def is_level_def LOG_EMERG_def LOG_DEBUG_def LOG_INFO_def)
  have s: "\<forall>n. Set_to n \<in> set [Up, Up, Down, Set_to 1, Down, Down] \<longrightarrow> is_level n"
    by (simp add: is_level_def LOG_EMERG_def LOG_DEBUG_def)
  have "fold next_level [Up, Up, Down, Set_to 1, Down, Down] (lg_level demo_logger) = 0"
    by (simp add: next_level_def demo_logger_def LOG_EMERG_def LOG_DEBUG_def LOG_INFO_def)
  then show ?thesis using log_levels_typed [OF f i s, of "[]"] by auto
qed

text \<open>
  C37: the logger opens and closes its file in balance: whatever initialisation and the reopenings answer, at most one
  descriptor is open besides those that were, and after the release they are exactly those again. The standard
  descriptors must be in use.
\<close>

theorem log_file_balanced:
  assumes "file_layer os fds" "messages_fit os (l\<lparr>lg_name := name\<rparr>)" "{0, 1, 2} \<subseteq> fds k" "- 1 \<notin> fds k"
  shows "\<exists>k1 l1 r k2 l2. log_init os k l level name = Some (k1, l1, r) \<and> reopens os n k1 l1 = Some (k2, l2)
    \<and> holds_file (fds k) (fds k2) l2 \<and> fds (fst (log_release os k2 l2)) = fds k"
proof -
  obtain k1 l1 r where i: "log_init os k l level name = Some (k1, l1, r)" "holds_file (fds k) (fds k1) l1" "lg_name l1 = name"
    using log_init_holds [OF assms(1,2)] by blast
  then have "messages_fit os l1" using assms(2) by (simp add: messages_fit_def)
  then obtain k2 l2 where t: "reopens os n k1 l1 = Some (k2, l2)" "holds_file (fds k) (fds k2) l2"
    using reopens_holds [OF assms(1,3) _ i(2)] by blast
  have "fds (fst (log_release os k2 l2)) - {- 1} = fds k - {- 1}" by (rule log_release_closes [OF assms(1) t(2)])
  moreover have "- 1 \<notin> fds (fst (log_release os k2 l2))"
    using t(2) assms(4) by (auto simp: log_release_def holds_file_def file_layerD(2) [OF assms(1)])
  ultimately have "fds (fst (log_release os k2 l2)) = fds k" using assms(4) by blast
  with i(1) t show ?thesis by blast
qed

definition demo_files :: "int set logos" where
  "demo_files = \<lparr>lo_open = (\<lambda>k f. if 3 \<in> k then (k, - 1) else (insert 3 k, 3)), lo_close = (\<lambda>k fd. k - {fd}),
     lo_write = (\<lambda>k fd bs. (k, int (length bs))), lo_gettimeofday = (\<lambda>k. (k, 0, 0)),
     lo_localtime = (\<lambda>t. \<lparr>tm_year = 121, tm_mon = 0, tm_mday = 23, tm_hour = 12, tm_min = 30, tm_sec = 5\<rparr>),
     lo_errno = (\<lambda>k. 0), lo_set_errno = (\<lambda>k e. k), lo_strerror = (\<lambda>e. []), lo_file = []\<rparr>"

theorem log_file_balanced_witness:
  "\<exists>k1 l1 r k2 l2. log_init demo_files {0, 1, 2} demo_logger LOG_INFO (Some [97]) = Some (k1, l1, r)
     \<and> reopens demo_files 2 k1 l1 = Some (k2, l2) \<and> fst (log_release demo_files k2 l2) = {0, 1, 2}"
proof -
  have "file_layer demo_files (\<lambda>k. k)" by (auto simp: file_layer_def demo_files_def)
  moreover have "messages_fit demo_files (demo_logger\<lparr>lg_name := Some [97]\<rparr>)"
    by (simp add: messages_fit_def demo_files_def)
  ultimately show ?thesis
    using log_file_balanced [where os = demo_files and fds = "\<lambda>k. k" and l = demo_logger and name = "Some [97]"
        and k = "{0, 1, 2}" and level = LOG_INFO and n = 2] by auto
qed

end
