(* ===== verification/Ez_Daemon.thy ===== *)
theory Ez_Daemon
  imports Ez_Prelude
begin

text \<open>
  Turning a process into a daemon, \<^verbatim>\<open>src/ez_daemon.c\<close>. The system is a parameter on a state \<open>'k\<close> of the calling
  process; after a \<^verbatim>\<open>fork\<close> that state is the one of whichever process the answer says we are in.
\<close>

section \<open>The system below\<close>



section \<open>\<^verbatim>\<open>ez_daemonize\<close>\<close>




section \<open>What a process is\<close>













end
