(* ===== verification/Ez_Test.thy ===== *)
theory Ez_Test
  imports Ez_List
begin

text \<open>
  The test harness of \<^verbatim>\<open>src/ez_test.c\<close> and \<^verbatim>\<open>src/ez_test.h\<close>: a list of registered tests, the runner, and the assertion
  macros. A test function is a parameter of the runner, as are the readings of \<^verbatim>\<open>mstime\<close>. What the runner prints
  is a list of lines, without the escape codes of the colours.
\<close>

section \<open>The data\<close>

record test_s =
  tname :: string
  func :: addr
  tmsg :: "string option"
  tresult :: int

definition R_CONTINUE :: int where "R_CONTINUE = 0"
definition R_FAIL_BREAK :: int where "R_FAIL_BREAK = 1"

text \<open>The link of a test is 16 bytes into its struct, behind two pointers.\<close>

definition link_of_test :: "addr \<Rightarrow> addr" where "link_of_test t = t + 16"
definition test_of_link :: "addr \<Rightarrow> addr" where "test_of_link ti = ti - 16"

lemma test_of_link_of_test [simp]: "test_of_link (link_of_test t) = t"
  by (simp add: link_of_test_def test_of_link_def)

lemma link_of_test_eq [simp]: "link_of_test t = link_of_test u \<longleftrightarrow> t = u"
  by (simp add: link_of_test_def)

datatype out_line = Run string | Message string | Failed string int | Passed string int

text \<open>\<open>clock\<close> counts the readings of the clock taken so far; \<open>world\<close> is what else the tests work on.\<close>

record 's harness =
  tests :: "addr \<rightharpoonup> test_s"
  clock :: nat
  printed :: "out_line list"
  world :: 's

type_synonym 's test_func = "addr \<Rightarrow> lmem \<Rightarrow> 's harness \<Rightarrow> (lmem \<times> 's harness) option"

section \<open>The macros\<close>

definition CHAR_TEXT3 :: "string \<Rightarrow> string \<Rightarrow> string \<Rightarrow> string" where
  "CHAR_TEXT3 a b c = a @ b @ c"

definition TEST :: "string \<Rightarrow> string \<Rightarrow> addr \<Rightarrow> test_s" where
  "TEST B N f = \<lparr>tname = CHAR_TEXT3 B ''.'' N, func = f, tmsg = None, tresult = R_CONTINUE\<rparr>"

text \<open>An expression of an assertion is its text and its value; a place is a file name and a line number.\<close>

definition ASSERT_FILE_LINE_3 :: "string \<times> string \<Rightarrow> string \<Rightarrow> string \<Rightarrow> string \<Rightarrow> string \<Rightarrow> string" where
  "ASSERT_FILE_LINE_3 place a b c d = fst place @ '':'' @ snd place @ d @ a @ b @ c"

definition CmpGE :: "string \<times> string \<Rightarrow> string \<times> int \<Rightarrow> string \<times> int \<Rightarrow> int \<Rightarrow> test_s \<Rightarrow> test_s" where
  "CmpGE place lv rv tr t =
     (if \<not> snd lv > snd rv
      then t\<lparr>tmsg := Some (ASSERT_FILE_LINE_3 place (fst lv) ''>'' (fst rv) '' failed: ''), tresult := tr\<rparr>
      else t)"

definition CmpEQ :: "string \<times> string \<Rightarrow> string \<times> int \<Rightarrow> string \<times> int \<Rightarrow> int \<Rightarrow> test_s \<Rightarrow> test_s" where
  "CmpEQ place lv rv tr t =
     (if \<not> snd lv = snd rv
      then t\<lparr>tmsg := Some (ASSERT_FILE_LINE_3 place (fst lv) ''=='' (fst rv) '' failed: ''), tresult := tr\<rparr>
      else t)"

definition ASSERT_EQ :: "string \<times> string \<Rightarrow> string \<times> int \<Rightarrow> string \<times> int \<Rightarrow> test_s \<Rightarrow> test_s" where
  "ASSERT_EQ place v1 v2 = CmpEQ place v1 v2 R_FAIL_BREAK"

definition ASSERT_GE :: "string \<times> string \<Rightarrow> string \<times> int \<Rightarrow> string \<times> int \<Rightarrow> test_s \<Rightarrow> test_s" where
  "ASSERT_GE place v1 v2 = CmpGE place v1 v2 R_FAIL_BREAK"

section \<open>The runner\<close>

definition init_default_suite :: "lmem \<Rightarrow> addr \<Rightarrow> lmem option" where
  "init_default_suite m suite = init_list_head m suite"

definition suite_add_test :: "addr \<Rightarrow> addr \<Rightarrow> lmem \<Rightarrow> lmem option" where
  "suite_add_test suite test m = list_add m (link_of_test test) suite"

definition print :: "out_line \<Rightarrow> 's harness \<Rightarrow> 's harness" where
  "print l s = s\<lparr>printed := printed s @ [l]\<rparr>"

text \<open>
  The body of the loop for the test \<open>p\<close>. To print the message of a failed test that has none is undefined. The
  answer says whether the loop is left.
\<close>

definition run_test :: "(addr \<Rightarrow> 's test_func) \<Rightarrow> (nat \<Rightarrow> int) \<Rightarrow> addr \<Rightarrow> lmem \<Rightarrow> 's harness \<Rightarrow> (lmem \<times> 's harness \<times> bool) option" where
  "run_test code mstime ti m s = do {
     let p = test_of_link ti;
     n \<leftarrow> rd tname (tests s) p;
     let s = print (Run n) s;
     let (begin_ms, s) = (mstime (clock s), s\<lparr>clock := clock s + 1\<rparr>);
     f \<leftarrow> rd func (tests s) p;
     (m, s) \<leftarrow> code f p m s;
     let (cst, s) = (mstime (clock s) - begin_ms, s\<lparr>clock := clock s + 1\<rparr>);
     r \<leftarrow> rd tresult (tests s) p;
     n \<leftarrow> rd tname (tests s) p;
     s \<leftarrow> (if r = R_FAIL_BREAK
          then do {
            msg \<leftarrow> rd tmsg (tests s) p;
            text \<leftarrow> msg;
            Some (print (Failed n cst) (print (Message text) s))
          }
          else Some (print (Passed n cst) s));
     r \<leftarrow> rd tresult (tests s) p;
     Some (m, s, r = R_FAIL_BREAK)
   }"

definition run_default_suite :: "(addr \<Rightarrow> 's test_func) \<Rightarrow> (nat \<Rightarrow> int) \<Rightarrow> addr \<Rightarrow> lmem \<Rightarrow> 's harness \<Rightarrow> (lmem \<times> 's harness) option" where
  "run_default_suite code mstime suite m s = LIST_FOR_R (run_test code mstime) suite m s"

text \<open>A program registers its tests one after the other.\<close>

fun suite_add_all :: "addr \<Rightarrow> addr list \<Rightarrow> lmem \<Rightarrow> lmem option" where
  "suite_add_all suite [] m = Some m"
| "suite_add_all suite (t # ts) m = do { m \<leftarrow> suite_add_test suite t m; suite_add_all suite ts m }"

section \<open>What a run does\<close>

text \<open>
  The test functions behave: each of them, on a test that has not run yet, returns, leaves the list alone, writes no test but its own, whose name it
  keeps, and has a message when it has failed.
\<close>

definition tests_behave :: "(addr \<Rightarrow> 's test_func) \<Rightarrow> bool" where
  "tests_behave code \<longleftrightarrow> (\<forall>t m s d. tests s t = Some d \<and> tresult d = R_CONTINUE \<longrightarrow>
     (\<exists>w d'. code (func d) t m s = Some (m, s\<lparr>tests := (tests s)(t \<mapsto> d'), world := w\<rparr>)
        \<and> tname d' = tname d \<and> (tresult d' = R_FAIL_BREAK \<longrightarrow> tmsg d' \<noteq> None)))"

definition failed :: "(addr \<rightharpoonup> test_s) \<Rightarrow> addr \<Rightarrow> bool" where
  "failed T t \<longleftrightarrow> map_option tresult (T t) = Some R_FAIL_BREAK"

text \<open>The lines printed for one test and for a sequence of tests, when the clock has been read \<open>c\<close> times before.\<close>

definition report :: "(nat \<Rightarrow> int) \<Rightarrow> (addr \<rightharpoonup> test_s) \<Rightarrow> nat \<Rightarrow> addr \<Rightarrow> out_line list" where
  "report mstime T c t = (case T t of None \<Rightarrow> [] | Some d \<Rightarrow>
     Run (tname d) #
       (if tresult d = R_FAIL_BREAK
        then [Message (the (tmsg d)), Failed (tname d) (mstime (c + 1) - mstime c)]
        else [Passed (tname d) (mstime (c + 1) - mstime c)]))"

fun reports :: "(nat \<Rightarrow> int) \<Rightarrow> (addr \<rightharpoonup> test_s) \<Rightarrow> nat \<Rightarrow> addr list \<Rightarrow> out_line list" where
  "reports mstime T c [] = []"
| "reports mstime T c (t # ts) = report mstime T c t @ reports mstime T (c + 2) ts"

lemma reports_snoc:
  "reports mstime T c (ts @ [t]) = reports mstime T c ts @ report mstime T (c + 2 * length ts) t"
  by (induction ts arbitrary: c) simp_all

lemma reports_cong: "(\<And>t. t \<in> set ts \<Longrightarrow> T t = T' t) \<Longrightarrow> reports mstime T c ts = reports mstime T' c ts"
  by (induction ts arbitrary: c) (simp_all add: report_def)

definition has_run :: "(nat \<Rightarrow> int) \<Rightarrow> 's harness \<Rightarrow> 's harness \<Rightarrow> addr list \<Rightarrow> bool" where
  "has_run mstime s s' past \<longleftrightarrow>
     printed s' = printed s @ reports mstime (tests s') (clock s) past \<and> clock s' = clock s + 2 * length past
     \<and> (\<forall>t. t \<notin> set past \<longrightarrow> tests s' t = tests s t)"

lemma run_test_spec:
  assumes "tests_behave code" "has_run mstime s s' past" "t \<notin> set past" "tests s t = Some d" "tresult d = R_CONTINUE"
  shows "\<exists>s''. run_test code mstime (link_of_test t) m s' = Some (m, s'', failed (tests s'') t)
    \<and> has_run mstime s s'' (past @ [t]) \<and> (\<forall>u. u \<noteq> t \<longrightarrow> tests s'' u = tests s' u)"
proof -
  have d: "tests s' t = Some d" using assms(2-4) unfolding has_run_def by metis
  let ?s1 = "(print (Run (tname d)) s')\<lparr>clock := clock s' + 1\<rparr>"
  have "tests ?s1 t = Some d" using d by (simp add: print_def)
  then obtain w d' where c: "code (func d) t m ?s1 = Some (m, ?s1\<lparr>tests := (tests ?s1)(t \<mapsto> d'), world := w\<rparr>)"
    and d': "tname d' = tname d" "tresult d' = R_FAIL_BREAK \<longrightarrow> tmsg d' \<noteq> None"
    using assms(1,5) unfolding tests_behave_def by blast
  have same: "reports mstime ((tests s')(t \<mapsto> d')) k past = reports mstime (tests s') k past" for k
    using assms(3) by (intro reports_cong) auto
  show ?thesis
  proof (cases "tresult d' = R_FAIL_BREAK")
    case True
    then obtain msg where "tmsg d' = Some msg" using d'(2) by blast
    with True show ?thesis using assms(2) d c d'(1)
      by (simp add: run_test_def print_def rd_def failed_def has_run_def reports_snoc same report_def)
  next
    case False
    then show ?thesis using assms(2) d c d'(1)
      by (simp add: run_test_def print_def rd_def failed_def has_run_def reports_snoc same report_def)
  qed
qed

text \<open>Registered tests stand in the ring with the newest first.\<close>

lemma suite_add_all_spec:
  assumes "dlist m suite (map link_of_test us)" "distinct (ts @ us)" "suite \<notin> link_of_test ` set ts"
    "\<forall>t \<in> set ts. m (link_of_test t) \<noteq> None"
  shows "\<exists>m'. suite_add_all suite ts m = Some m' \<and> dlist m' suite (map link_of_test (rev ts @ us))
    \<and> agree_on (- (insert suite (link_of_test ` (set ts \<union> set us)))) m m'"
  using assms
proof (induction ts arbitrary: m us)
  case (Cons t ts)
  obtain n0 where n0: "m (link_of_test t) = Some n0" using Cons.prems(4) by auto
  have "link_of_test t \<notin> set (suite # map link_of_test us)" "link_of_test t \<noteq> NULL"
    using Cons.prems(2,3) by (auto simp: link_of_test_def)
  with list_add_spec [of m suite "[]" "map link_of_test us" "link_of_test t" n0] n0 Cons.prems(1)
  obtain m1 where m1: "suite_add_test suite t m = Some m1" "dlist m1 suite (map link_of_test (t # us))"
    and ag: "agree_on (- insert (link_of_test t) (set (suite # map link_of_test us))) m m1"
    by (auto simp: suite_add_test_def)
  have live: "\<forall>u \<in> set ts. m1 (link_of_test u) \<noteq> None"
  proof
    fix u assume u: "u \<in> set ts"
    then have "link_of_test u \<notin> insert (link_of_test t) (set (suite # map link_of_test us))"
      using Cons.prems(2,3) by auto
    then have "m1 (link_of_test u) = m (link_of_test u)" using ag unfolding agree_on_def by auto
    with u Cons.prems(4) show "m1 (link_of_test u) \<noteq> None" by simp
  qed
  obtain m' where m': "suite_add_all suite ts m1 = Some m'" "dlist m' suite (map link_of_test (rev ts @ t # us))"
    and ag': "agree_on (- (insert suite (link_of_test ` (set ts \<union> set (t # us))))) m1 m'"
    using Cons.IH [OF m1(2) _ _ live] Cons.prems(2,3) by auto
  have "agree_on (- (insert suite (link_of_test ` (set (t # ts) \<union> set us)))) m m1"
    by (rule agree_on_mono [OF ag]) auto
  moreover have "agree_on (- (insert suite (link_of_test ` (set (t # ts) \<union> set us)))) m1 m'"
    by (rule agree_on_mono [OF ag']) auto
  ultimately show ?case using m1(1) m' agree_on_trans by fastforce
qed simp

definition run_ends :: "(nat \<Rightarrow> int) \<Rightarrow> 's harness \<Rightarrow> addr list \<Rightarrow> 's harness \<Rightarrow> addr list \<Rightarrow> addr list \<Rightarrow> bool" where
  "run_ends mstime s ts s' past rest \<longleftrightarrow> ts = past @ rest \<and> has_run mstime s s' past
     \<and> (\<forall>t \<in> set (butlast past). \<not> failed (tests s') t) \<and> (rest \<noteq> [] \<longrightarrow> past \<noteq> [] \<and> failed (tests s') (last past))"

lemma run_default_suite_spec:
  assumes ring: "dlist m suite (map link_of_test (rev ts))" and good: "tests_behave code"
    and live: "\<forall>t \<in> set ts. \<exists>d. tests s t = Some d \<and> tresult d = R_CONTINUE"
  shows "\<exists>s' past rest. run_default_suite code mstime suite m s = Some (m, s') \<and> run_ends mstime s ts s' past rest"
proof -
  define I where "I ys m' s' \<longleftrightarrow> m' = m \<and> (\<exists>past rest. ys = map link_of_test rest \<and> ts = past @ rest
      \<and> has_run mstime s s' past \<and> (\<forall>t \<in> set past. \<not> failed (tests s') t))" for ys m' s'
  define Q where "Q m' s' \<longleftrightarrow> m' = m \<and> (\<exists>past rest. run_ends mstime s ts s' past rest)" for m' s'
  have dist: "distinct ts" "suite \<notin> link_of_test ` set ts" using dlist_distinct [OF ring] by (auto simp: distinct_map)
  have h: "rd prv m suite = Some (hd (map link_of_test ts @ [suite]))"
    using dlist_lst [of m suite "map link_of_test (rev ts)" "[]"] ring by (cases ts) auto
  have "\<exists>m' s'. run_default_suite code mstime suite m s = Some (m', s') \<and> Q m' s'"
    unfolding run_default_suite_def LIST_FOR_R_def
  proof (rule list_for_rule [where xs = "map link_of_test ts" and I = I and Q = Q])
    show "rd prv m suite = Some (hd (map link_of_test ts @ [suite]))" by (rule h)
    have "has_run mstime s s []" by (simp add: has_run_def)
    then show "I (map link_of_test ts) m s" unfolding I_def by fastforce
    show "suite \<notin> set (map link_of_test ts)" using dist(2) by simp
    show "rd prv m' x = Some (hd (ys @ [suite]))" if I: "I (x # ys) m' s'" for x ys m' s'
    proof -
      from I obtain past t rest where ts: "ts = past @ t # rest" "x = link_of_test t" "ys = map link_of_test rest" "m' = m"
        by (auto simp: I_def)
      with dlist_rev_link [of m suite "map link_of_test (rev rest)" x "map link_of_test (rev past)"] ring
      show ?thesis by (simp add: rev_map)
    qed
    show "\<exists>n. rd prv m' suite = Some n" if "I [] m' s'" for m' s' using that h by (simp add: I_def)
    show "\<exists>m'' s'' b. run_test code mstime x m' s' = Some (m'', s'', b) \<and> (if b then Q m'' s'' else I ys m'' s'')"
      if I: "I (x # ys) m' s'" for x ys m' s'
    proof -
      from I obtain past t rest where ts: "ts = past @ t # rest" "x = link_of_test t" "ys = map link_of_test rest"
        and run: "m' = m" "has_run mstime s s' past" "\<forall>t \<in> set past. \<not> failed (tests s') t"
        by (auto simp: I_def)
      obtain d where new: "t \<notin> set past" "tests s t = Some d" "tresult d = R_CONTINUE" using dist(1) live ts(1) by auto
      obtain s'' where s'': "run_test code mstime x m s' = Some (m, s'', failed (tests s'') t)"
        "has_run mstime s s'' (past @ [t])" and same: "\<forall>u. u \<noteq> t \<longrightarrow> tests s'' u = tests s' u"
        using run_test_spec [OF good run(2) new] ts(2) by blast
      have ok: "\<forall>u \<in> set past. \<not> failed (tests s'') u" using run(3) same new(1) by (auto simp: failed_def)
      show ?thesis
      proof (cases "failed (tests s'') t")
        case True
        then have "run_ends mstime s ts s'' (past @ [t]) rest" using s''(2) ok ts(1) by (simp add: run_ends_def)
        with s''(1) True show ?thesis by (auto simp: Q_def run(1))
      next
        case False
        then have "I ys m s''" unfolding I_def using s''(2) ok ts(1,3)
          by (intro conjI refl exI [of _ "past @ [t]"] exI [of _ rest]) auto
        with s''(1) False show ?thesis by (auto simp: run(1))
      qed
    qed
    show "Q m' s'" if "I [] m' s'" for m' s'
    proof -
      from that have "m' = m" "has_run mstime s s' ts" "\<forall>t \<in> set ts. \<not> failed (tests s') t" by (auto simp: I_def)
      then have "run_ends mstime s ts s' ts []" by (auto simp: run_ends_def dest: in_set_butlastD)
      with \<open>m' = m\<close> show ?thesis by (auto simp: Q_def)
    qed
  qed
  then show ?thesis by (auto simp: Q_def)
qed

section \<open>The assertions\<close>

lemma ASSERT_EQ_iff: "tresult t \<noteq> R_FAIL_BREAK \<Longrightarrow> tresult (ASSERT_EQ place v1 v2 t) = R_FAIL_BREAK \<longleftrightarrow> snd v1 \<noteq> snd v2"
  by (simp add: ASSERT_EQ_def CmpEQ_def)

text \<open>The macro named \<^verbatim>\<open>ASSERT_GE\<close> asks for more than greater or equal: equal values fail.\<close>

lemma ASSERT_GE_is_strict: "tresult t \<noteq> R_FAIL_BREAK \<Longrightarrow> tresult (ASSERT_GE place v1 v2 t) = R_FAIL_BREAK \<longleftrightarrow> snd v1 \<le> snd v2"
  by (auto simp: ASSERT_GE_def CmpGE_def)

lemma ASSERT_keeps:
  "tname (ASSERT_EQ place v1 v2 t) = tname t" "tname (ASSERT_GE place v1 v2 t) = tname t"
  "tresult t = R_FAIL_BREAK \<Longrightarrow> tresult (ASSERT_EQ place v1 v2 t) = R_FAIL_BREAK"
  "tresult t = R_FAIL_BREAK \<Longrightarrow> tresult (ASSERT_GE place v1 v2 t) = R_FAIL_BREAK"
  by (simp_all add: ASSERT_EQ_def ASSERT_GE_def CmpEQ_def CmpGE_def)

lemma ASSERT_message:
  assumes "tresult t = R_FAIL_BREAK \<longrightarrow> tmsg t \<noteq> None"
  shows "tresult (ASSERT_EQ place v1 v2 t) = R_FAIL_BREAK \<longrightarrow> tmsg (ASSERT_EQ place v1 v2 t) \<noteq> None"
    and "tresult (ASSERT_GE place v1 v2 t) = R_FAIL_BREAK \<longrightarrow> tmsg (ASSERT_GE place v1 v2 t) \<noteq> None"
  using assms by (simp_all add: ASSERT_EQ_def ASSERT_GE_def CmpEQ_def CmpGE_def)

section \<open>Property\<close>

text \<open>
  C40: The runner visits the tests of the default suite in the order in which they were registered, and stops behind the
  first one that fails: of the tests that run all but the last pass, those behind a failure are not touched, and what is
  printed is one report per test that past, with the time between the two readings of the clock around it. The list
  is as before.
\<close>

theorem suite_runs_in_order:
  assumes "m suite = Some n" "suite \<noteq> NULL" "distinct ts" "suite \<notin> link_of_test ` set ts"
    and "\<forall>t \<in> set ts. m (link_of_test t) \<noteq> None" "\<forall>t \<in> set ts. \<exists>d. tests s t = Some d \<and> tresult d = R_CONTINUE" "tests_behave code"
  shows "\<exists>m1 s' past rest. do { m \<leftarrow> init_default_suite m suite; suite_add_all suite ts m } = Some m1
    \<and> run_default_suite code mstime suite m1 s = Some (m1, s')
    \<and> ts = past @ rest
    \<and> (\<forall>t \<in> set (butlast past). \<not> failed (tests s') t)
    \<and> (rest \<noteq> [] \<longrightarrow> past \<noteq> [] \<and> failed (tests s') (last past))
    \<and> (\<forall>t \<in> set rest. tests s' t = tests s t)
    \<and> printed s' = printed s @ reports mstime (tests s') (clock s) past"
proof -
  obtain m0 where m0: "init_default_suite m suite = Some m0" "dlist m0 suite []" "agree_on (- {suite}) m m0"
    using init_list_head_spec [of m suite] assms(1,2) by (auto simp: init_default_suite_def)
  have "\<forall>t \<in> set ts. m0 (link_of_test t) \<noteq> None"
    using assms(4,5) m0(3) unfolding agree_on_def by (metis Compl_iff image_eqI singletonD)
  then obtain m1 where m1: "suite_add_all suite ts m0 = Some m1" "dlist m1 suite (map link_of_test (rev ts))"
    using suite_add_all_spec [of m0 suite "[]" ts] m0(2) assms(3,4) by auto
  obtain s' past rest where r: "run_default_suite code mstime suite m1 s = Some (m1, s')" "run_ends mstime s ts s' past rest"
    using run_default_suite_spec [OF m1(2) assms(7,6)] by blast
  have "\<forall>t \<in> set rest. tests s' t = tests s t" using r(2) assms(3) by (auto simp: run_ends_def has_run_def)
  with m0(1) m1(1) r show ?thesis by (auto simp: run_ends_def has_run_def)
qed

text \<open>Three tests with one assertion each; the second one fails.\<close>

definition demo_code :: "addr \<Rightarrow> unit test_func" where
  "demo_code f t m s = Some (m, s\<lparr>tests := (tests s)(t := map_option
     (ASSERT_EQ (''a.c'', ''7'') (''f'', int f) (''1'', 1)) (tests s t))\<rparr>)"

definition demo_harness :: "unit harness" where
  "demo_harness = \<lparr>tests = [100 \<mapsto> TEST ''t'' ''a'' 1, 200 \<mapsto> (TEST ''t'' ''b'' 2), 300 \<mapsto> TEST ''t'' ''c'' 1],
     clock = 0, printed = [], world = ()\<rparr>"

lemma demo_behave: "tests_behave demo_code"
proof -
  let ?a = "\<lambda>d. ASSERT_EQ (''a.c'', ''7'') (''f'', int (func d)) (''1'', 1) d"
  have "\<exists>w d'. demo_code (func d) t m s = Some (m, s\<lparr>tests := (tests s)(t \<mapsto> d'), world := w\<rparr>)
      \<and> tname d' = tname d \<and> (tresult d' = R_FAIL_BREAK \<longrightarrow> tmsg d' \<noteq> None)"
    if "tests s t = Some d" "tresult d = R_CONTINUE" for t m s d
    using that by (intro exI [of _ "()"] exI [of _ "?a d"])
      (simp add: demo_code_def ASSERT_keeps ASSERT_message R_CONTINUE_def R_FAIL_BREAK_def)
  then show ?thesis by (simp add: tests_behave_def)
qed

definition demo_suite :: lmem where
  "demo_suite = (\<lambda>p. if p \<in> {1, 116, 216, 316} then Some \<lparr>nxt = 0, prv = 0\<rparr> else None)"

lemma demo_start:
  "\<forall>t \<in> set [100, 200, 300]. demo_suite (link_of_test t) \<noteq> None"
  "\<forall>t \<in> set [100, 200, 300]. \<exists>d. tests demo_harness t = Some d \<and> tresult d = R_CONTINUE"
  by (simp_all add: demo_suite_def link_of_test_def demo_harness_def TEST_def)

theorem suite_runs_in_order_witness:
  "\<exists>m1 s' past rest. run_default_suite demo_code int 1 m1 demo_harness = Some (m1, s') \<and> [100, 200, 300] = past @ rest
    \<and> (rest \<noteq> [] \<longrightarrow> past \<noteq> [] \<and> failed (tests s') (last past))
    \<and> printed s' = printed demo_harness @ reports int (tests s') (clock demo_harness) past"
proof -
  have "demo_suite 1 = Some \<lparr>nxt = 0, prv = 0\<rparr>" "1 \<noteq> NULL" "distinct [100, 200, 300 :: nat]"
    "1 \<notin> link_of_test ` set [100, 200, 300]" by (auto simp: demo_suite_def link_of_test_def)
  from suite_runs_in_order [OF this demo_start demo_behave, of int] show ?thesis by blast
qed

end
