(* ===== verification/Spec2Isabelle.thy ===== *)
theory Spec2Isabelle
  imports Ez_List Ez_Rbtree_Index Ez_Max_Heap Ez_Malloc Ez_Bytebuf Ez_Murmur Ez_Hash Ez_String Ez_Rwlock
    Ez_Event Ez_Life Ez_Util Ez_Storage Ez_Socket Ez_Log Ez_Daemon Ez_Test
begin

text \<open>
  \<^bold>\<open>c_util\<close>

  The library is a set of C modules for network servers: containers whose nodes live inside the caller's structs
  (list, red-black tree, heap, hash table), an allocator that counts, byte buffers and text, a reader-writer lock, an
  event loop over epoll with timers, sockets, a logger, and a function that makes a process a daemon. This development
  models these modules one by one, in the order of their dependencies, and proves what each of them does.

  \<^bold>\<open>How the parts interact.\<close> The event loop keeps its file events in a red-black tree ordered by descriptor, removed
  file events in a list for reuse, its timers in a list sorted by firing time, and a back end that keeps the kernel's
  table of watched descriptors. The buckets of the hash table are lists. Byte buffers are filled from sockets and emptied
  into them. All memory comes from the allocator; the models of its users take the address it answers as an argument.

  \<^bold>\<open>Conventions.\<close> All are in \<^verbatim>\<open>Ez_Prelude\<close>. A function that may dereference a wild or NULL pointer, leave an array
  or call a function outside its domain is a function into \<open>option\<close>, \<open>None\<close> being undefined behaviour; so a statement
  that the result is \<open>Some\<close> of something says as well that the code is safe there. Memories are maps from addresses to
  structs, read by \<open>rd\<close> and written by \<open>wr\<close>, one call per load and store of the source. Unsigned integers are words of
  their width, wrapping around. An \<^verbatim>\<open>int\<close> that stays within its range by its guards is a HOL integer. A loop whose end
  depends on the data is a \<open>partial_function (option)\<close>, for which not returning is \<open>None\<close> too: that the result is
  \<open>Some\<close> therefore includes that the loop ends. The loops over a buffer are \<open>function\<close>s with a measure. There is no
  fuel anywhere.

  Where several operations answer to one contract, the contract is a locale that is interpreted on the code:
  \<^verbatim>\<open>node_sequence\<close> (the list), \<^verbatim>\<open>keyed_index\<close> (the tree, as the file events use it), \<^verbatim>\<open>bag_box\<close> (the heap),
  \<^verbatim>\<open>shadowing_store\<close> (the hash table), \<^verbatim>\<open>int_codec\<close> (the seven integer formats of the byte buffer).
\<close>

text \<open>
  \<^bold>\<open>Containers.\<close>

  \<^item> \<^verbatim>\<open>Ez_List\<close>: \<^verbatim>\<open>src/ez_list.c\<close> and the iteration macros of \<^verbatim>\<open>src/ez_list.h\<close>. The predicate \<open>dlist m h xs\<close> ties a
    memory to the sequence of its elements; every operation is an operation on the sequence, and one that adds a node
    and deletes it again restores the memory outside the node.
  \<^item> \<^verbatim>\<open>Ez_Rbtree\<close>: the pointer code of \<^verbatim>\<open>src/ez_rbtree.c\<close>, statement by statement. \<^verbatim>\<open>Ez_Rbt_Tree\<close>: the trees it
    stands for and the rebalancing on zippers. \<^verbatim>\<open>Ez_Rbtree_Rep\<close> relates the two, \<^verbatim>\<open>Ez_Rbtree_Refine\<close> and
    \<^verbatim>\<open>Ez_Rbtree_Delete\<close> are the simulation, insertion and deletion. \<^verbatim>\<open>Ez_Rbtree_Index\<close> is the contract: a history of
    insertions and deletions acts like updates of a finite map, the red-black rules hold after it, and paths are
    logarithmically short.
  \<^item> \<^verbatim>\<open>Ez_Max_Heap\<close>: \<^verbatim>\<open>src/ez_max_heap.c\<close>. Both operations keep the bag of elements; insertion keeps the heap order;
    removal answers a greatest element. Removal does not keep the order, which is a finding of the manifest.
  \<^item> \<^verbatim>\<open>Ez_Hash\<close>: the table of \<^verbatim>\<open>src/ez_hash.c\<close>. A history of put, get and delete acts on an association list in
    which a new entry shadows an old one of the same key. \<^verbatim>\<open>Ez_Murmur\<close>: the three hash functions of the same file,
    equal to references that consume the bytes in order.
\<close>

text \<open>
  \<^bold>\<open>Memory, bytes and text.\<close>

  \<^item> \<^verbatim>\<open>Ez_Malloc\<close>: \<^verbatim>\<open>src/ez_malloc.c\<close>. The C library's allocator is a parameter: each call takes its answer, and
    \<open>good_malloc\<close> and its kin are what it promises. The counter of \<^verbatim>\<open>ez_malloc_used_memory\<close> is the sum of the usable
    sizes of the live blocks; new memory is zero.
  \<^item> \<^verbatim>\<open>Ez_Bytebuf\<close>: \<^verbatim>\<open>src/ez_bytebuf.c\<close> and \<^verbatim>\<open>src/ez_bytebuf.h\<close>. What is written, in any mixture of formats, is read
    back in order, as long as it fits.
  \<^item> \<^verbatim>\<open>Ez_Storage\<close>: the allocator calls of the byte buffer and of the heap. However often they grew and moved, to
    release them brings the live blocks and the counter back to what they were.
  \<^item> \<^verbatim>\<open>Ez_String\<close>: \<^verbatim>\<open>src/ez_string.c\<close>. The UTF-8 coder against a reference encoding, decoding what was encoded, and
    the bounds of the copy and print functions.
  \<^item> \<^verbatim>\<open>Ez_Util\<close>: \<^verbatim>\<open>src/ez_util.c\<close>. The parsers of decimal and octal numbers with their overflow checks, against the
    value of the digits; the conversions of the C library they are built on; reading a whole file.
  \<^item> \<^verbatim>\<open>Ez_Rwlock\<close>: \<^verbatim>\<open>src/ez_rwlock.c\<close> with the atomic operations of \<^verbatim>\<open>src/ez_atomic.h\<close> that it uses, as an inductive
    relation whose steps are the accesses of any number of threads to the two shared words. Mutual exclusion and the
    exact reader count are invariants of all reachable states; a writer that has taken the flag is not shut out.
\<close>

text \<open>
  \<^bold>\<open>The event loop\<close>, \<^verbatim>\<open>src/ez_event.c\<close> and \<^verbatim>\<open>src/ez_epoll.c\<close>.

  \<^item> \<^verbatim>\<open>Ez_Loop\<close>: the record of the loop and the record \<open>os\<close> of the system calls, functions on a system state \<open>'k\<close>.
  \<^item> \<^verbatim>\<open>Ez_Timer\<close>: creation keeps the list sorted, deletion removes exactly the timer of that id, the firing pass calls
    exactly the timers that are due, in order, each once, and queues those that ask for another period.
  \<^item> \<^verbatim>\<open>Ez_Epoll\<close>: the back end. Adding and deleting event bits keep the kernel's table equal to the registered masks; a
    poll translates the kernel's answer, and the write to the command descriptor is answered by stopping the loop.
  \<^item> \<^verbatim>\<open>Ez_File\<close>: creation and deletion of file events as updates of a finite map from descriptors to masks, handlers
    and client data, with the kernel's table in step, for every failure of the system call too.
  \<^item> \<^verbatim>\<open>Ez_Event\<close>: creation and deletion of a loop, where every block that was taken is given back on every path (and
    every descriptor but one, which is a finding); one round; the run until a stop command. Callbacks are functions on the whole loop, so they may add and
    delete events while a round goes on. That \<^verbatim>\<open>ez_run_event_loop\<close> returns after a stop command is a theorem about
    a loop that may run for ever.
  \<^item> \<^verbatim>\<open>Ez_Life\<close>: all of it put together. Programs and callbacks, the latter in the middle of a round, call the operations in
    any order; the invariant of the loop (file events, kernel table, timers, what is live) holds in every state that is
    reached, and to delete the loop leaves nothing behind.
\<close>

text \<open>
  \<^bold>\<open>Sockets, logger, daemon, tests.\<close>

  \<^item> \<^verbatim>\<open>Ez_Net\<close>: all of \<^verbatim>\<open>src/ez_net.c\<close>, on a record of the socket calls. \<^verbatim>\<open>Ez_Socket\<close>: what its functions achieve on
    systems that keep the documented behaviour, stated by \<open>socket_layer\<close> (which sockets are open, and their options)
    and \<open>stream_layer\<close> (which bytes arrived and left): a server or a connection is there with the right
    options or there is no socket more than before, and a buffer between two descriptors is a queue.
  \<^item> \<^verbatim>\<open>Ez_Log\<close>: \<^verbatim>\<open>src/ez_log.c\<close> and the macros of \<^verbatim>\<open>src/ez_log.h\<close>: the levels, the log file, a log line in its buffer, the
    hex dump against a reference layout.
  \<^item> \<^verbatim>\<open>Ez_Daemon\<close>: \<^verbatim>\<open>src/ez_daemon.c\<close>, the sequence of calls and which process is left running.
  \<^item> \<^verbatim>\<open>Ez_Test\<close>: \<^verbatim>\<open>src/ez_test.c\<close> and \<^verbatim>\<open>src/ez_test.h\<close>, the registration and the runner of unit tests and the assertions.
    Tests run in the order of registration up to the first that fails.
\<close>

text \<open>
  \<^bold>\<open>Parameters.\<close> The operating system, the C library's allocator, \<^verbatim>\<open>vsnprintf\<close>, the clocks, the resolver, the
  comparison, hash, handler and timer functions of the caller. Each appears as an argument of the definitions that use
  it. What a theorem needs of one is a named hypothesis, with a concrete system that satisfies it in the witness.

  \<^bold>\<open>Not modelled.\<close> Log output inside other components, and the messages of \<^verbatim>\<open>perror\<close>. The branches for
  \<^verbatim>\<open>USE_IOCTL\<close> and \<^verbatim>\<open>EZ_USE_ACCEPT4\<close>, which no build defines. The reordering of memory accesses by weak machines in the
  reader-writer lock: the model is sequentially consistent. The macros of \<^verbatim>\<open>src/ez_macro.h\<close>, \<^verbatim>\<open>src/ez_atomic.h\<close> and
  \<^verbatim>\<open>src/ez_util.h\<close> apart from those the modelled code calls. The example programs under \<^verbatim>\<open>test/\<close>.
\<close>

end
